(* ===== verification/Kanon_Prelude.thy ===== *)
theory Kanon_Prelude
  imports Main "HOL-Library.Word"
begin

text \<open>
  Shared vocabulary of the development: machine types, the error values of the
  modelled C++ code, the error monad, list segments (the model of pointer ranges into
  one array) and the byte-level representation of unsigned integers.
\<close>

section \<open>Machine types\<close>

text \<open>The LP64 data model of the supported platforms: \<open>char\<close> is a byte, \<open>size_t\<close> has
  64 bits. Strings are byte lists.\<close>

type_synonym byte = "8 word"
type_synonym bytes = "8 word list"
type_synonym usize = "64 word"

text \<open>\<open>static_cast<size_t>(-1)\<close>, used as \<open>npos\<close> and as the result of failed calls.\<close>

abbreviation (input) usize_max :: usize where
  "usize_max \<equiv> - 1"

section \<open>Errors as values\<close>

text \<open>
  Every way in which the modelled code stops without a result: a failing
  \<open>assert\<close>, a thrown \<open>std::bad_alloc\<close>, another thrown exception, an exception leaving a \<open>noexcept\<close> function
  (\<open>std::terminate\<close>), a read or write outside of the accessed array, a null pointer
  dereference, a fatal log line (\<open>LOG_FATAL\<close> aborts), a loop that never ends, an access to
  an object that has been deleted.
\<close>

datatype cerror =
    AssertFail
  | BadAlloc
  | Terminate
  | OutOfBounds
  | NullDeref
  | Exn
  | Fatal
  | Diverge
  | UseAfterFree

type_synonym 'a res = "cerror + 'a"

named_theorems res_simps \<open>unfolding of the error monad\<close>

definition rbind :: "'a res \<Rightarrow> ('a \<Rightarrow> 'b res) \<Rightarrow> 'b res" where
  "rbind m f = (case m of Inl e \<Rightarrow> Inl e | Inr x \<Rightarrow> f x)"

definition assertR :: "bool \<Rightarrow> unit res" where
  "assertR b = (if b then Inr () else Inl AssertFail)"

text \<open>The result of a loop defined as a partial function, which is \<^term>\<open>None\<close> if it never ends.\<close>

definition ended :: "'a res option \<Rightarrow> 'a res" where
  "ended m = (case m of None \<Rightarrow> Inl Diverge | Some r \<Rightarrow> r)"

text \<open>\<open>noexcept\<close>: an exception that would leave the function ends the program.\<close>

definition noexcept :: "'a res \<Rightarrow> 'a res" where
  "noexcept m = (case m of
      Inl BadAlloc \<Rightarrow> Inl Terminate
    | Inl Exn \<Rightarrow> Inl Terminate
    | _ \<Rightarrow> m)"

lemma rbind_simps [simp, res_simps]:
  "rbind (Inl e) f = Inl e"
  "rbind (Inr x) f = f x"
  by (simp_all add: rbind_def)

lemma rbind_Inr_iff:
  "rbind m f = Inr y \<longleftrightarrow> (\<exists>x. m = Inr x \<and> f x = Inr y)"
  by (cases m) simp_all

lemma rbind_Inl_iff:
  "rbind m f = Inl e \<longleftrightarrow> m = Inl e \<or> (\<exists>x. m = Inr x \<and> f x = Inl e)"
  by (cases m) simp_all

lemma rbind_InrE [elim!]:
  assumes "rbind m f = Inr y"
  obtains x where "m = Inr x" "f x = Inr y"
  using assms by (auto simp: rbind_Inr_iff)

lemma assertR_simps [simp, res_simps]:
  "assertR True = Inr ()"
  "assertR False = Inl AssertFail"
  "assertR b = Inr u \<longleftrightarrow> b"
  by (simp_all add: assertR_def)

lemma ended_simps [simp, res_simps]:
  "ended (Some r) = r"
  "ended None = Inl Diverge"
  by (simp_all add: ended_def)

lemma noexcept_simps [simp, res_simps]:
  "noexcept (Inr x) = Inr x"
  "noexcept (Inl BadAlloc) = Inl Terminate"
  "noexcept (Inl AssertFail) = Inl AssertFail"
  "noexcept (Inl OutOfBounds) = Inl OutOfBounds"
  "noexcept m = Inr x \<longleftrightarrow> m = Inr x"
  by (auto simp: noexcept_def split: sum.splits cerror.splits)

section \<open>List segments\<close>

named_theorems seg_simps \<open>segments of a list and overwriting a segment\<close>

definition seg :: "nat \<Rightarrow> nat \<Rightarrow> 'a list \<Rightarrow> 'a list" where
  "seg i j xs = take (j - i) (drop i xs)"

definition put_at :: "nat \<Rightarrow> 'a list \<Rightarrow> 'a list \<Rightarrow> 'a list" where
  "put_at i ys xs = take i xs @ ys @ drop (i + length ys) xs"

lemma length_seg [simp, seg_simps]:
  "j \<le> length xs \<Longrightarrow> length (seg i j xs) = j - i"
  by (simp add: seg_def)

lemma length_put_at [simp, seg_simps]:
  "i + length ys \<le> length xs \<Longrightarrow> length (put_at i ys xs) = length xs"
  by (simp add: put_at_def)

lemma seg_same [simp, seg_simps]: "seg i i xs = []"
  by (simp add: seg_def)

lemma put_at_Nil [simp, seg_simps]: "put_at i [] xs = xs"
  by (simp add: put_at_def)

lemma seg_append_take:
  "j \<le> length xs \<Longrightarrow> seg i j (xs @ ys) = seg i j xs"
  by (cases "i \<le> length xs") (auto simp: seg_def)

lemma seg_take [seg_simps]:
  "j \<le> n \<Longrightarrow> seg i j (take n xs) = seg i j xs"
  by (simp add: seg_def drop_take min_def)

lemma seg_split:
  assumes "i \<le> k" "k \<le> j"
  shows "seg i j xs = seg i k xs @ seg k j xs"
proof -
  have "j - i = (k - i) + (j - k)" using assms by simp
  then show ?thesis
    using assms by (simp only: seg_def take_add drop_drop) simp
qed

lemma seg_drop [seg_simps]:
  "i \<le> j \<Longrightarrow> drop n (seg i j xs) = seg (i + n) j xs"
  by (simp add: seg_def drop_take add.commute)

lemma take_seg [seg_simps]:
  "i + n \<le> j \<Longrightarrow> take n (seg i j xs) = seg i (i + n) xs"
  by (simp add: seg_def min_def)

lemma seg_seg [seg_simps]:
  "b + j \<le> e \<Longrightarrow> seg i j (seg b e xs) = seg (b + i) (b + j) xs"
  by (simp add: seg_def drop_take min_def add.commute)

lemma seg_put_at_before [seg_simps]:
  "j \<le> i \<Longrightarrow> i \<le> length xs \<Longrightarrow> seg k j (put_at i ys xs) = seg k j xs"
  by (simp add: put_at_def seg_append_take seg_take)

lemma seg_put_at_self [seg_simps]:
  "i + length ys \<le> length xs \<Longrightarrow> seg i (i + length ys) (put_at i ys xs) = ys"
  by (simp add: put_at_def seg_def)

lemma seg_put_at_extend [seg_simps]:
  assumes "r \<le> w" "w + length ys \<le> length xs"
  shows "seg r (w + length ys) (put_at w ys xs) = seg r w xs @ ys"
proof -
  have "seg r (w + length ys) (put_at w ys xs)
    = seg r w (put_at w ys xs) @ seg w (w + length ys) (put_at w ys xs)"
    by (rule seg_split) (use assms in auto)
  then show ?thesis using assms by (simp add: seg_put_at_before seg_put_at_self)
qed

lemma seg_put_at_after [seg_simps]:
  assumes "i + length ys \<le> k" "i + length ys \<le> length xs"
  shows "seg k j (put_at i ys xs) = seg k j xs"
  using assms by (simp add: put_at_def seg_def)

lemma nth_upd: "xs[i := x] ! j = (if i = j \<and> j < length xs then x else xs ! j)"
  by (cases "i = j"; cases "j < length xs") (simp_all add: list_update_beyond)

section \<open>Machine words as indices\<close>

named_theorems idx_simps \<open>reading 64-bit index arithmetic as arithmetic on naturals\<close>

lemma unat_usize_less: "unat (x :: usize) < 2 ^ 64"
proof -
  have "unat x < 2 ^ LENGTH(64)" by (rule unsigned_less)
  then show ?thesis by simp
qed

lemma unat_of_nat_usize [idx_simps]:
  "n < 2 ^ 64 \<Longrightarrow> unat (of_nat n :: usize) = n"
  by (simp add: unat_of_nat)

lemma unat_add_usize [idx_simps]:
  "unat x + unat y < 2 ^ 64 \<Longrightarrow> unat (x + y :: usize) = unat x + unat y"
  by (simp add: unat_word_ariths)

lemma unat_sub_usize [idx_simps]:
  "y \<le> x \<Longrightarrow> unat (x - y :: usize) = unat x - unat y"
  by (rule unat_sub)

lemma unat_sub_wrap_usize:
  "x < y \<Longrightarrow> unat (x - y :: usize) = unat x + 2 ^ 64 - unat y"
  by (simp add: unat_sub_if' word_less_nat_alt)

lemma unat_usize_max [simp, idx_simps]: "unat (- 1 :: usize) = 2 ^ 64 - 1"
  by (simp add: unsigned_minus_1_eq_mask mask_eq_exp_minus_1)

lemma unat_suc_usize [idx_simps]:
  assumes "i < (n :: usize)"
  shows "unat (i + 1) = Suc (unat i)"
proof -
  have "unat i + 1 < 2 ^ 64"
    using assms unat_usize_less [of n] by (simp add: word_less_nat_alt)
  then show ?thesis by (subst unat_add_usize) simp_all
qed

lemma unat_pred_usize [idx_simps]:
  "i \<noteq> 0 \<Longrightarrow> unat (i - 1 :: usize) = unat i - 1"
  by (simp add: unat_minus_one)

section \<open>Bytes of an unsigned integer\<close>

primrec nat_bytes :: "nat \<Rightarrow> nat \<Rightarrow> bytes" where
  "nat_bytes 0 x = []"
| "nat_bytes (Suc n) x = of_nat x # nat_bytes n (x div 256)"

lemma nat_bytes_numeral [simp]:
  "nat_bytes (numeral n) x = of_nat x # nat_bytes (pred_numeral n) (x div 256)"
  by (simp only: numeral_eq_Suc [of n] nat_bytes.simps)

primrec bytes_nat :: "bytes \<Rightarrow> nat" where
  "bytes_nat [] = 0"
| "bytes_nat (b # bs) = unat b + 256 * bytes_nat bs"

lemma length_nat_bytes [simp]: "length (nat_bytes n x) = n"
  by (induction n arbitrary: x) simp_all

lemma unat_byte_less: "unat (b :: byte) < 256"
proof -
  have "unat b < 2 ^ LENGTH(8)" by (rule unsigned_less)
  then show ?thesis by simp
qed

lemma bytes_nat_bound: "bytes_nat bs < 256 ^ length bs"
proof (induction bs)
  case (Cons b bs)
  have "unat b < 256" by (rule unat_byte_less)
  with Cons show ?case by simp
qed simp

lemma unat_of_nat_byte: "unat (of_nat x :: byte) = x mod 256"
  by (simp add: unat_of_nat)

lemma bytes_nat_nat_bytes: "bytes_nat (nat_bytes n x) = x mod 256 ^ n"
proof (induction n arbitrary: x)
  case (Suc n)
  then show ?case
    by (simp add: unat_of_nat_byte mod_mult2_eq add.commute)
qed simp

lemma nat_bytes_bytes_nat: "nat_bytes (length bs) (bytes_nat bs) = bs"
proof (induction bs)
  case (Cons b bs)
  have b: "unat b < 256" by (rule unat_byte_less)
  have "of_nat (unat b + 256 * bytes_nat bs) = b"
    by (simp only: word_unat_eq_iff unat_of_nat) (simp add: b)
  then show ?case using Cons b by simp
qed simp

end
