(* ===== verification/Forward_List.thy ===== *)
theory Forward_List
  imports Kanon_Prelude
begin

text \<open>
  Model of the pointer level of \<^verbatim>\<open>kanon/algo/forward_list\<close>: the singly linked list with a header
  that also points to the last node (\<^verbatim>\<open>forward_list/algorithm.cc\<close>, \<^verbatim>\<open>node_def.h\<close>, the node
  operations of \<^verbatim>\<open>forward_list_impl.h\<close>). Headers and nodes are addresses in one explicit heap, so
  that aliasing is visible; \<^term>\<open>None\<close> is the null pointer.
\<close>

section \<open>Heap\<close>

record 'a fl_heap =
  fl_next :: "nat \<Rightarrow> nat option"
  fl_prev :: "nat \<Rightarrow> nat option"
  fl_count :: "nat \<Rightarrow> usize"
  fl_val :: "nat \<Rightarrow> 'a"

abbreviation set_next :: "nat \<Rightarrow> nat option \<Rightarrow> 'a fl_heap \<Rightarrow> 'a fl_heap" where
  "set_next p q h \<equiv> h\<lparr>fl_next := (fl_next h)(p := q)\<rparr>"

abbreviation set_prev :: "nat \<Rightarrow> nat option \<Rightarrow> 'a fl_heap \<Rightarrow> 'a fl_heap" where
  "set_prev p q h \<equiv> h\<lparr>fl_prev := (fl_prev h)(p := q)\<rparr>"

abbreviation set_count :: "nat \<Rightarrow> usize \<Rightarrow> 'a fl_heap \<Rightarrow> 'a fl_heap" where
  "set_count p n h \<equiv> h\<lparr>fl_count := (fl_count h)(p := n)\<rparr>"

section \<open>The node algorithms (\<open>forward_list_detail\<close>)\<close>

definition detail_push_front :: "nat \<Rightarrow> nat \<Rightarrow> 'a fl_heap \<Rightarrow> 'a fl_heap res" where
  "detail_push_front header new_node h =
     rbind (if fl_next h header = None
            then rbind (assertR (fl_prev h header = Some header))
                   (\<lambda>_. Inr (set_prev header (Some new_node) h))
            else Inr h) (\<lambda>h.
       let h = set_next new_node (fl_next h header) h in
       Inr (set_next header (Some new_node) h))"

definition detail_push_back :: "nat \<Rightarrow> nat \<Rightarrow> 'a fl_heap \<Rightarrow> 'a fl_heap res" where
  "detail_push_back header new_node h =
     rbind (if fl_prev h header \<noteq> Some header
            then (case fl_prev h header of
                None \<Rightarrow> Inl NullDeref
              | Some p \<Rightarrow> Inr (set_next p (Some new_node) h))
            else rbind (assertR (fl_prev h header = Some header)) (\<lambda>_.
                 rbind (assertR (fl_next h header = None)) (\<lambda>_.
                   Inr (set_next header (Some new_node) h)))) (\<lambda>h.
       Inr (set_prev header (Some new_node) h))"

definition detail_extract_front :: "nat \<Rightarrow> 'a fl_heap \<Rightarrow> (nat \<times> 'a fl_heap) res" where
  "detail_extract_front header h =
     (case fl_next h header of
        None \<Rightarrow> Inl AssertFail
      | Some ret \<Rightarrow>
          let h = set_next header (fl_next h ret) h;
              h = (if fl_next h header = None then set_prev header (Some header) h else h) in
          Inr (ret, set_next ret None h))"

definition detail_insert_after :: "nat \<Rightarrow> nat \<Rightarrow> nat \<Rightarrow> 'a fl_heap \<Rightarrow> 'a fl_heap" where
  "detail_insert_after header pos new_node h =
     (let h = (if Some pos = fl_prev h header then set_prev header (Some new_node) h else h);
          h = set_next new_node (fl_next h pos) h in
      set_next pos (Some new_node) h)"

definition detail_extract_after :: "nat \<Rightarrow> nat option \<Rightarrow> 'a fl_heap \<Rightarrow> (nat \<times> 'a fl_heap) res" where
  "detail_extract_after header pos h =
     (case pos of
        None \<Rightarrow> Inl AssertFail
      | Some pos \<Rightarrow>
          rbind (assertR (fl_next h header \<noteq> None)) (\<lambda>_.
            case fl_next h pos of
              None \<Rightarrow> Inl AssertFail
            | Some ret \<Rightarrow>
                let h = (if Some ret = fl_prev h header then set_prev header (Some pos) h else h);
                    h = set_next pos (fl_next h ret) h in
                Inr (ret, set_next ret None h)))"

definition detail_extract_range ::
  "nat \<Rightarrow> nat option \<Rightarrow> nat option \<Rightarrow> 'a fl_heap \<Rightarrow> (nat option \<times> 'a fl_heap) res" where
  "detail_extract_range header first lst h =
     (case first of
        None \<Rightarrow> Inl AssertFail
      | Some first \<Rightarrow>
          if fl_next h first \<noteq> lst then
            let h = (if lst = None then set_prev header (Some first) h else h);
                first_next = fl_next h first in
            Inr (first_next, set_next first lst h)
          else Inr (None, h))"

text \<open>The loop of \<open>reverse\<close>; \<open>None\<close> if it does not end.\<close>

partial_function (option) reverse_loop ::
  "nat option \<Rightarrow> nat option \<Rightarrow> (nat \<Rightarrow> nat option) \<Rightarrow> (nat \<Rightarrow> nat option) option" where
  "reverse_loop cur prev nx =
     (case cur of
        None \<Rightarrow> Some nx
      | Some c \<Rightarrow> reverse_loop (nx c) cur (nx(c := prev)))"

declare reverse_loop.simps [code]

definition detail_reverse :: "nat \<Rightarrow> 'a fl_heap \<Rightarrow> 'a fl_heap option" where
  "detail_reverse header h =
     (let cur = fl_next h header;
          h = set_next header (fl_prev h header) h;
          h = set_prev header cur h in
      map_option (\<lambda>nx. h\<lparr>fl_next := nx\<rparr>) (reverse_loop cur None (fl_next h)))"

section \<open>The list operations on nodes (\<open>ForwardList\<close>)\<close>

definition fl_reset :: "nat \<Rightarrow> 'a fl_heap \<Rightarrow> 'a fl_heap" where
  "fl_reset header h = set_count header 0 (set_next header None (set_prev header (Some header) h))"

definition fl_empty :: "nat \<Rightarrow> 'a fl_heap \<Rightarrow> bool res" where
  "fl_empty header h =
     rbind (assertR ((fl_count h header = 0) = (fl_next h header = None)))
       (\<lambda>_. Inr (fl_count h header = 0))"

definition fl_push_front :: "nat \<Rightarrow> nat \<Rightarrow> 'a fl_heap \<Rightarrow> 'a fl_heap res" where
  "fl_push_front header new_node h =
     rbind (detail_push_front header new_node h)
       (\<lambda>h. Inr (set_count header (fl_count h header + 1) h))"

definition fl_push_back :: "nat \<Rightarrow> nat \<Rightarrow> 'a fl_heap \<Rightarrow> 'a fl_heap res" where
  "fl_push_back header new_node h =
     rbind (detail_push_back header new_node h)
       (\<lambda>h. Inr (set_count header (fl_count h header + 1) h))"

definition fl_insert_after :: "nat \<Rightarrow> nat option \<Rightarrow> nat \<Rightarrow> 'a fl_heap \<Rightarrow> 'a fl_heap res" where
  "fl_insert_after header pos new_node h =
     (case pos of
        None \<Rightarrow> Inl NullDeref
      | Some pos \<Rightarrow>
          let h = detail_insert_after header pos new_node h in
          Inr (set_count header (fl_count h header + 1) h))"

definition fl_extract_front :: "nat \<Rightarrow> 'a fl_heap \<Rightarrow> (nat \<times> 'a fl_heap) res" where
  "fl_extract_front header h =
     detail_extract_front header (set_count header (fl_count h header - 1) h)"

definition fl_extract_after :: "nat \<Rightarrow> nat option \<Rightarrow> 'a fl_heap \<Rightarrow> (nat \<times> 'a fl_heap) res" where
  "fl_extract_after header pos h =
     detail_extract_after header pos (set_count header (fl_count h header - 1) h)"

text \<open>\<open>splice_after(pos, list)\<close>: the whole of \<open>list\<close> after \<open>pos\<close>.\<close>

definition fl_splice_all :: "nat \<Rightarrow> nat option \<Rightarrow> nat \<Rightarrow> 'a fl_heap \<Rightarrow> 'a fl_heap res" where
  "fl_splice_all header pos other h =
     rbind (fl_empty other h) (\<lambda>e.
       if e then Inr h
       else (case pos of
           None \<Rightarrow> Inl NullDeref
         | Some pos \<Rightarrow>
             let old_next = fl_next h pos;
                 h = (if Some pos = fl_prev h header then set_prev header (fl_prev h other) h else h);
                 h = set_next pos (fl_next h other) h in
             (case fl_prev h other of
                None \<Rightarrow> Inl NullDeref
              | Some before_end \<Rightarrow>
                  let h = set_next before_end old_next h;
                      h = set_count header (fl_count h header + fl_count h other) h;
                      h = fl_reset other h in
                  rbind (fl_empty other h) (\<lambda>e. rbind (assertR e) (\<lambda>_. Inr h)))))"

text \<open>\<open>splice_after(pos, list, first, last)\<close>: the nodes of the open range, one by one, always
  after the same position. Fuel bounds the number of nodes moved.\<close>

fun fl_splice_range ::
  "nat \<Rightarrow> nat \<Rightarrow> nat option \<Rightarrow> nat \<Rightarrow> nat \<Rightarrow> nat option \<Rightarrow> 'a fl_heap \<Rightarrow> 'a fl_heap res option" where
  "fl_splice_range 0 header pos other first lst h =
     (if fl_next h first \<noteq> lst then None else Some (Inr h))"
| "fl_splice_range (Suc n) header pos other first lst h =
     (if fl_next h first \<noteq> lst then
        (case fl_extract_after other (Some first) h of
           Inl e \<Rightarrow> Some (Inl e)
         | Inr (node, h) \<Rightarrow>
             (case fl_insert_after header pos node h of
                Inl e \<Rightarrow> Some (Inl e)
              | Inr h \<Rightarrow> fl_splice_range n header pos other first lst h))
      else Some (Inr h))"

definition fl_reverse :: "nat \<Rightarrow> 'a fl_heap \<Rightarrow> 'a fl_heap res option" where
  "fl_reverse header h =
     (if fl_count h header < 2 then Some (Inr h)
      else if fl_count h header = 2 then
        Some (rbind (fl_extract_front header h) (\<lambda>(node, h). fl_push_back header node h))
      else map_option Inr (detail_reverse header h))"

definition fl_swap :: "nat \<Rightarrow> nat \<Rightarrow> 'a fl_heap \<Rightarrow> 'a fl_heap" where
  "fl_swap header other h =
     (let c = fl_count h header;
          h = set_count other c (set_count header (fl_count h other) h);
          n = fl_next h header;
          h = set_next other n (set_next header (fl_next h other) h);
          old_header_prev = fl_prev h header;
          h = set_prev header (if fl_count h header = 0 then Some header else fl_prev h other) h in
      set_prev other (if fl_count h other = 0 then Some other else old_header_prev) h)"

definition fl_front :: "nat \<Rightarrow> 'a fl_heap \<Rightarrow> 'a res" where
  "fl_front header h =
     rbind (fl_empty header h) (\<lambda>e. rbind (assertR (\<not> e)) (\<lambda>_.
       case fl_next h header of None \<Rightarrow> Inl NullDeref | Some n \<Rightarrow> Inr (fl_val h n)))"

definition fl_back :: "nat \<Rightarrow> 'a fl_heap \<Rightarrow> 'a res" where
  "fl_back header h =
     rbind (fl_empty header h) (\<lambda>e. rbind (assertR (\<not> e)) (\<lambda>_.
       case fl_prev h header of None \<Rightarrow> Inl NullDeref | Some n \<Rightarrow> Inr (fl_val h n)))"

section \<open>The represented list\<close>

fun chain :: "(nat \<Rightarrow> nat option) \<Rightarrow> nat \<Rightarrow> nat list \<Rightarrow> bool" where
  "chain nx p [] \<longleftrightarrow> nx p = None"
| "chain nx p (q # qs) \<longleftrightarrow> nx p = Some q \<and> chain nx q qs"

definition fl_rep :: "'a fl_heap \<Rightarrow> nat \<Rightarrow> nat list \<Rightarrow> bool" where
  "fl_rep h hdr ns \<longleftrightarrow> chain (fl_next h) hdr ns \<and> distinct (hdr # ns) \<and>
     fl_prev h hdr = Some (last (hdr # ns)) \<and> fl_count h hdr = of_nat (length ns) \<and> length ns < 2 ^ 63"

definition fl_values :: "'a fl_heap \<Rightarrow> nat list \<Rightarrow> 'a list" where
  "fl_values h ns = map (fl_val h) ns"

lemma chain_update [simp]:
  "x \<notin> set (p # qs) \<Longrightarrow> chain (nx(x := v)) p qs = chain nx p qs"
  by (induction qs arbitrary: p) auto

lemma chain_cong:
  "(\<And>x. x \<in> set (p # qs) \<Longrightarrow> nx x = ny x) \<Longrightarrow> chain nx p qs = chain ny p qs"
  by (induction qs arbitrary: p) auto

lemma chain_last: "chain nx p qs \<Longrightarrow> nx (last (p # qs)) = None"
  by (induction qs arbitrary: p) auto

text \<open>A segment: like a chain, without a condition on the last node's successor.\<close>

fun lseg :: "(nat \<Rightarrow> nat option) \<Rightarrow> nat \<Rightarrow> nat list \<Rightarrow> bool" where
  "lseg nx p [] \<longleftrightarrow> True"
| "lseg nx p (q # qs) \<longleftrightarrow> nx p = Some q \<and> lseg nx q qs"

lemma chain_app: "chain nx p (xs @ ys) \<longleftrightarrow> lseg nx p xs \<and> chain nx (last (p # xs)) ys"
  by (induction xs arbitrary: p) auto

lemma lseg_update:
  "x \<notin> set (butlast (p # xs)) \<Longrightarrow> lseg (nx(x := v)) p xs = lseg nx p xs"
  by (induction xs arbitrary: p) auto

lemma last_notin_butlast: "distinct xs \<Longrightarrow> xs \<noteq> [] \<Longrightarrow> last xs \<notin> set (butlast xs)"
  by (metis append_butlast_last_id distinct_append disjoint_iff list.set_intros(1))

lemma notin_butlast: "x \<notin> set xs \<Longrightarrow> x \<notin> set (butlast xs)"
  by (auto dest: in_set_butlastD)

lemma last_in: "last (p # xs) \<in> set (p # xs)"
  by simp

text \<open>Only the successor of the start and the successors of the nodes matter.\<close>

lemma chain_retarget:
  assumes "ny q = nx p" "\<And>x. x \<in> set xs \<Longrightarrow> ny x = nx x"
  shows "chain ny q xs = chain nx p xs"
  using assms chain_cong [of _ _ nx ny] by (cases xs) auto

text \<open>An operation touches only these headers and these nodes, and no values.\<close>

definition fl_only :: "nat set \<Rightarrow> nat set \<Rightarrow> 'a fl_heap \<Rightarrow> 'a fl_heap \<Rightarrow> bool" where
  "fl_only H N h h' \<longleftrightarrow> fl_val h' = fl_val h \<and> (\<forall>x. x \<notin> H \<union> N \<longrightarrow> fl_next h' x = fl_next h x) \<and>
     (\<forall>x. x \<notin> H \<longrightarrow> fl_prev h' x = fl_prev h x \<and> fl_count h' x = fl_count h x)"

lemma fl_only_rep:
  assumes "fl_only H N h h'" "fl_rep h p ps" "set (p # ps) \<inter> (H \<union> N) = {}"
  shows "fl_rep h' p ps"
  using assms chain_cong [of p ps "fl_next h'" "fl_next h"]
  by (auto simp: fl_rep_def fl_only_def disjoint_iff)

lemma fl_only_values: "fl_only H N h h' \<Longrightarrow> fl_values h' ns = fl_values h ns"
  by (simp add: fl_only_def fl_values_def)

lemma fl_rep_empty_iff: "fl_rep h hdr ns \<Longrightarrow> fl_empty hdr h = Inr (ns = [])"
proof -
  assume r: "fl_rep h hdr ns"
  have "(of_nat (length ns) :: usize) = 0 \<longleftrightarrow> ns = []"
    using r unat_of_nat_usize [of "length ns"] by (auto simp: fl_rep_def word_unat_eq_iff)
  then show ?thesis using r by (cases ns) (auto simp: fl_rep_def fl_empty_def)
qed

lemma fl_reset_rep: "fl_rep (fl_reset hdr h) hdr []"
  by (simp add: fl_rep_def fl_reset_def)

lemma fl_empty_reset [simp]: "fl_empty hdr (fl_reset hdr h) = Inr True"
  using fl_rep_empty_iff [OF fl_reset_rep] by simp

section \<open>The node operations on the represented list\<close>

lemma fl_push_front_ok:
  assumes "fl_rep h hdr ns" "n \<notin> set (hdr # ns)" "length ns + 1 < 2 ^ 63"
  shows "\<exists>h'. fl_push_front hdr n h = Inr h' \<and> fl_rep h' hdr (n # ns) \<and> fl_only {hdr} {n} h h'"
  using assms
  by (cases ns) (auto simp: fl_push_front_def detail_push_front_def fl_rep_def fl_only_def Let_def)

lemma fl_push_back_ok:
  assumes r: "fl_rep h hdr ns" and n: "n \<notin> set (hdr # ns)" "fl_next h n = None"
    and len: "length ns + 1 < 2 ^ 63"
  shows "\<exists>h'. fl_push_back hdr n h = Inr h' \<and> fl_rep h' hdr (ns @ [n]) \<and>
    fl_only {hdr} (insert n (set ns)) h h'"
proof (cases "ns = []")
  case True
  then show ?thesis
    using assms by (auto simp: fl_push_back_def detail_push_back_def fl_rep_def fl_only_def)
next
  case False
  have d: "distinct (hdr # ns)" and c: "chain (fl_next h) hdr ns" using r by (auto simp: fl_rep_def)
  let ?l = "last ns" and ?nx = "(fl_next h)(last ns := Some n)"
  have l: "?l \<noteq> hdr" "?l \<in> set ns" using d False by auto
  have "lseg ?nx hdr ns"
    using c d False chain_app [of "fl_next h" hdr ns "[]"] last_notin_butlast [of "hdr # ns"]
    by (simp add: lseg_update)
  then have "chain ?nx hdr (ns @ [n])"
    using n False l by (auto simp: chain_app)
  then show ?thesis
    using assms False l
    by (auto simp: fl_push_back_def detail_push_back_def fl_rep_def fl_only_def)
qed

lemma fl_extract_front_ok:
  assumes "fl_rep h hdr (n # ns)"
  shows "\<exists>h'. fl_extract_front hdr h = Inr (n, h') \<and> fl_rep h' hdr ns \<and> fl_next h' n = None \<and>
    fl_only {hdr} {n} h h'"
proof -
  have "chain ((fl_next h)(hdr := fl_next h n, n := None)) hdr ns = chain (fl_next h) n ns"
    using assms by (intro chain_retarget) (auto simp: fl_rep_def)
  then show ?thesis
    using assms by (cases ns)
      (auto simp: fl_extract_front_def detail_extract_front_def fl_rep_def fl_only_def Let_def)
qed

lemma fl_extract_front_empty: "fl_rep h hdr [] \<Longrightarrow> fl_extract_front hdr h = Inl AssertFail"
  by (simp add: fl_extract_front_def detail_extract_front_def fl_rep_def)

lemma fl_insert_after_ok:
  assumes r: "fl_rep h hdr (xs @ ys)" and n: "n \<notin> set (hdr # xs @ ys)"
    and len: "length (xs @ ys) + 1 < 2 ^ 63"
  shows "\<exists>h'. fl_insert_after hdr (Some (last (hdr # xs))) n h = Inr h' \<and>
    fl_rep h' hdr (xs @ n # ys) \<and> fl_only {hdr} (insert n (set (xs @ ys))) h h'"
proof -
  let ?p = "last (hdr # xs)"
  let ?nx = "(fl_next h)(n := fl_next h ?p, ?p := Some n)"
  have d: "distinct (hdr # xs @ ys)" and c: "chain (fl_next h) hdr (xs @ ys)"
    using r by (auto simp: fl_rep_def)
  have p: "?p \<in> set (hdr # xs)" by (rule last_in)
  then have pn: "?p \<noteq> n" and py: "?p \<notin> set ys" using n d by auto
  have nb: "?p \<notin> set (butlast (hdr # xs))" "n \<notin> set (butlast (hdr # xs))"
    using d n last_notin_butlast [of "hdr # xs"] notin_butlast [of n "hdr # xs"] by auto
  have "lseg ?nx hdr xs"
    unfolding lseg_update [OF nb(1)] lseg_update [OF nb(2)] using c by (simp add: chain_app)
  moreover have "chain ?nx n ys = chain (fl_next h) ?p ys"
    using n pn py by (intro chain_retarget) auto
  ultimately have ch: "chain ?nx hdr (xs @ n # ys)"
    using c pn by (simp add: chain_app)
  have "Some ?p = fl_prev h hdr \<longleftrightarrow> ys = []"
    using r d p by (cases "ys = []") (auto simp: fl_rep_def)
  then show ?thesis
    using r n len ch p d
    by (auto simp: fl_insert_after_def detail_insert_after_def Let_def fl_rep_def fl_only_def)
qed

lemma fl_extract_after_ok:
  assumes r: "fl_rep h hdr (xs @ n # ys)"
  shows "\<exists>h'. fl_extract_after hdr (Some (last (hdr # xs))) h = Inr (n, h') \<and>
    fl_rep h' hdr (xs @ ys) \<and> fl_next h' n = None \<and>
    fl_only {hdr} (set (xs @ n # ys)) h h'"
proof -
  let ?p = "last (hdr # xs)"
  let ?nx = "(fl_next h)(?p := fl_next h n, n := None)"
  have d: "distinct (hdr # xs @ n # ys)" and c: "chain (fl_next h) hdr (xs @ n # ys)"
    using r by (auto simp: fl_rep_def)
  have p: "?p \<in> set (hdr # xs)" by (rule last_in)
  then have pn: "?p \<noteq> n" and py: "?p \<notin> set ys" using d by auto
  have nxp: "fl_next h ?p = Some n" using c by (simp add: chain_app)
  have nb: "?p \<notin> set (butlast (hdr # xs))" "n \<notin> set (butlast (hdr # xs))"
    using d last_notin_butlast [of "hdr # xs"] notin_butlast [of n "hdr # xs"] by auto
  have "lseg ?nx hdr xs"
    unfolding lseg_update [OF nb(2)] lseg_update [OF nb(1)] using c by (simp add: chain_app)
  moreover have "chain ?nx ?p ys = chain (fl_next h) n ys"
    using d pn py by (intro chain_retarget) auto
  ultimately have ch: "chain ?nx hdr (xs @ ys)" using c by (simp add: chain_app)
  have ne: "fl_next h hdr \<noteq> None" using c by (cases xs) auto
  have last: "Some n = fl_prev h hdr \<longleftrightarrow> ys = []"
    using r d by (cases "ys = []") (auto simp: fl_rep_def)
  show ?thesis
    using r nxp ne ch last d p
    by (auto simp: fl_extract_after_def detail_extract_after_def Let_def fl_rep_def fl_only_def)
qed

subsection \<open>Splicing\<close>

lemma fl_splice_all_ok:
  assumes r: "fl_rep h hdr (xs @ ys)" and o: "fl_rep h oth ms"
    and dj: "set (hdr # xs @ ys) \<inter> set (oth # ms) = {}"
    and len: "length (xs @ ys) + length ms < 2 ^ 63"
  shows "\<exists>h'. fl_splice_all hdr (Some (last (hdr # xs))) oth h = Inr h' \<and>
    fl_rep h' hdr (xs @ ms @ ys) \<and> fl_rep h' oth [] \<and>
    fl_only {hdr, oth} (set (xs @ ys @ ms)) h h'"
proof (cases ms)
  case Nil
  then show ?thesis
    using r o fl_rep_empty_iff [OF o] by (simp add: fl_splice_all_def fl_only_def)
next
  case (Cons m ms')
  define p where "p = last (hdr # xs)"
  define l where "l = last ms"
  let ?nx = "(fl_next h)(p := Some m, l := fl_next h p, oth := None)"
  have d: "distinct (hdr # xs @ ys)" and c: "lseg (fl_next h) hdr xs" "chain (fl_next h) p ys"
    and pv: "fl_prev h hdr = Some (last (hdr # xs @ ys))"
    using r by (auto simp: fl_rep_def chain_app p_def)
  have dm: "distinct (oth # ms)" and nxo: "fl_next h oth = Some m" and cm: "lseg (fl_next h) m ms'"
    and po: "fl_prev h oth = Some l"
    using o Cons chain_app [of "fl_next h" m ms' "[]"] by (auto simp: fl_rep_def l_def)
  have p: "p \<in> set (hdr # xs)" unfolding p_def by (rule last_in)
  have l: "l \<in> set ms" using Cons by (simp add: l_def)
  have ne: "p \<noteq> l" "p \<noteq> oth" "l \<noteq> oth" "p \<notin> set ys" "p \<notin> set ms" "l \<notin> set ys" "oth \<notin> set ys"
    "l \<notin> set (hdr # xs)" "oth \<notin> set (hdr # xs)" "hdr \<noteq> oth"
    using p l dj d dm by auto
  have nb: "p \<notin> set (butlast (hdr # xs))"
    unfolding p_def by (rule last_notin_butlast) (use d in auto)
  have nm: "l \<notin> set (butlast (m # ms'))"
    unfolding l_def Cons by (rule last_notin_butlast) (use dm Cons in auto)
  have no: "oth \<notin> set (butlast (m # ms'))" "p \<notin> set (butlast (m # ms'))"
    using dm ne(5) Cons by (auto dest: in_set_butlastD)
  have "lseg ?nx hdr xs"
    unfolding lseg_update [OF notin_butlast [OF ne(9)]] lseg_update [OF notin_butlast [OF ne(8)]]
      lseg_update [OF nb] by (rule c(1))
  moreover have "lseg ?nx m ms'"
    unfolding lseg_update [OF no(1)] lseg_update [OF nm] lseg_update [OF no(2)] by (rule cm)
  moreover have "chain ?nx l ys = chain (fl_next h) p ys"
    by (rule chain_retarget) (use ne in auto)
  moreover have "?nx p = Some m" using ne by simp
  moreover have "last (m # ms') = l" using Cons by (simp add: l_def)
  ultimately have ch: "chain ?nx hdr (xs @ ms @ ys)"
    using c(2) unfolding Cons append_Cons chain_app [of _ hdr xs] p_def [symmetric] chain.simps
      chain_app [of _ m ms'] by metis
  have pe: "Some p = fl_prev h hdr \<longleftrightarrow> ys = []"
    using pv p d by (cases "ys = []") (auto simp: p_def)
  have lst: "last (hdr # xs @ ms @ ys) = (if ys = [] then l else last (hdr # xs @ ys))"
    using Cons by (auto simp: l_def)
  let ?h = "fl_reset oth (set_count hdr (fl_count h hdr + fl_count h oth)
     (set_next l (fl_next h p) (set_next p (Some m)
       (if Some p = fl_prev h hdr then set_prev hdr (fl_prev h oth) h else h))))"
  have run: "fl_splice_all hdr (Some p) oth h = Inr ?h"
    using fl_rep_empty_iff [OF o] Cons po nxo ne(2,10)
    by (simp add: fl_splice_all_def Let_def)
  have "fl_next ?h = ?nx" by (simp add: fl_reset_def)
  moreover have "fl_prev ?h hdr = Some (last (hdr # xs @ ms @ ys))"
    using pe lst pv po ne(10) by (simp add: fl_reset_def)
  moreover have "fl_count ?h hdr = of_nat (length (xs @ ms @ ys))"
    using r o ne(10) by (simp add: fl_reset_def fl_rep_def)
  moreover have "distinct (hdr # xs @ ms @ ys)" using d dm dj by auto
  ultimately have "fl_rep ?h hdr (xs @ ms @ ys)"
    using ch len by (simp add: fl_rep_def)
  moreover have "fl_only {hdr, oth} (set (xs @ ys @ ms)) h ?h"
    using p l by (auto simp: fl_only_def fl_reset_def)
  ultimately show ?thesis using run fl_reset_rep unfolding p_def by blast
qed

lemma fl_splice_all_end:
  "fl_rep h oth ms \<Longrightarrow> fl_splice_all hdr None oth h = (if ms = [] then Inr h else Inl NullDeref)"
  by (simp add: fl_splice_all_def fl_rep_empty_iff)

text \<open>The first node of a list, or the null pointer.\<close>

abbreviation first_of :: "nat list \<Rightarrow> nat option" where
  "first_of xs \<equiv> (case xs of [] \<Rightarrow> None | x # _ \<Rightarrow> Some x)"

lemma chain_next: "chain nx p xs \<Longrightarrow> nx p = first_of xs"
  by (cases xs) auto

lemma fl_splice_range_ok:
  assumes "fl_rep h hdr (xs @ ys)" "fl_rep h oth (as @ ms @ bs)"
    and "set (hdr # xs @ ys) \<inter> set (oth # as @ ms @ bs) = {}"
    and "length (xs @ ys) + length ms < 2 ^ 63" "length ms \<le> fuel"
  shows "\<exists>h'. fl_splice_range fuel hdr (Some (last (hdr # xs))) oth (last (oth # as)) (first_of bs) h
      = Some (Inr h') \<and> fl_rep h' hdr (xs @ rev ms @ ys) \<and> fl_rep h' oth (as @ bs) \<and>
    fl_val h' = fl_val h"
  using assms
proof (induction fuel arbitrary: h ms ys)
  case 0
  then have "fl_next h (last (oth # as)) = first_of bs"
    by (auto simp: fl_rep_def chain_app dest: chain_next)
  then show ?case using 0 by simp
next
  case (Suc fuel)
  show ?case
  proof (cases ms)
    case Nil
    then have "fl_next h (last (oth # as)) = first_of bs"
      using Suc.prems(2) by (auto simp: fl_rep_def chain_app dest: chain_next)
    then show ?thesis using Suc.prems Nil by simp
  next
    case (Cons m ms')
    have nx: "fl_next h (last (oth # as)) = Some m"
      using Suc.prems(2) Cons by (simp add: fl_rep_def chain_app)
    have "first_of bs \<noteq> Some m"
      using Suc.prems(2) Cons by (cases bs) (auto simp: fl_rep_def)
    with nx have more: "fl_next h (last (oth # as)) \<noteq> first_of bs" by metis
    obtain h1 where h1: "fl_extract_after oth (Some (last (oth # as))) h = Inr (m, h1)"
        "fl_rep h1 oth (as @ ms' @ bs)" "fl_only {oth} (set (as @ m # ms' @ bs)) h h1"
      using fl_extract_after_ok [of h oth as m "ms' @ bs"] Suc.prems(2) Cons by auto
    have r1: "fl_rep h1 hdr (xs @ ys)"
      by (rule fl_only_rep [OF h1(3) Suc.prems(1)]) (use Suc.prems(3) Cons in auto)
    obtain h2 where h2: "fl_insert_after hdr (Some (last (hdr # xs))) m h1 = Inr h2"
        "fl_rep h2 hdr (xs @ m # ys)" "fl_only {hdr} (insert m (set (xs @ ys))) h1 h2"
      using fl_insert_after_ok [OF r1, of m] Suc.prems(3,4) Cons by auto
    have o2: "fl_rep h2 oth (as @ ms' @ bs)"
      by (rule fl_only_rep [OF h2(3) h1(2)])
         (use Suc.prems(2,3) Cons in \<open>auto simp: fl_rep_def\<close>)
    have "\<exists>h'. fl_splice_range fuel hdr (Some (last (hdr # xs))) oth (last (oth # as)) (first_of bs) h2
      = Some (Inr h') \<and> fl_rep h' hdr (xs @ rev ms' @ m # ys) \<and> fl_rep h' oth (as @ bs) \<and>
      fl_val h' = fl_val h2"
      using Suc.IH [OF h2(2) o2] Suc.prems(2,3,4,5) Cons by (auto simp: fl_rep_def)
    then show ?thesis
      using more h1(1,3) h2(1,3) Cons by (auto simp: fl_only_def split: option.splits)
  qed
qed

subsection \<open>Reversing\<close>

fun ochain :: "(nat \<Rightarrow> nat option) \<Rightarrow> nat option \<Rightarrow> nat list \<Rightarrow> bool" where
  "ochain nx st [] \<longleftrightarrow> st = None"
| "ochain nx st (x # xs) \<longleftrightarrow> st = Some x \<and> ochain nx (nx x) xs"

lemma chain_ochain: "chain nx p xs \<longleftrightarrow> ochain nx (nx p) xs"
  by (induction xs arbitrary: p) auto

lemma ochain_update [simp]: "x \<notin> set xs \<Longrightarrow> ochain (nx(x := v)) st xs = ochain nx st xs"
  by (induction xs arbitrary: st) auto

lemma reverse_loop_ok:
  assumes "ochain nx cur cs" "ochain nx prev ps" "distinct (cs @ ps)"
  shows "\<exists>ny. reverse_loop cur prev nx = Some ny \<and> ochain ny (first_of (rev cs @ ps)) (rev cs @ ps) \<and>
    (\<forall>x. x \<notin> set cs \<longrightarrow> ny x = nx x)"
  using assms
proof (induction cs arbitrary: cur prev ps nx)
  case Nil
  then show ?case by (cases ps) (simp_all add: reverse_loop.simps)
next
  case (Cons c cs)
  let ?nx = "nx(c := prev)"
  have "ochain ?nx (nx c) cs" "ochain ?nx (Some c) (c # ps)" "distinct (cs @ c # ps)"
    using Cons.prems by auto
  from Cons.IH [OF this] obtain ny where ny: "reverse_loop (nx c) (Some c) ?nx = Some ny"
    "ochain ny (first_of (rev cs @ c # ps)) (rev cs @ c # ps)"
    "\<forall>x. x \<notin> set cs \<longrightarrow> ny x = ?nx x" by blast
  moreover have "reverse_loop cur prev nx = Some ny"
    using ny(1) Cons.prems(1) by (subst reverse_loop.simps) simp
  ultimately show ?case by auto
qed

lemma first_of_rev: "xs \<noteq> [] \<Longrightarrow> first_of (rev xs) = Some (last xs)"
  by (cases xs rule: rev_cases) auto

lemma detail_reverse_ok:
  assumes r: "fl_rep h hdr ns" and ne: "ns \<noteq> []"
  shows "\<exists>h'. detail_reverse hdr h = Some h' \<and> fl_rep h' hdr (rev ns) \<and> fl_only {hdr} (set ns) h h'"
proof -
  let ?nx = "(fl_next h)(hdr := Some (last ns))"
  have d: "distinct (hdr # ns)" and c: "chain (fl_next h) hdr ns"
    and pv: "fl_prev h hdr = Some (last ns)"
    using r ne by (auto simp: fl_rep_def)
  have "ochain ?nx (fl_next h hdr) ns" using c d by (simp add: chain_ochain)
  then obtain ny where ny: "reverse_loop (fl_next h hdr) None ?nx = Some ny"
      "ochain ny (first_of (rev ns)) (rev ns)" "\<forall>x. x \<notin> set ns \<longrightarrow> ny x = ?nx x"
    using reverse_loop_ok [of ?nx "fl_next h hdr" ns None "[]"] d by auto
  have hn: "ny hdr = Some (last ns)" using ny(3) d by auto
  have "chain ny hdr (rev ns)"
    using ny(2) hn ne by (simp add: chain_ochain first_of_rev)
  moreover have "fl_next h hdr = Some (last (hdr # rev ns))"
    using c ne by (cases ns) auto
  ultimately show ?thesis
    using r ny pv by (auto simp: detail_reverse_def Let_def fl_rep_def fl_only_def)
qed

lemma fl_reverse_ok:
  assumes r: "fl_rep h hdr ns"
  shows "\<exists>h'. fl_reverse hdr h = Some (Inr h') \<and> fl_rep h' hdr (rev ns) \<and> fl_only {hdr} (set ns) h h'"
proof -
  have cnt: "unat (fl_count h hdr) = length ns"
    using r by (simp add: fl_rep_def idx_simps)
  have two: "\<exists>a b. ns = [a, b]" if "length ns = 2"
    using that by (auto simp: numeral_2_eq_2 length_Suc_conv)
  consider "length ns < 2" | a b where "ns = [a, b]" | "2 < length ns"
    using two by (meson linorder_neqE_nat)
  then show ?thesis
  proof cases
    case 1
    then have "rev ns = ns" by (cases ns) auto
    then show ?thesis
      using 1 r cnt by (simp add: fl_reverse_def word_less_nat_alt fl_only_def)
  next
    case (2 a b)
    obtain h1 where h1: "fl_extract_front hdr h = Inr (a, h1)" "fl_rep h1 hdr [b]"
        "fl_next h1 a = None" "fl_only {hdr} {a} h h1"
      using fl_extract_front_ok [of h hdr a "[b]"] r 2 by auto
    obtain h2 where h2: "fl_push_back hdr a h1 = Inr h2" "fl_rep h2 hdr [b, a]"
        "fl_only {hdr} {a, b} h1 h2"
      using fl_push_back_ok [OF h1(2), of a] r 2 h1(3) by (auto simp: fl_rep_def insert_commute)
    have "fl_count h hdr = 2" using cnt 2 by (simp add: word_unat_eq_iff)
    then show ?thesis
      using h1 h2 2 by (auto simp: fl_reverse_def fl_only_def)
  next
    case 3
    then have "\<not> fl_count h hdr < 2" "fl_count h hdr \<noteq> 2" "ns \<noteq> []"
      using cnt by (auto simp: word_less_nat_alt)
    then show ?thesis
      using detail_reverse_ok [OF r] by (auto simp: fl_reverse_def)
  qed
qed

subsection \<open>Exchanging two lists\<close>

lemma fl_swap_ok:
  assumes a: "fl_rep h p ps" and b: "fl_rep h q qs" and dj: "set (p # ps) \<inter> set (q # qs) = {}"
  shows "fl_rep (fl_swap p q h) p qs" and "fl_rep (fl_swap p q h) q ps"
    and "fl_only {p, q} {} h (fl_swap p q h)"
proof -
  have pq: "p \<noteq> q" using dj by auto
  let ?h = "fl_swap p q h"
  have nx: "fl_next ?h = (fl_next h)(p := fl_next h q, q := fl_next h p)"
    using pq by (simp add: fl_swap_def Let_def)
  have cnt: "fl_count ?h = (fl_count h)(p := fl_count h q, q := fl_count h p)"
    using pq by (simp add: fl_swap_def Let_def)
  have z: "(of_nat (length xs) :: usize) = 0 \<longleftrightarrow> xs = []" if "length xs < 2 ^ 63" for xs :: "nat list"
    using that unat_of_nat_usize [of "length xs"] by (auto simp: word_unat_eq_iff)
  have lens: "length ps < 2 ^ 63" "length qs < 2 ^ 63" using a b by (auto simp: fl_rep_def)
  have pvp: "fl_prev ?h p = Some (last (p # qs))" and pvq: "fl_prev ?h q = Some (last (q # ps))"
    using a b pq z [OF lens(1)] z [OF lens(2)] by (auto simp: fl_swap_def Let_def fl_rep_def)
  have "chain (fl_next ?h) p qs = chain (fl_next h) q qs"
    unfolding nx using dj b pq by (intro chain_retarget) (auto simp: fl_rep_def)
  then show "fl_rep ?h p qs" using b pvp cnt dj by (auto simp: fl_rep_def)
  have "chain (fl_next ?h) q ps = chain (fl_next h) p ps"
    unfolding nx using dj a pq by (intro chain_retarget) (auto simp: fl_rep_def)
  then show "fl_rep ?h q ps" using a pvq cnt dj pq by (auto simp: fl_rep_def)
  show "fl_only {p, q} {} h ?h"
    by (simp add: fl_only_def fl_swap_def Let_def)
qed

section \<open>Sequences of operations\<close>

text \<open>\<open>zstl::advance_iter(before_begin(), k)\<close>: the node (or the header) at position \<open>k\<close>.\<close>

fun fl_walk :: "nat \<Rightarrow> nat \<Rightarrow> 'a fl_heap \<Rightarrow> nat option" where
  "fl_walk 0 p h = Some p"
| "fl_walk (Suc k) p h = (case fl_next h p of None \<Rightarrow> None | Some q \<Rightarrow> fl_walk k q h)"

lemma fl_walk_chain:
  "chain (fl_next h) p ns \<Longrightarrow> k \<le> length ns \<Longrightarrow> fl_walk k p h = Some (last (p # take k ns))"
proof (induction k arbitrary: p ns)
  case (Suc k)
  then show ?case by (cases ns) auto
qed simp

datatype fl_op = FPushFront nat | FPushBack nat | FInsertAfter nat nat | FExtractFront | FExtractAfter nat

text \<open>On nodes: the list in order, and the detached nodes its owner holds.\<close>

fun abs_step :: "fl_op \<Rightarrow> nat list \<times> nat list \<Rightarrow> (nat list \<times> nat list) option" where
  "abs_step (FPushFront n) (ns, fs) = (if n \<in> set fs then Some (n # ns, remove1 n fs) else None)"
| "abs_step (FPushBack n) (ns, fs) = (if n \<in> set fs then Some (ns @ [n], remove1 n fs) else None)"
| "abs_step (FInsertAfter k n) (ns, fs) =
     (if n \<in> set fs \<and> k \<le> length ns then Some (take k ns @ n # drop k ns, remove1 n fs) else None)"
| "abs_step FExtractFront (ns, fs) = (case ns of [] \<Rightarrow> None | n # ns \<Rightarrow> Some (ns, n # fs))"
| "abs_step (FExtractAfter k) (ns, fs) =
     (if k < length ns then Some (take k ns @ drop (Suc k) ns, ns ! k # fs) else None)"

fun abs_run :: "fl_op list \<Rightarrow> nat list \<times> nat list \<Rightarrow> (nat list \<times> nat list) option" where
  "abs_run [] s = Some s"
| "abs_run (c # cs) s = Option.bind (abs_step c s) (abs_run cs)"

fun fl_exec :: "nat \<Rightarrow> fl_op \<Rightarrow> 'a fl_heap \<Rightarrow> 'a fl_heap res" where
  "fl_exec hdr (FPushFront n) h = fl_push_front hdr n h"
| "fl_exec hdr (FPushBack n) h = fl_push_back hdr n h"
| "fl_exec hdr (FInsertAfter k n) h = fl_insert_after hdr (fl_walk k hdr h) n h"
| "fl_exec hdr FExtractFront h = rbind (fl_extract_front hdr h) (\<lambda>(n, h). Inr h)"
| "fl_exec hdr (FExtractAfter k) h = rbind (fl_extract_after hdr (fl_walk k hdr h) h) (\<lambda>(n, h). Inr h)"

fun fl_run :: "nat \<Rightarrow> fl_op list \<Rightarrow> 'a fl_heap \<Rightarrow> 'a fl_heap res" where
  "fl_run hdr [] h = Inr h"
| "fl_run hdr (c # cs) h = rbind (fl_exec hdr c h) (fl_run hdr cs)"

definition fl_inv :: "'a fl_heap \<Rightarrow> nat \<Rightarrow> nat list \<times> nat list \<Rightarrow> bool" where
  "fl_inv h hdr s \<longleftrightarrow> fl_rep h hdr (fst s) \<and> distinct (hdr # fst s @ snd s) \<and>
     (\<forall>f\<in>set (snd s). fl_next h f = None) \<and> length (fst s @ snd s) + 1 < 2 ^ 63"

lemma fl_inv_attach:
  assumes inv: "fl_inv h hdr (ns, fs)" and n: "n \<in> set fs" and rep: "fl_rep h' hdr (xs @ n # ys)"
    and only: "fl_only {hdr} (insert n (set ns)) h h'" and ns: "ns = xs @ ys"
  shows "fl_inv h' hdr (xs @ n # ys, remove1 n fs) \<and> fl_val h' = fl_val h"
proof -
  have d: "distinct (hdr # ns @ fs)" and free: "\<forall>f\<in>set fs. fl_next h f = None"
    and len: "length (ns @ fs) + 1 < 2 ^ 63"
    using inv by (auto simp: fl_inv_def)
  have "fl_next h' f = None" if "f \<in> set (remove1 n fs)" for f
  proof -
    have f: "f \<in> set fs" "f \<noteq> n" using that d by auto
    then have "f \<notin> {hdr} \<union> insert n (set ns)" using d by auto
    then have "fl_next h' f = fl_next h f" using only by (simp add: fl_only_def)
    then show ?thesis using free f by simp
  qed
  moreover have "length ((xs @ n # ys) @ remove1 n fs) = length (ns @ fs)"
    using n ns length_pos_if_in_set [OF n] by (simp add: length_remove1)
  moreover have "distinct (hdr # (xs @ n # ys) @ remove1 n fs)"
    using d n ns by (auto simp: distinct_remove1 dest: notin_set_remove1)
  ultimately show ?thesis
    using rep only len by (simp add: fl_inv_def fl_only_def)
qed

lemma fl_inv_detach:
  assumes inv: "fl_inv h hdr (xs @ n # ys, fs)" and rep: "fl_rep h' hdr (xs @ ys)"
    and free: "fl_next h' n = None" and only: "fl_only {hdr} (set (xs @ n # ys)) h h'"
  shows "fl_inv h' hdr (xs @ ys, n # fs) \<and> fl_val h' = fl_val h"
proof -
  have d: "distinct (hdr # (xs @ n # ys) @ fs)" using inv by (simp add: fl_inv_def)
  have "fl_next h' f = None" if "f \<in> set fs" for f
  proof -
    have "f \<notin> {hdr} \<union> set (xs @ n # ys)" using that d by auto
    then have "fl_next h' f = fl_next h f" using only unfolding fl_only_def by blast
    then show ?thesis using inv that by (simp add: fl_inv_def)
  qed
  then show ?thesis using inv rep free only d by (auto simp: fl_inv_def fl_only_def)
qed

lemma fl_only_mono: "fl_only H N h h' \<Longrightarrow> N \<subseteq> N' \<Longrightarrow> fl_only H N' h h'"
  by (auto simp: fl_only_def)

lemma fl_exec_refines:
  assumes inv: "fl_inv h hdr (ns, fs)" and st: "abs_step c (ns, fs) = Some s'"
  shows "\<exists>h'. fl_exec hdr c h = Inr h' \<and> fl_inv h' hdr s' \<and> fl_val h' = fl_val h"
proof -
  have rep: "fl_rep h hdr ns" and d: "distinct (hdr # ns @ fs)"
    and free: "\<forall>f\<in>set fs. fl_next h f = None" and len: "length (ns @ fs) + 1 < 2 ^ 63"
    using inv by (auto simp: fl_inv_def)
  have ch: "chain (fl_next h) hdr ns" using rep by (simp add: fl_rep_def)
  have new: "n \<notin> set (hdr # ns)" "length ns + 1 < 2 ^ 63" if "n \<in> set fs" for n
    using that d len by auto
  show ?thesis
  proof (cases c)
    case (FPushFront n)
    then have n: "n \<in> set fs" "s' = ([] @ n # ns, remove1 n fs)" using st by (auto split: if_splits)
    from fl_push_front_ok [OF rep new [OF n(1)]] obtain h' where
      h': "fl_push_front hdr n h = Inr h'" "fl_rep h' hdr ([] @ n # ns)"
        "fl_only {hdr} (insert n (set ns)) h h'" by (auto intro: fl_only_mono)
    show ?thesis using fl_inv_attach [OF inv n(1) h'(2,3)] h'(1) n(2) FPushFront by auto
  next
    case (FPushBack n)
    then have n: "n \<in> set fs" "s' = (ns @ n # [], remove1 n fs)" using st by (auto split: if_splits)
    from fl_push_back_ok [OF rep new(1) [OF n(1)] _ new(2) [OF n(1)]] free n(1) obtain h' where
      h': "fl_push_back hdr n h = Inr h'" "fl_rep h' hdr (ns @ n # [])"
        "fl_only {hdr} (insert n (set ns)) h h'" by auto
    show ?thesis using fl_inv_attach [OF inv n(1) h'(2,3)] h'(1) n(2) FPushBack by auto
  next
    case (FInsertAfter k n)
    then have n: "n \<in> set fs" "k \<le> length ns" "s' = (take k ns @ n # drop k ns, remove1 n fs)"
      using st by (auto split: if_splits)
    from fl_insert_after_ok [of h hdr "take k ns" "drop k ns" n] rep new [OF n(1)] obtain h' where
      h': "fl_insert_after hdr (Some (last (hdr # take k ns))) n h = Inr h'"
        "fl_rep h' hdr (take k ns @ n # drop k ns)" "fl_only {hdr} (insert n (set ns)) h h'"
      by (auto simp flip: set_append)
    show ?thesis
      using fl_inv_attach [OF inv n(1) h'(2,3)] h'(1) n FInsertAfter fl_walk_chain [OF ch n(2)] by auto
  next
    case FExtractFront
    then obtain n ns' where n: "ns = [] @ n # ns'" "s' = ([] @ ns', n # fs)"
      using st by (auto split: list.splits)
    from fl_extract_front_ok [of h hdr n ns'] rep n(1) obtain h' where
      h': "fl_extract_front hdr h = Inr (n, h')" "fl_rep h' hdr ([] @ ns')" "fl_next h' n = None"
        "fl_only {hdr} (set ([] @ n # ns')) h h'" by (auto intro: fl_only_mono)
    show ?thesis
      using fl_inv_detach [of h hdr "[]" n ns' fs h'] inv n h' FExtractFront by auto
  next
    case (FExtractAfter k)
    then have k: "k < length ns" "s' = (take k ns @ drop (Suc k) ns, ns ! k # fs)"
      using st by (auto split: if_splits)
    have ns: "ns = take k ns @ ns ! k # drop (Suc k) ns" using k(1) by (rule id_take_nth_drop)
    from fl_extract_after_ok [of h hdr "take k ns" "ns ! k" "drop (Suc k) ns"] rep ns obtain h' where
      h': "fl_extract_after hdr (Some (last (hdr # take k ns))) h = Inr (ns ! k, h')"
        "fl_rep h' hdr (take k ns @ drop (Suc k) ns)" "fl_next h' (ns ! k) = None"
        "fl_only {hdr} (set (take k ns @ ns ! k # drop (Suc k) ns)) h h'" by auto
    have "fl_inv h hdr (take k ns @ ns ! k # drop (Suc k) ns, fs)" using inv ns by simp
    from fl_inv_detach [OF this h'(2,3,4)] show ?thesis
      using h'(1) k FExtractAfter fl_walk_chain [OF ch, of k] by auto
  qed
qed

text \<open>C5. Every sequence of node insertions and extractions on a \<open>ForwardList\<close> (at the front, at the
  back, after any position) leaves the pointer structure of the list that the same
  sequence gives on plain lists: the chain from the header is that list, the header's back
  pointer is its last node, the count is its length, no node is lost or shared, extracted
  nodes are detached and values are untouched. No assertion fails.\<close>

theorem ForwardList_refines_list:
  assumes "fl_inv h hdr s" "abs_run cs s = Some s'"
  shows "\<exists>h'. fl_run hdr cs h = Inr h' \<and> fl_inv h' hdr s' \<and> fl_val h' = fl_val h"
  using assms
proof (induction cs arbitrary: h s)
  case (Cons c cs)
  then obtain s1 where s1: "abs_step c s = Some s1" "abs_run cs s1 = Some s'"
    by (auto simp: bind_eq_Some_conv)
  from fl_exec_refines [of h hdr "fst s" "snd s" c s1] Cons.prems(1) s1(1) obtain h1 where
    h1: "fl_exec hdr c h = Inr h1" "fl_inv h1 hdr s1" "fl_val h1 = fl_val h" by auto
  from Cons.IH [OF h1(2) s1(2)] h1 show ?case by auto
qed simp

text \<open>A heap with an empty list at address 0 and detached nodes elsewhere.\<close>

definition demo_heap :: "nat fl_heap" where
  "demo_heap = \<lparr>fl_next = (\<lambda>_. None), fl_prev = (\<lambda>x. if x = 0 then Some 0 else None),
     fl_count = (\<lambda>_. 0), fl_val = (\<lambda>x. 10 * x)\<rparr>"

theorem ForwardList_refines_list_witness:
  "let cs = [FPushBack 1, FPushFront 2, FInsertAfter 1 3, FExtractAfter 2, FPushBack 1, FExtractFront];
       s = ([], [1, 2, 3]); s' = ([3, 1], [2]) in
   fl_inv demo_heap 0 s \<and> abs_run cs s = Some s' \<and>
   (\<exists>h'. fl_run 0 cs demo_heap = Inr h' \<and> fl_inv h' 0 s' \<and> fl_val h' = fl_val demo_heap)"
proof -
  let ?cs = "[FPushBack 1, FPushFront 2, FInsertAfter 1 3, FExtractAfter 2, FPushBack 1, FExtractFront]"
  have h: "fl_inv demo_heap 0 ([], [1, 2, 3])" "abs_run ?cs ([], [1, 2, 3]) = Some ([3, 1], [2])"
    by (simp_all add: fl_inv_def fl_rep_def demo_heap_def)
  then show ?thesis using ForwardList_refines_list [OF h] by simp
qed

text \<open>\<open>ForwardList::reverse\<close> returns on every well-formed list, whatever its length, and the
  list afterwards is the reversed one, with the header's back pointer and count right.\<close>

theorem ForwardList_reverse:
  assumes "fl_rep h hdr ns"
  shows "\<exists>h'. fl_reverse hdr h = Some (Inr h') \<and> fl_rep h' hdr (rev ns) \<and>
    fl_values h' (rev ns) = rev (fl_values h ns)"
  using fl_reverse_ok [OF assms] by (auto simp: fl_only_def fl_values_def rev_map)

definition demo_list3 :: "nat fl_heap" where
  "demo_list3 = \<lparr>fl_next = (\<lambda>_. None)(0 := Some 1, 1 := Some 2, 2 := Some 3),
     fl_prev = (\<lambda>_. None)(0 := Some 3, 9 := Some 9), fl_count = (\<lambda>_. 0)(0 := 3), fl_val = (\<lambda>x. 10 * x)\<rparr>"

lemma demo_list3_rep: "fl_rep demo_list3 0 [1, 2, 3]" "fl_rep demo_list3 9 []"
  by (simp_all add: fl_rep_def demo_list3_def)

theorem ForwardList_reverse_witness:
  "fl_rep demo_list3 0 [1, 2, 3] \<and>
   (\<exists>h'. fl_reverse 0 demo_list3 = Some (Inr h') \<and> fl_rep h' 0 [3, 2, 1] \<and>
     fl_values h' [3, 2, 1] = [30, 20, 10])"
  using ForwardList_reverse [OF demo_list3_rep(1)] demo_list3_rep(1)
  by (simp add: fl_values_def demo_list3_def)

text \<open>Splicing a range of nodes from another list moves exactly the nodes of the range and
  detaches nothing else, but it inserts each node after the same position, so that the range
  arrives in reverse order (\<open>std::forward_list::splice_after\<close> keeps it).\<close>

theorem ForwardList_splice_range_reverses:
  assumes "fl_rep h hdr (xs @ ys)" "fl_rep h oth (as @ ms @ bs)"
    and "set (hdr # xs @ ys) \<inter> set (oth # as @ ms @ bs) = {}"
    and "length (xs @ ys) + length ms < 2 ^ 63" "length ms \<le> fuel"
  shows "\<exists>h'. fl_splice_range fuel hdr (Some (last (hdr # xs))) oth (last (oth # as))
      (case bs of [] \<Rightarrow> None | b # _ \<Rightarrow> Some b) h = Some (Inr h') \<and>
    fl_rep h' hdr (xs @ rev ms @ ys) \<and> fl_rep h' oth (as @ bs)"
  using fl_splice_range_ok [OF assms] by blast

theorem ForwardList_splice_range_reverses_witness:
  "fl_rep demo_list3 9 ([] @ []) \<and> fl_rep demo_list3 0 ([] @ [1, 2] @ [3]) \<and>
   set (9 # [] @ []) \<inter> set (0 # [] @ [1, 2] @ [3 :: nat]) = {} \<and>
   (\<exists>h'. fl_splice_range 2 9 (Some 9) 0 0 (Some 3) demo_list3 = Some (Inr h') \<and>
     fl_rep h' 9 [2, 1] \<and> fl_rep h' 0 [3])"
proof -
  have h: "fl_rep demo_list3 9 ([] @ [])" "fl_rep demo_list3 0 ([] @ [1, 2] @ [3])"
    "set (9 # [] @ []) \<inter> set (0 # [] @ [1, 2] @ [3 :: nat]) = {}"
    "length ([] @ [] :: nat list) + length [1, 2 :: nat] < 2 ^ 63" "length [1, 2 :: nat] \<le> 2"
    using demo_list3_rep by simp_all
  show ?thesis using h ForwardList_splice_range_reverses [OF h] by simp
qed

text \<open>Splicing a whole list after any position of another list inserts it there in order,
  empties the source, and keeps both headers consistent; it takes constant time and
  touches no values. With the end iterator as position (a null pointer) it dereferences a
  null pointer unless the source is empty.\<close>

theorem ForwardList_splice_all:
  assumes "fl_rep h hdr (xs @ ys)" "fl_rep h oth ms"
    and "set (hdr # xs @ ys) \<inter> set (oth # ms) = {}" "length (xs @ ys) + length ms < 2 ^ 63"
  shows "(\<exists>h'. fl_splice_all hdr (Some (last (hdr # xs))) oth h = Inr h' \<and>
      fl_rep h' hdr (xs @ ms @ ys) \<and> fl_rep h' oth [] \<and> fl_val h' = fl_val h) \<and>
    fl_splice_all hdr None oth h = (if ms = [] then Inr h else Inl NullDeref)"
  using fl_splice_all_ok [OF assms] fl_splice_all_end [OF assms(2), of hdr]
  unfolding fl_only_def by blast

theorem ForwardList_splice_all_witness:
  "fl_rep demo_list3 9 ([] @ []) \<and> fl_rep demo_list3 0 [1, 2, 3] \<and>
   (\<exists>h'. fl_splice_all 9 (Some 9) 0 demo_list3 = Inr h' \<and> fl_rep h' 9 [1, 2, 3] \<and> fl_rep h' 0 []) \<and>
   fl_splice_all 9 None 0 demo_list3 = Inl NullDeref"
proof -
  have h: "fl_rep demo_list3 9 ([] @ [])" "fl_rep demo_list3 0 [1, 2, 3]"
    "set (9 # [] @ []) \<inter> set (0 # [1, 2, 3 :: nat]) = {}"
    "length ([] @ [] :: nat list) + length [1, 2, 3 :: nat] < 2 ^ 63"
    using demo_list3_rep by simp_all
  show ?thesis using h ForwardList_splice_all [OF h] by auto
qed

end
