(* ===== verification/Forward_List_Ops.thy ===== *)
theory Forward_List_Ops
  imports Forward_List "HOL-Library.Multiset"
begin

text \<open>
  Model of the algorithms of \<^verbatim>\<open>kanon/algo/forward_list/forward_list_impl.h\<close> built from the node
  operations. \<open>merge\<close> is modelled on the heap and shown to refine the merge of lists; the other
  algorithms work on the sequence of values, with an iterator as the
  position of its node (0 is \<open>before_begin()\<close>, \<^term>\<open>None\<close> is \<open>end()\<close>).
\<close>

section \<open>Merging\<close>

text \<open>\<open>pred(y, x)\<close> decides whether the next node of the argument list goes before the next node
  of this list.\<close>

fun merge_by :: "('a \<Rightarrow> 'a \<Rightarrow> bool) \<Rightarrow> 'a list \<Rightarrow> 'a list \<Rightarrow> 'a list" where
  "merge_by pred [] ys = ys"
| "merge_by pred xs [] = xs"
| "merge_by pred (x # xs) (y # ys) =
     (if pred y x then y # merge_by pred (x # xs) ys else x # merge_by pred xs (y # ys))"

fun fl_merge_loop ::
  "nat \<Rightarrow> nat \<Rightarrow> nat \<Rightarrow> ('a \<Rightarrow> 'a \<Rightarrow> bool) \<Rightarrow> nat \<Rightarrow> 'a fl_heap \<Rightarrow> (nat \<times> 'a fl_heap) res option" where
  "fl_merge_loop fuel hdr oth pred beg h =
     (case (fl_next h beg, fl_next h oth) of
        (Some b, Some ob) \<Rightarrow>
          (case fuel of
             0 \<Rightarrow> None
           | Suc fuel \<Rightarrow>
               if pred (fl_val h ob) (fl_val h b) then
                 let old_node = fl_next h ob in
                 (case fl_extract_after oth (Some oth) h of
                    Inl e \<Rightarrow> Some (Inl e)
                  | Inr (node, h) \<Rightarrow>
                      (case fl_insert_after hdr (Some beg) node h of
                         Inl e \<Rightarrow> Some (Inl e)
                       | Inr h \<Rightarrow>
                           (case fl_next h beg of
                              None \<Rightarrow> Some (Inl NullDeref)
                            | Some beg \<Rightarrow>
                                fl_merge_loop fuel hdr oth pred beg (set_next oth old_node h))))
               else fl_merge_loop fuel hdr oth pred b h)
      | _ \<Rightarrow> Some (Inr (beg, h)))"

declare fl_merge_loop.simps [simp del]

definition fl_merge ::
  "nat \<Rightarrow> nat \<Rightarrow> nat \<Rightarrow> ('a \<Rightarrow> 'a \<Rightarrow> bool) \<Rightarrow> 'a fl_heap \<Rightarrow> 'a fl_heap res option" where
  "fl_merge fuel hdr oth pred h =
     (case fl_empty oth h of
        Inl e \<Rightarrow> Some (Inl e)
      | Inr True \<Rightarrow> Some (Inr h)
      | Inr False \<Rightarrow>
          (case fl_merge_loop fuel hdr oth pred hdr h of
             None \<Rightarrow> None
           | Some (Inl e) \<Rightarrow> Some (Inl e)
           | Some (Inr (beg, h)) \<Rightarrow> Some
               (rbind (if fl_next h beg = None then fl_splice_all hdr (fl_prev h hdr) oth h else Inr h)
                 (\<lambda>h. rbind (fl_empty oth h) (\<lambda>e. rbind (assertR e) (\<lambda>_. Inr (fl_reset oth h)))))))"

lemma merge_by_Nil2 [simp]: "merge_by pred xs [] = xs"
  by (cases xs) simp_all

lemma map_merge_by:
  "map f (merge_by (\<lambda>y x. pred (f y) (f x)) xs ys) = merge_by pred (map f xs) (map f ys)"
  by (induction "\<lambda>y x. pred (f y) (f x)" xs ys rule: merge_by.induct) auto

lemma mset_merge_by [simp]: "mset (merge_by pred xs ys) = mset xs + mset ys"
  by (induction pred xs ys rule: merge_by.induct) auto

lemma set_merge_by [simp]: "set (merge_by pred xs ys) = set xs \<union> set ys"
  by (metis mset_merge_by set_mset_mset set_mset_union)

lemma length_merge_by [simp]: "length (merge_by pred xs ys) = length xs + length ys"
  by (metis mset_merge_by size_mset size_union)

lemma sorted_merge_by:
  fixes f :: "'a \<Rightarrow> 'b::linorder"
  shows "sorted (map f xs) \<Longrightarrow> sorted (map f ys) \<Longrightarrow>
    sorted (map f (merge_by (\<lambda>y x. f y < f x) xs ys))"
  by (induction "\<lambda>y x. f y < f x" xs ys rule: merge_by.induct) (auto simp: not_less intro: order.trans less_imp_le)

text \<open>One round of the loop moves the first node of the argument list behind \<open>beg\<close>.\<close>

lemma merge_move:
  assumes r: "fl_rep h hdr (xs @ y # ys)" and o: "fl_rep h oth (m # ms)"
    and dj: "set (hdr # xs @ y # ys) \<inter> set (oth # m # ms) = {}"
    and len: "length (xs @ y # ys) + length (m # ms) + 1 < 2 ^ 63"
  shows "\<exists>h1 h2. fl_extract_after oth (Some oth) h = Inr (m, h1) \<and>
    fl_insert_after hdr (Some (last (hdr # xs))) m h1 = Inr h2 \<and>
    fl_next h2 (last (hdr # xs)) = Some m \<and> set_next oth (fl_next h m) h2 = h2 \<and>
    fl_rep h2 hdr ((xs @ [m]) @ y # ys) \<and> fl_rep h2 oth ms \<and> fl_val h2 = fl_val h"
proof -
  obtain h1 where h1: "fl_extract_after oth (Some oth) h = Inr (m, h1)" "fl_rep h1 oth ms"
      "fl_only {oth} (set (m # ms)) h h1"
    using fl_extract_after_ok [of h oth "[]" m ms] o by auto
  have r1: "fl_rep h1 hdr (xs @ y # ys)"
    by (rule fl_only_rep [OF h1(3) r]) (use dj in auto)
  obtain h2 where h2: "fl_insert_after hdr (Some (last (hdr # xs))) m h1 = Inr h2"
      "fl_rep h2 hdr (xs @ m # y # ys)" "fl_only {hdr} (insert m (set (xs @ y # ys))) h1 h2"
    using fl_insert_after_ok [OF r1, of m] dj len by auto
  have dm: "distinct (oth # m # ms)" using o by (simp add: fl_rep_def)
  have o2: "fl_rep h2 oth ms"
    by (rule fl_only_rep [OF h2(3) h1(2)]) (use dj dm in auto)
  have "fl_next h2 oth = first_of ms" "fl_next h m = first_of ms"
    using o o2 by (auto simp: fl_rep_def dest: chain_next)
  then have "set_next oth (fl_next h m) h2 = h2" by (simp add: fun_upd_idem)
  moreover have "fl_next h2 (last (hdr # xs)) = Some m"
    using h2(2) by (simp add: fl_rep_def chain_app)
  ultimately show ?thesis using h1 h2 o2 by (auto simp: fl_only_def)
qed

lemma fl_merge_loop_ok:
  assumes "fl_rep h hdr (xs @ ys)" "fl_rep h oth ms"
    and "set (hdr # xs @ ys) \<inter> set (oth # ms) = {}"
    and "length (xs @ ys) + length ms + 1 < 2 ^ 63" "length ys + length ms \<le> fuel"
  shows "\<exists>h' us vs ms'. fl_merge_loop fuel hdr oth pred (last (hdr # xs)) h
      = Some (Inr (last (hdr # xs @ us), h')) \<and>
    fl_rep h' hdr (xs @ us @ vs) \<and> fl_rep h' oth ms' \<and> (vs = [] \<or> ms' = []) \<and>
    merge_by (\<lambda>c b. pred (fl_val h c) (fl_val h b)) ys ms = us @ vs @ ms' \<and> fl_val h' = fl_val h"
  using assms
proof (induction fuel arbitrary: h xs ys ms)
  case 0
  then have e: "ys = []" "ms = []" by auto
  then have "fl_next h oth = None" using 0 by (simp add: fl_rep_def)
  then show ?case using 0 e
    by (intro exI [of _ h] exI [of _ "[]"] exI [of _ "[]"]) (simp add: fl_merge_loop.simps split: option.splits)
next
  case (Suc fuel)
  show ?case
  proof (cases "ys = [] \<or> ms = []")
    case True
    then have "fl_next h (last (hdr # xs)) = None \<or> fl_next h oth = None"
      using Suc.prems(1,2) by (auto simp: fl_rep_def chain_app)
    then have "fl_merge_loop (Suc fuel) hdr oth pred (last (hdr # xs)) h = Some (Inr (last (hdr # xs), h))"
      by (subst fl_merge_loop.simps) (auto split: option.splits)
    then show ?thesis
      using True Suc.prems
      by (intro exI [of _ h] exI [of _ "[]"] exI [of _ ys] exI [of _ ms]) auto
  next
    case False
    then obtain y ys' m ms' where ym: "ys = y # ys'" "ms = m # ms'" by (meson list.exhaust)
    let ?p = "last (hdr # xs)" and ?pr = "\<lambda>c b. pred (fl_val h c) (fl_val h b)"
    have ny: "fl_next h ?p = Some y" and nm: "fl_next h oth = Some m"
      using Suc.prems(1,2) ym by (auto simp: fl_rep_def chain_app)
    show ?thesis
    proof (cases "?pr m y")
      case True
      from merge_move [of h hdr xs y ys' oth m ms'] Suc.prems ym obtain h1 h2 where
        h: "fl_extract_after oth (Some oth) h = Inr (m, h1)" "fl_insert_after hdr (Some ?p) m h1 = Inr h2"
        "fl_next h2 ?p = Some m" "set_next oth (fl_next h m) h2 = h2"
        "fl_rep h2 hdr ((xs @ [m]) @ ys)" "fl_rep h2 oth ms'" "fl_val h2 = fl_val h" by auto
      have step: "fl_merge_loop (Suc fuel) hdr oth pred ?p h = fl_merge_loop fuel hdr oth pred m h2"
        using True ny nm h(1-4) by (subst fl_merge_loop.simps) simp
      have dm: "distinct (oth # ms)" using Suc.prems(2) by (simp add: fl_rep_def)
      have "\<exists>h' us vs ns. fl_merge_loop fuel hdr oth pred (last (hdr # xs @ [m])) h2
          = Some (Inr (last (hdr # (xs @ [m]) @ us), h')) \<and>
        fl_rep h' hdr ((xs @ [m]) @ us @ vs) \<and> fl_rep h' oth ns \<and> (vs = [] \<or> ns = []) \<and>
        merge_by (\<lambda>c b. pred (fl_val h2 c) (fl_val h2 b)) ys ms' = us @ vs @ ns \<and>
        fl_val h' = fl_val h2"
        by (rule Suc.IH [OF h(5,6)]) (use Suc.prems(3-5) ym dm in auto)
      then obtain h' us vs ns where
        "fl_merge_loop fuel hdr oth pred m h2 = Some (Inr (last (hdr # xs @ m # us), h'))"
        "fl_rep h' hdr (xs @ (m # us) @ vs)" "fl_rep h' oth ns" "vs = [] \<or> ns = []"
        "merge_by ?pr ys ms' = us @ vs @ ns" "fl_val h' = fl_val h"
        using h(7) by auto
      then show ?thesis
        using step True ym by (intro exI [of _ h'] exI [of _ "m # us"] exI [of _ vs] exI [of _ ns]) auto
    next
      case F: False
      have step: "fl_merge_loop (Suc fuel) hdr oth pred ?p h = fl_merge_loop fuel hdr oth pred y h"
        using F ny nm by (subst fl_merge_loop.simps) simp
      have r: "fl_rep h hdr ((xs @ [y]) @ ys')" using Suc.prems(1) ym by simp
      have "\<exists>h' us vs ns. fl_merge_loop fuel hdr oth pred (last (hdr # xs @ [y])) h
          = Some (Inr (last (hdr # (xs @ [y]) @ us), h')) \<and>
        fl_rep h' hdr ((xs @ [y]) @ us @ vs) \<and> fl_rep h' oth ns \<and> (vs = [] \<or> ns = []) \<and>
        merge_by ?pr ys' ms = us @ vs @ ns \<and> fl_val h' = fl_val h"
        by (rule Suc.IH [OF r Suc.prems(2)]) (use Suc.prems(3-5) ym in auto)
      then obtain h' us vs ns where
        "fl_merge_loop fuel hdr oth pred y h = Some (Inr (last (hdr # xs @ y # us), h'))"
        "fl_rep h' hdr (xs @ (y # us) @ vs)" "fl_rep h' oth ns" "vs = [] \<or> ns = []"
        "merge_by ?pr ys' ms = us @ vs @ ns" "fl_val h' = fl_val h"
        by auto
      then show ?thesis
        using step F ym by (intro exI [of _ h'] exI [of _ "y # us"] exI [of _ vs] exI [of _ ns]) auto
    qed
  qed
qed

lemma distinct_merge_by:
  "distinct xs \<Longrightarrow> distinct ys \<Longrightarrow> set xs \<inter> set ys = {} \<Longrightarrow> distinct (merge_by pred xs ys)"
  by (induction pred xs ys rule: merge_by.induct) auto

lemma fl_reset_other:
  assumes "fl_rep h hdr ns" "oth \<notin> set (hdr # ns)"
  shows "fl_rep (fl_reset oth h) hdr ns"
proof -
  have "fl_only {oth} {} h (fl_reset oth h)" by (simp add: fl_only_def fl_reset_def)
  from fl_only_rep [OF this assms(1)] show ?thesis using assms(2) by auto
qed

lemma fl_merge_ok:
  assumes r: "fl_rep h hdr ys" and o: "fl_rep h oth ms" and dj: "set (hdr # ys) \<inter> set (oth # ms) = {}"
    and len: "length ys + length ms + 1 < 2 ^ 63" and fuel: "length ys + length ms \<le> fuel"
  shows "\<exists>h'. fl_merge fuel hdr oth pred h = Some (Inr h') \<and>
    fl_rep h' hdr (merge_by (\<lambda>c b. pred (fl_val h c) (fl_val h b)) ys ms) \<and> fl_rep h' oth [] \<and>
    fl_val h' = fl_val h"
proof (cases "ms = []")
  case True
  then show ?thesis using r o fl_rep_empty_iff [OF o] by (simp add: fl_merge_def)
next
  case False
  let ?m = "merge_by (\<lambda>c b. pred (fl_val h c) (fl_val h b)) ys ms"
  obtain h1 us vs ns where
    l: "fl_merge_loop fuel hdr oth pred hdr h = Some (Inr (last (hdr # us), h1))" and
    r1: "fl_rep h1 hdr (us @ vs)" and o1: "fl_rep h1 oth ns" and
    e: "vs = [] \<or> ns = []" and m: "?m = us @ vs @ ns" and v: "fl_val h1 = fl_val h"
    using fl_merge_loop_ok [of h hdr "[]" ys oth ms fuel pred] assms by auto
  have "distinct ?m" using r o dj by (intro distinct_merge_by) (auto simp: fl_rep_def)
  moreover have "set (us @ vs @ ns) = set ys \<union> set ms" using m by (metis set_merge_by)
  ultimately have dj1: "set (hdr # us @ vs) \<inter> set (oth # ns) = {}"
    using m dj r o by (auto simp: fl_rep_def)
  have lens: "length (us @ vs @ ns) = length ys + length ms" using m by (metis length_merge_by)
  have "\<exists>h2. (if fl_next h1 (last (hdr # us)) = None then fl_splice_all hdr (fl_prev h1 hdr) oth h1
      else Inr h1) = Inr h2 \<and> fl_rep h2 hdr ?m \<and> fl_rep h2 oth [] \<and> fl_val h2 = fl_val h"
  proof (cases "vs = []")
    case True
    then have "fl_next h1 (last (hdr # us)) = None" "fl_prev h1 hdr = Some (last (hdr # us))"
      using r1 chain_last [of "fl_next h1" hdr us] by (auto simp: fl_rep_def)
    moreover have "\<exists>h2. fl_splice_all hdr (Some (last (hdr # us))) oth h1 = Inr h2 \<and>
        fl_rep h2 hdr (us @ ns @ []) \<and> fl_rep h2 oth [] \<and> fl_only {hdr, oth} (set (us @ [] @ ns)) h1 h2"
      by (rule fl_splice_all_ok) (use r1 o1 dj1 True lens len in auto)
    ultimately show ?thesis using m True v by (auto simp: fl_only_def)
  next
    case F: False
    then have "fl_next h1 (last (hdr # us)) \<noteq> None"
      using r1 by (cases vs) (auto simp: fl_rep_def chain_app)
    then show ?thesis using F e m r1 o1 v by auto
  qed
  then obtain h2 where h2: "(if fl_next h1 (last (hdr # us)) = None
      then fl_splice_all hdr (fl_prev h1 hdr) oth h1 else Inr h1) = Inr h2"
    "fl_rep h2 hdr ?m" "fl_rep h2 oth []" "fl_val h2 = fl_val h" by blast
  have "oth \<notin> set (hdr # ?m)" using dj o by (auto simp: fl_rep_def)
  then have "fl_rep (fl_reset oth h2) hdr ?m" by (rule fl_reset_other [OF h2(2)])
  moreover have "fl_merge fuel hdr oth pred h = Some (Inr (fl_reset oth h2))"
    using False fl_rep_empty_iff [OF o] fl_rep_empty_iff [OF h2(3)] l h2(1)
    by (simp only: fl_merge_def) simp
  moreover have "fl_val (fl_reset oth h2) = fl_val h" using h2(4) by (simp add: fl_reset_def)
  ultimately show ?thesis using fl_reset_rep by blast
qed

text \<open>\<open>ForwardList::merge\<close> on two disjoint well-formed lists returns (after at most as many rounds
  as there are nodes): this list then holds the stable merge of the two value sequences, made of
  the same nodes, and the argument is empty; on sorted arguments the result is sorted. No
  assertion fails.\<close>

theorem ForwardList_merge:
  fixes h :: "('a::linorder) fl_heap"
  assumes "fl_rep h hdr ys" "fl_rep h oth ms" "set (hdr # ys) \<inter> set (oth # ms) = {}"
    and "length ys + length ms + 1 < 2 ^ 63" "length ys + length ms \<le> fuel"
  shows "\<exists>h' ns. fl_merge fuel hdr oth (\<lambda>x y. x < y) h = Some (Inr h') \<and>
    fl_rep h' hdr ns \<and> fl_rep h' oth [] \<and>
    fl_values h' ns = merge_by (\<lambda>x y. x < y) (fl_values h ys) (fl_values h ms) \<and>
    mset ns = mset ys + mset ms \<and>
    (sorted (fl_values h ys) \<and> sorted (fl_values h ms) \<longrightarrow> sorted (fl_values h' ns))"
proof -
  let ?lt = "\<lambda>x y :: 'a. x < y"
  let ?m = "merge_by (\<lambda>c b. fl_val h c < fl_val h b) ys ms"
  obtain h' where h': "fl_merge fuel hdr oth ?lt h = Some (Inr h')" "fl_rep h' hdr ?m"
      "fl_rep h' oth []" "fl_val h' = fl_val h"
    using fl_merge_ok [OF assms, of ?lt] by blast
  moreover have "fl_values h' ?m = merge_by ?lt (fl_values h ys) (fl_values h ms)"
    using h'(4) map_merge_by [of "fl_val h" ?lt ys ms] by (simp add: fl_values_def)
  moreover have "sorted (fl_values h ys) \<and> sorted (fl_values h ms) \<longrightarrow> sorted (fl_values h' ?m)"
    using sorted_merge_by [of "fl_val h" ys ms] h'(4) by (simp add: fl_values_def)
  ultimately show ?thesis by (intro exI [of _ h'] exI [of _ ?m]) simp
qed

definition demo_two :: "nat fl_heap" where
  "demo_two = \<lparr>fl_next = (\<lambda>_. None)(0 := Some 1, 1 := Some 3, 9 := Some 2, 2 := Some 4),
     fl_prev = (\<lambda>_. None)(0 := Some 3, 9 := Some 4), fl_count = (\<lambda>_. 0)(0 := 2, 9 := 2), fl_val = (\<lambda>x. x)\<rparr>"

theorem ForwardList_merge_witness:
  "fl_rep demo_two 0 [1, 3] \<and> fl_rep demo_two 9 [2, 4] \<and>
   set (0 # [1, 3]) \<inter> set (9 # [2, 4 :: nat]) = {} \<and>
   (\<exists>h' ns. fl_merge 4 0 9 (\<lambda>x y. x < y) demo_two = Some (Inr h') \<and> fl_rep h' 0 ns \<and> fl_rep h' 9 [] \<and>
     fl_values h' ns = [1, 2, 3, 4])"
proof -
  have h: "fl_rep demo_two 0 [1, 3]" "fl_rep demo_two 9 [2, 4]"
    "set (0 # [1, 3]) \<inter> set (9 # [2, 4 :: nat]) = {}"
    "length [1, 3 :: nat] + length [2, 4 :: nat] + 1 < 2 ^ 63"
    "length [1, 3 :: nat] + length [2, 4 :: nat] \<le> 4"
    by (simp_all add: fl_rep_def demo_two_def)
  moreover have "merge_by (\<lambda>x y. x < y) (fl_values demo_two [1, 3]) (fl_values demo_two [2, 4]) = [1, 2, 3, 4]"
    by (simp add: fl_values_def demo_two_def)
  ultimately show ?thesis using ForwardList_merge [OF h] by auto
qed

section \<open>Sorting\<close>

text \<open>The buckets \<open>lists[64]\<close> and the carry loop of one element; indexing past the array is an error.\<close>

function sort_carry ::
  "('a \<Rightarrow> 'a \<Rightarrow> bool) \<Rightarrow> nat \<Rightarrow> 'a list \<Rightarrow> 'a list list \<Rightarrow> (nat \<times> 'a list list) res" where
  "sort_carry cmp i list bks =
     (if i < length bks then
        (if bks ! i = [] then Inr (i, bks[i := list])
         else sort_carry cmp (Suc i)
                (if length list < length (bks ! i) then merge_by cmp (bks ! i) list
                 else merge_by cmp list (bks ! i))
                (bks[i := []]))
      else Inl OutOfBounds)"
  by pat_completeness auto
termination
  by (relation "measure (\<lambda>(cmp, i, list, bks). length bks - i)") auto

declare sort_carry.simps [simp del]

fun sort_loop ::
  "('a \<Rightarrow> 'a \<Rightarrow> bool) \<Rightarrow> 'a list \<Rightarrow> nat \<Rightarrow> 'a list list \<Rightarrow> (nat \<times> 'a list list) res" where
  "sort_loop cmp [] end_of_lists bks = Inr (end_of_lists, bks)"
| "sort_loop cmp (x # xs) end_of_lists bks =
     rbind (sort_carry cmp 0 [x] bks) (\<lambda>(i, bks).
       sort_loop cmp xs (if i = end_of_lists then Suc end_of_lists else end_of_lists) bks)"

fun sort_collect :: "('a \<Rightarrow> 'a \<Rightarrow> bool) \<Rightarrow> nat \<Rightarrow> 'a list list \<Rightarrow> 'a list \<Rightarrow> 'a list" where
  "sort_collect cmp 0 bks list = list"
| "sort_collect cmp (Suc i) bks list = sort_collect cmp i bks (merge_by cmp list (bks ! i))"

definition fl_sort :: "('a \<Rightarrow> 'a \<Rightarrow> bool) \<Rightarrow> 'a list \<Rightarrow> 'a list res" where
  "fl_sort cmp xs =
     rbind (sort_loop cmp xs 0 (replicate 64 []))
       (\<lambda>(end_of_lists, bks). Inr (sort_collect cmp end_of_lists bks []))"

text \<open>A bucket \<open>i\<close> is empty or holds a sorted list of \<open>2 ^ i\<close> elements.\<close>

definition buckets_ok :: "('a \<Rightarrow> 'b::linorder) \<Rightarrow> 'a list list \<Rightarrow> bool" where
  "buckets_ok f bks \<longleftrightarrow> length bks = 64 \<and>
     (\<forall>i < 64. sorted (map f (bks ! i)) \<and> (bks ! i = [] \<or> length (bks ! i) = 2 ^ i))"

lemma mset_concat_update:
  "i < length ls \<Longrightarrow> mset (concat (ls[i := l])) + mset (ls ! i) = mset (concat ls) + mset l"
proof (induction ls arbitrary: i)
  case (Cons x ls)
  then show ?case by (cases i) (auto simp: ac_simps)
qed simp

lemma buckets_update:
  "buckets_ok f ls \<Longrightarrow> sorted (map f l) \<Longrightarrow> l = [] \<or> length l = 2 ^ i \<Longrightarrow> buckets_ok f (ls[i := l])"
  unfolding buckets_ok_def by (auto simp: nth_upd)

lemma sort_carry_ok:
  fixes f :: "'a \<Rightarrow> 'b::linorder"
  assumes "buckets_ok f ls" "sorted (map f l)" "length l = 2 ^ i"
    and "length l + length (concat ls) < 2 ^ 63" "\<forall>j. e \<le> j \<and> j < 64 \<longrightarrow> ls ! j = []" "i \<le> e" "e \<le> 64"
  shows "\<exists>k ls'. sort_carry (\<lambda>x y. f x < f y) i l ls = Inr (k, ls') \<and> buckets_ok f ls' \<and>
    mset (concat ls') = mset l + mset (concat ls) \<and> k \<le> e \<and> k < 64 \<and>
    (\<forall>j. e \<le> j \<and> j < 64 \<and> j \<noteq> k \<longrightarrow> ls' ! j = [])"
  using assms
proof (induction "64 - i" arbitrary: i l ls)
  case 0
  then have "(2 :: nat) ^ 64 \<le> 2 ^ i" by (intro power_increasing) auto
  then show ?case using 0 by simp
next
  case (Suc d)
  have i: "i < 64" "i < length ls" using Suc.hyps(2) Suc.prems(1) by (auto simp: buckets_ok_def)
  have len: "length ls = 64" using Suc.prems(1) by (simp add: buckets_ok_def)
  show ?case
  proof (cases "ls ! i = []")
    case True
    have "mset (concat (ls[i := l])) = mset l + mset (concat ls)"
      using mset_concat_update [OF i(2), of l] True by (simp add: ac_simps)
    moreover have "buckets_ok f (ls[i := l])" using Suc.prems by (intro buckets_update) auto
    ultimately show ?thesis
      using True i Suc.prems(5,6) by (simp add: sort_carry.simps [of _ i])
  next
    case False
    then have b: "length (ls ! i) = 2 ^ i" "sorted (map f (ls ! i))"
      using Suc.prems(1) i by (auto simp: buckets_ok_def)
    let ?m = "merge_by (\<lambda>x y. f x < f y) l (ls ! i)"
    have m: "sorted (map f ?m)" "length ?m = 2 ^ Suc i"
      using sorted_merge_by Suc.prems(2,3) b by auto
    have ie: "Suc i \<le> e" using False Suc.prems(5,6) i by (metis Suc_leI le_neq_implies_less order.refl)
    have ms: "mset (concat (ls[i := []])) + mset (ls ! i) = mset (concat ls)"
      using mset_concat_update [OF i(2), of "[]"] by simp
    have sz: "length (concat (ls[i := []])) + length (ls ! i) = length (concat ls)"
      using arg_cong [OF ms, of size] by (simp flip: size_mset)
    have step: "sort_carry (\<lambda>x y. f x < f y) i l ls = sort_carry (\<lambda>x y. f x < f y) (Suc i) ?m (ls[i := []])"
      using i False Suc.prems(3) b by (simp add: sort_carry.simps [of _ i])
    have "\<exists>k ls'. sort_carry (\<lambda>x y. f x < f y) (Suc i) ?m (ls[i := []]) = Inr (k, ls') \<and>
      buckets_ok f ls' \<and> mset (concat ls') = mset ?m + mset (concat (ls[i := []])) \<and> k \<le> e \<and> k < 64 \<and>
      (\<forall>j. e \<le> j \<and> j < 64 \<and> j \<noteq> k \<longrightarrow> ls' ! j = [])"
    proof (rule Suc.hyps(1))
      show "d = 64 - Suc i" using Suc.hyps(2) by simp
      show "buckets_ok f (ls[i := []])" using Suc.prems(1) by (intro buckets_update) auto
      show "length ?m + length (concat (ls[i := []])) < 2 ^ 63" using Suc.prems(4) sz by simp
      show "\<forall>j. e \<le> j \<and> j < 64 \<longrightarrow> ls[i := []] ! j = []"
        using Suc.prems(5) len by (auto simp: nth_upd)
    qed (use m ie Suc.prems(7) in auto)
    moreover have "mset ?m + mset (concat (ls[i := []])) = mset l + mset (concat ls)"
      using ms by (simp add: ac_simps)
    ultimately show ?thesis unfolding step by (simp only: )
  qed
qed

lemma sort_loop_ok:
  fixes f :: "'a \<Rightarrow> 'b::linorder"
  assumes "buckets_ok f ls" "length xs + length (concat ls) < 2 ^ 63"
    and "\<forall>j. e \<le> j \<and> j < 64 \<longrightarrow> ls ! j = []" "e \<le> 64"
  shows "\<exists>e' ls'. sort_loop (\<lambda>x y. f x < f y) xs e ls = Inr (e', ls') \<and> buckets_ok f ls' \<and>
    mset (concat ls') = mset xs + mset (concat ls) \<and> e' \<le> 64 \<and> (\<forall>j. e' \<le> j \<and> j < 64 \<longrightarrow> ls' ! j = [])"
  using assms
proof (induction xs arbitrary: e ls)
  case (Cons x xs)
  obtain k ls1 where k: "sort_carry (\<lambda>x y. f x < f y) 0 [x] ls = Inr (k, ls1)" "buckets_ok f ls1"
      "mset (concat ls1) = mset [x] + mset (concat ls)" "k \<le> e" "k < 64"
      "\<forall>j. e \<le> j \<and> j < 64 \<and> j \<noteq> k \<longrightarrow> ls1 ! j = []"
    using sort_carry_ok [of f ls "[x]" 0 e] Cons.prems by auto
  let ?e = "if k = e then Suc e else e"
  have sz: "length (concat ls1) = Suc (length (concat ls))"
    using arg_cong [OF k(3), of size] by (simp flip: size_mset)
  have "\<exists>e' ls'. sort_loop (\<lambda>x y. f x < f y) xs ?e ls1 = Inr (e', ls') \<and> buckets_ok f ls' \<and>
    mset (concat ls') = mset xs + mset (concat ls1) \<and> e' \<le> 64 \<and> (\<forall>j. e' \<le> j \<and> j < 64 \<longrightarrow> ls' ! j = [])"
    by (rule Cons.IH [OF k(2)]) (use k(4-6) sz Cons.prems(2,4) in auto)
  then show ?case using k(1,3) by auto
qed auto

lemma sort_collect_ok:
  fixes f :: "'a \<Rightarrow> 'b::linorder"
  assumes "\<forall>i < e. sorted (map f (ls ! i))" "sorted (map f l)" "e \<le> length ls"
  shows "sorted (map f (sort_collect (\<lambda>x y. f x < f y) e ls l)) \<and>
    mset (sort_collect (\<lambda>x y. f x < f y) e ls l) = mset l + mset (concat (take e ls))"
  using assms
proof (induction e arbitrary: l)
  case (Suc e)
  have "sorted (map f (merge_by (\<lambda>x y. f x < f y) l (ls ! e)))"
    using Suc.prems by (intro sorted_merge_by) auto
  moreover have "mset (concat (take (Suc e) ls)) = mset (concat (take e ls)) + mset (ls ! e)"
    using Suc.prems(3) by (simp add: take_Suc_conv_app_nth)
  ultimately show ?case
    using Suc.IH [of "merge_by (\<lambda>x y. f x < f y) l (ls ! e)"] Suc.prems by (auto simp: ac_simps)
qed simp

lemma fl_sort_ok:
  fixes f :: "'a \<Rightarrow> 'b::linorder"
  assumes "length xs < 2 ^ 63"
  shows "\<exists>ys. fl_sort (\<lambda>x y. f x < f y) xs = Inr ys \<and> sorted (map f ys) \<and> mset ys = mset xs"
proof -
  have b: "buckets_ok f (replicate 64 [])" by (simp add: buckets_ok_def)
  obtain e ls where l: "sort_loop (\<lambda>x y. f x < f y) xs 0 (replicate 64 []) = Inr (e, ls)"
      "buckets_ok f ls" "mset (concat ls) = mset xs" "e \<le> 64" "\<forall>j. e \<le> j \<and> j < 64 \<longrightarrow> ls ! j = []"
    using sort_loop_ok [OF b, of xs 0] assms by auto
  have len: "length ls = 64" using l(2) by (simp add: buckets_ok_def)
  have "concat (drop e ls) = []"
    using l(5) len by (auto simp: in_set_conv_nth)
  then have "mset (concat (take e ls)) = mset (concat ls)"
    by (metis append_take_drop_id concat_append append_Nil2)
  then show ?thesis
    using sort_collect_ok [of e f ls "[]"] l len by (simp add: fl_sort_def buckets_ok_def)
qed

text \<open>C24. \<open>ForwardList::sort\<close> sorts: with the 64 buckets it never runs out of buckets on a list that
  fits in memory, and the result is a sorted permutation of the elements, for every
  comparison that compares keys of a total order.\<close>

theorem ForwardList_sort:
  fixes key :: "'a \<Rightarrow> 'b::linorder"
  assumes "length xs < 2 ^ 63"
  shows "\<exists>ys. fl_sort (\<lambda>x y. key x < key y) xs = Inr ys \<and> sorted (map key ys) \<and> mset ys = mset xs"
  using fl_sort_ok [OF assms] .

theorem ForwardList_sort_witness:
  "length [3, 1, 2, 5, 4 :: nat] < 2 ^ 63 \<and>
   fl_sort (\<lambda>x y. x < y) [3, 1, 2, 5, 4 :: nat] = Inr [1, 2, 3, 4, 5] \<and>
   (\<exists>ys. fl_sort (\<lambda>x y. x < y) [3, 1, 2, 5, 4 :: nat] = Inr ys \<and> sorted (map (\<lambda>x. x) ys) \<and>
     mset ys = mset [3, 1, 2, 5, 4])"
proof -
  have "fl_sort (\<lambda>x y. x < y) [3, 1, 2, 5, 4 :: nat] = Inr [1, 2, 3, 4, 5]" by code_simp
  then show ?thesis using ForwardList_sort [of "[3, 1, 2, 5, 4 :: nat]" "\<lambda>x. x"] by simp
qed

text \<open>\<open>sort2\<close>: three-way partition around the first element, then \<open>sort\<close> on the two sides.\<close>

fun sort2_partition ::
  "'a::linorder \<Rightarrow> 'a list \<Rightarrow> 'a list \<Rightarrow> 'a list \<Rightarrow> 'a list \<Rightarrow> 'a list \<times> 'a list \<times> 'a list" where
  "sort2_partition pivot [] ls eq ga = (ls, eq, ga)"
| "sort2_partition pivot (v # vs) ls eq ga =
     (if v < pivot then sort2_partition pivot vs (ls @ [v]) eq ga
      else if pivot < v then sort2_partition pivot vs ls eq (ga @ [v])
      else sort2_partition pivot vs ls (eq @ [v]) ga)"

definition fl_sort2 :: "'a::linorder list \<Rightarrow> 'a list res" where
  "fl_sort2 xs =
     (if length xs < 2 then Inr xs
      else if length xs = 2 then
        (if \<not> xs ! 0 < xs ! 1 then Inr (tl xs @ [hd xs]) else Inr xs)
      else (case sort2_partition (hd xs) (tl xs) [] [hd xs] [] of (ls, eq, ga) \<Rightarrow>
        rbind (fl_sort (\<lambda>x y. x < y) ls) (\<lambda>ls. rbind (fl_sort (\<lambda>x y. x < y) ga) (\<lambda>ga.
          Inr ((ls @ eq) @ ga)))))"

lemma sort2_partition_ok:
  assumes "sort2_partition p vs ls eq ga = (ls', eq', ga')"
    and "\<forall>x\<in>set ls. x < p" "\<forall>x\<in>set eq. x = p" "\<forall>x\<in>set ga. p < x"
  shows "(\<forall>x\<in>set ls'. x < p) \<and> (\<forall>x\<in>set eq'. x = p) \<and> (\<forall>x\<in>set ga'. p < x) \<and>
    mset ls' + mset eq' + mset ga' = mset vs + mset ls + mset eq + mset ga"
  using assms
proof (induction p vs ls eq ga rule: sort2_partition.induct)
  case (2 pivot v vs ls eq ga)
  consider "v < pivot" | "pivot < v" | "v = pivot" by (meson linorder_cases)
  then show ?case
  proof cases
    case 1
    then have "sort2_partition pivot vs (ls @ [v]) eq ga = (ls', eq', ga')" using "2.prems"(1) by simp
    from "2.IH"(1) [OF 1 this] 1 "2.prems"(2-4) show ?thesis by simp
  next
    case b: 2
    then have nb: "\<not> v < pivot" by simp
    then have "sort2_partition pivot vs ls eq (ga @ [v]) = (ls', eq', ga')" using "2.prems"(1) b by simp
    from "2.IH"(2) [OF nb b this] b "2.prems"(2-4) show ?thesis by simp
  next
    case 3
    then have "sort2_partition pivot vs ls (eq @ [v]) ga = (ls', eq', ga')" using "2.prems"(1) by simp
    moreover have "\<forall>x\<in>set (eq @ [v]). x = pivot" using "2.prems"(3) 3 by auto
    moreover have "\<not> v < pivot" "\<not> pivot < v" using 3 by simp_all
    ultimately have "(\<forall>x\<in>set ls'. x < pivot) \<and> (\<forall>x\<in>set eq'. x = pivot) \<and>
      (\<forall>x\<in>set ga'. pivot < x) \<and>
      mset ls' + mset eq' + mset ga' = mset vs + mset ls + mset (eq @ [v]) + mset ga"
      using "2.IH"(3) "2.prems"(2,4) by blast
    moreover have "mset vs + mset ls + mset (eq @ [v]) + mset ga = mset (v # vs) + mset ls + mset eq + mset ga"
      by simp
    ultimately show ?thesis by metis
  qed
qed (auto simp: ac_simps)

lemma fl_sort2_ok:
  fixes xs :: "'a::linorder list"
  assumes "length xs < 2 ^ 63"
  shows "\<exists>ys. fl_sort2 xs = Inr ys \<and> sorted ys \<and> mset ys = mset xs"
proof (cases "length xs \<le> 2")
  case True
  then consider "xs = []" | x where "xs = [x]" | x y where "xs = [x, y]"
    by (cases xs; cases "tl xs"; cases "tl (tl xs)") auto
  then show ?thesis by cases (auto simp: fl_sort2_def)
next
  case False
  then obtain p vs where xs: "xs = p # vs" by (cases xs) auto
  obtain ls eq ga where part: "sort2_partition p vs [] [p] [] = (ls, eq, ga)" by (metis prod_cases3)
  from sort2_partition_ok [OF part] have parts: "\<forall>x\<in>set ls. x < p" "\<forall>x\<in>set eq. x = p"
    "\<forall>x\<in>set ga. p < x" "mset ls + mset eq + mset ga = mset xs" using xs by (auto simp: ac_simps)
  have "length ls + length eq + length ga = length xs"
    using arg_cong [OF parts(4), of size] by simp
  then have "length ls < 2 ^ 63" "length ga < 2 ^ 63" using assms by auto
  with fl_sort_ok [of ls "\<lambda>x. x"] fl_sort_ok [of ga "\<lambda>x. x"] obtain ls' ga' where
    s: "fl_sort (\<lambda>x y. x < y) ls = Inr ls'" "sorted ls'" "mset ls' = mset ls"
    "fl_sort (\<lambda>x y. x < y) ga = Inr ga'" "sorted ga'" "mset ga' = mset ga" by auto
  have "fl_sort2 xs = Inr ((ls' @ eq) @ ga')"
    using False xs part s by (cases vs) (auto simp: fl_sort2_def)
  moreover have "set ls' = set ls" "set ga' = set ga" using s(3,6) by (metis set_mset_mset)+
  moreover have "sorted eq" using replicate_length_same [OF parts(2)] by (metis sorted_replicate)
  moreover have "x \<le> y" if "x \<in> set ls \<or> x \<in> set eq" "y \<in> set ga" for x y
    using that parts(1-3) by (metis less_imp_le order.strict_trans)
  moreover have "x \<le> y" if "x \<in> set ls" "y \<in> set eq" for x y
    using that parts(1,2) by (metis less_imp_le)
  ultimately have "sorted ((ls' @ eq) @ ga')"
    using s by (auto simp: sorted_append)
  then show ?thesis using \<open>fl_sort2 xs = _\<close> parts(4) s(3,6) by (simp add: add.assoc)
qed

text \<open>\<open>ForwardList::sort2\<close> (three-way partition) also returns a sorted permutation.\<close>

theorem ForwardList_sort2:
  fixes xs :: "'a::linorder list"
  assumes "length xs < 2 ^ 63"
  shows "\<exists>ys. fl_sort2 xs = Inr ys \<and> sorted ys \<and> mset ys = mset xs"
  using fl_sort2_ok [OF assms] .

theorem ForwardList_sort2_witness:
  "length [3, 1, 3, 5, 4 :: nat] < 2 ^ 63 \<and> fl_sort2 [3, 1, 3, 5, 4 :: nat] = Inr [1, 3, 3, 4, 5] \<and>
   (\<exists>ys. fl_sort2 [3, 1, 3, 5, 4 :: nat] = Inr ys \<and> sorted ys \<and> mset ys = mset [3, 1, 3, 5, 4])"
proof -
  have "fl_sort2 [3, 1, 3, 5, 4 :: nat] = Inr [1, 3, 3, 4, 5]" by code_simp
  then show ?thesis using ForwardList_sort2 [of "[3, 1, 3, 5, 4 :: nat]"] by simp
qed

section \<open>Searching and removing\<close>

text \<open>Values at positions: the node after position \<open>k\<close> is \<open>xs ! k\<close>.\<close>

definition vl_erase_after :: "nat \<Rightarrow> 'a list \<Rightarrow> 'a list res" where
  "vl_erase_after k xs = (if k < length xs then Inr (take k xs @ drop (Suc k) xs) else Inl AssertFail)"

function search_before :: "('a \<Rightarrow> bool) \<Rightarrow> nat option \<Rightarrow> 'a list \<Rightarrow> nat option" where
  "search_before pred None xs = None"
| "search_before pred (Some k) xs =
     (if k < length xs then (if pred (xs ! k) then Some k else search_before pred (Some (Suc k)) xs)
      else None)"
  by pat_completeness auto
termination
  by (relation "measure (\<lambda>(pred, pos, xs). length xs - the pos)") auto

declare search_before.simps(2) [simp del]

lemma search_before_bounds:
  "search_before pred (Some k) xs = Some j \<Longrightarrow> k \<le> j \<and> j < length xs"
proof (induction pred "Some k" xs arbitrary: k rule: search_before.induct)
  case (2 pred k xs)
  then show ?case by (cases "k < length xs") (auto simp: search_before.simps(2) [of _ k] split: if_splits)
qed

text \<open>The loop of \<open>remove_if\<close>: the count so far, the position before the next hit, the list.\<close>

function remove_if_loop :: "('a \<Rightarrow> bool) \<Rightarrow> nat \<Rightarrow> nat option \<Rightarrow> 'a list \<Rightarrow> nat \<times> 'a list" where
  "remove_if_loop pred cnt it xs =
     (case it of
        None \<Rightarrow> (cnt, xs)
      | Some k \<Rightarrow>
          (case vl_erase_after k xs of
             Inl _ \<Rightarrow> (cnt, xs)
           | Inr ys \<Rightarrow> remove_if_loop pred (Suc cnt) (search_before pred (Some k) ys) ys))"
  by pat_completeness auto
termination
  by (relation "measure (\<lambda>(pred, cnt, it, xs). length xs)")
     (auto simp: vl_erase_after_def split: if_splits)

declare remove_if_loop.simps [simp del]

definition fl_remove_if :: "('a \<Rightarrow> bool) \<Rightarrow> 'a list \<Rightarrow> nat \<times> 'a list" where
  "fl_remove_if pred xs = remove_if_loop pred 0 (search_before pred (Some 0) xs) xs"

lemma remove_if_loop_search:
  assumes "\<forall>x\<in>set xs. \<not> pred x" "k = length xs"
  shows "remove_if_loop pred cnt (search_before pred (Some k) (xs @ ys)) (xs @ ys)
    = (cnt + length (filter pred ys), xs @ filter (\<lambda>x. \<not> pred x) ys)"
  using assms
proof (induction ys arbitrary: xs k cnt)
  case Nil
  then show ?case by (simp add: search_before.simps(2) remove_if_loop.simps)
next
  case (Cons y ys)
  show ?case
  proof (cases "pred y")
    case True
    have "search_before pred (Some k) (xs @ y # ys) = Some k"
      using True Cons.prems by (simp add: search_before.simps(2))
    moreover have "vl_erase_after k (xs @ y # ys) = Inr (xs @ ys)"
      using Cons.prems by (simp add: vl_erase_after_def)
    ultimately show ?thesis
      using True Cons.IH [OF Cons.prems(1,2), of "Suc cnt"] by (subst remove_if_loop.simps) simp
  next
    case False
    have "search_before pred (Some k) (xs @ y # ys) = search_before pred (Some (Suc k)) ((xs @ [y]) @ ys)"
      using False Cons.prems by (subst search_before.simps(2)) simp
    then show ?thesis
      using False Cons.IH [of "xs @ [y]" "Suc k" cnt] Cons.prems by simp
  qed
qed

text \<open>\<open>ForwardList::remove_if\<close> removes exactly the elements that satisfy the predicate, keeps the
  order of the others, and returns the number removed.\<close>

theorem ForwardList_remove_if:
  "fl_remove_if pred xs = (length (filter pred xs), filter (\<lambda>x. \<not> pred x) xs)"
  using remove_if_loop_search [of "[]" pred 0 0 xs] by (simp add: fl_remove_if_def)

text \<open>\<open>unique\<close>: the position \<open>beg\<close> and the count; \<open>pred\<close> compares the next two elements.\<close>

function unique_loop :: "('a \<Rightarrow> 'a \<Rightarrow> bool) \<Rightarrow> nat \<Rightarrow> nat \<Rightarrow> 'a list \<Rightarrow> nat \<times> 'a list" where
  "unique_loop pred cnt k xs =
     (if Suc k < length xs then
        (if pred (xs ! k) (xs ! Suc k)
         then unique_loop pred (Suc cnt) k (take (Suc k) xs @ drop (Suc (Suc k)) xs)
         else unique_loop pred cnt (Suc k) xs)
      else (cnt, xs))"
  by pat_completeness auto
termination
  by (relation "measure (\<lambda>(pred, cnt, k, xs). length xs - k)") auto

declare unique_loop.simps [simp del]

definition fl_unique :: "('a \<Rightarrow> 'a \<Rightarrow> bool) \<Rightarrow> 'a list \<Rightarrow> nat \<times> 'a list" where
  "fl_unique pred xs = unique_loop pred 0 0 xs"

lemma unique_loop_remdups:
  "unique_loop (=) cnt (length xs) (xs @ y # ys)
   = (cnt + (length (y # ys) - length (remdups_adj (y # ys))), xs @ remdups_adj (y # ys))"
proof (induction ys arbitrary: xs y cnt)
  case Nil
  then show ?case by (simp add: unique_loop.simps)
next
  case (Cons z ys)
  have le: "length (remdups_adj (z # ys)) \<le> Suc (length ys)"
    using remdups_adj_length [of "z # ys"] by simp
  show ?case
  proof (cases "y = z")
    case True
    have "unique_loop (=) cnt (length xs) (xs @ y # z # ys)
      = unique_loop (=) (Suc cnt) (length xs) (xs @ y # ys)"
      using True by (subst unique_loop.simps) (simp add: nth_append)
    then show ?thesis using True Cons.IH [of "Suc cnt" xs y] le by (auto simp: Suc_diff_le)
  next
    case False
    have "unique_loop (=) cnt (length xs) (xs @ y # z # ys)
      = unique_loop (=) cnt (length (xs @ [y])) ((xs @ [y]) @ z # ys)"
      using False by (subst unique_loop.simps) (simp add: nth_append)
    then show ?thesis using False Cons.IH [of cnt "xs @ [y]" z] by simp
  qed
qed

lemma fl_unique_remdups:
  "fl_unique (=) xs = (length xs - length (remdups_adj xs), remdups_adj xs)"
proof (cases xs)
  case Nil
  then show ?thesis unfolding fl_unique_def by (subst unique_loop.simps) simp
next
  case (Cons y ys)
  then show ?thesis using unique_loop_remdups [of 0 "[]" y ys] by (simp add: fl_unique_def)
qed

section \<open>Assignment, resizing and comparison\<close>

text \<open>\<open>assign(count, value)\<close>: the loop over the existing nodes gives the remaining count and the
  overwritten list. \<open>count\<close> is unsigned, so the branch \<open>count < 0\<close>, which would erase the
  rest, is dead.\<close>

fun assign_loop :: "nat \<Rightarrow> 'a \<Rightarrow> 'a list \<Rightarrow> nat \<times> 'a list" where
  "assign_loop (Suc c) v (x # xs) = (case assign_loop c v xs of (c', ys) \<Rightarrow> (c', v # ys))"
| "assign_loop c v xs = (c, xs)"

definition fl_assign_count :: "nat \<Rightarrow> 'a \<Rightarrow> 'a list \<Rightarrow> 'a list" where
  "fl_assign_count cnt v xs =
     (case assign_loop cnt v xs of (c, ys) \<Rightarrow> if 0 < c then replicate c v @ ys else ys)"

lemma assign_loop_eq:
  "assign_loop c v xs = (c - length xs, replicate (min c (length xs)) v @ drop c xs)"
  by (induction c v xs rule: assign_loop.induct) auto

text \<open>\<open>assign(first, last)\<close> and the copy assignment built on it.\<close>

fun fl_assign_range :: "'a list \<Rightarrow> 'a list \<Rightarrow> 'a list" where
  "fl_assign_range (y # ys) (x # xs) = y # fl_assign_range ys xs"
| "fl_assign_range ys [] = ys"
| "fl_assign_range [] (x # xs) = []"

definition fl_copy_assign :: "'a list \<Rightarrow> 'a list \<Rightarrow> 'a list" where
  "fl_copy_assign other xs = fl_assign_range other xs"

fun push_back_times :: "nat \<Rightarrow> 'a \<Rightarrow> 'a list \<Rightarrow> 'a list" where
  "push_back_times 0 v xs = xs"
| "push_back_times (Suc n) v xs = push_back_times n v (xs @ [v])"

function erase_rest :: "nat \<Rightarrow> 'a list \<Rightarrow> 'a list" where
  "erase_rest k xs = (if k < length xs then erase_rest k (take k xs @ drop (Suc k) xs) else xs)"
  by pat_completeness auto
termination
  by (relation "measure (\<lambda>(k, xs). length xs)") auto

declare erase_rest.simps [simp del]

definition fl_resize :: "nat \<Rightarrow> 'a \<Rightarrow> 'a list \<Rightarrow> 'a list" where
  "fl_resize n v xs =
     (if length xs \<le> n then push_back_times (n - length xs) v xs else erase_rest n xs)"

fun insert_after_range :: "nat \<Rightarrow> 'a list \<Rightarrow> 'a list \<Rightarrow> 'a list" where
  "insert_after_range k [] xs = xs"
| "insert_after_range k (v # vs) xs = insert_after_range (Suc k) vs (take k xs @ v # drop k xs)"

definition insert_after_count :: "nat \<Rightarrow> nat \<Rightarrow> 'a \<Rightarrow> 'a list \<Rightarrow> 'a list" where
  "insert_after_count k cnt v xs = insert_after_range k (replicate cnt v) xs"

text \<open>\<open>operator==\<close> is \<open>std::equal\<close> with three iterators: it reads the second list as far as the first
  one goes.\<close>

fun fl_equal :: "'a list \<Rightarrow> 'a list \<Rightarrow> bool res" where
  "fl_equal [] ys = Inr True"
| "fl_equal (x # xs) [] = Inl NullDeref"
| "fl_equal (x # xs) (y # ys) = (if x = y then fl_equal xs ys else Inr False)"

fun fl_less :: "'a::linorder list \<Rightarrow> 'a list \<Rightarrow> bool" where
  "fl_less [] ys \<longleftrightarrow> ys \<noteq> []"
| "fl_less (x # xs) [] \<longleftrightarrow> False"
| "fl_less (x # xs) (y # ys) \<longleftrightarrow> x < y \<or> (\<not> y < x \<and> fl_less xs ys)"

lemma fl_assign_range_eq: "fl_assign_range ys xs = ys"
  by (induction ys xs rule: fl_assign_range.induct) auto

lemma push_back_times_eq: "push_back_times n v xs = xs @ replicate n v"
  by (induction n arbitrary: xs) (simp_all add: replicate_app_Cons_same)

lemma erase_rest_eq: "erase_rest k xs = take k xs"
proof (induction k xs rule: erase_rest.induct)
  case (1 k xs)
  then show ?case by (cases "k < length xs") (simp_all add: erase_rest.simps [of k xs] min_def)
qed

lemma insert_after_range_eq:
  "k \<le> length xs \<Longrightarrow> insert_after_range k vs xs = take k xs @ vs @ drop k xs"
proof (induction vs arbitrary: k xs)
  case (Cons v vs)
  then show ?case by (simp add: Cons.IH min_def)
qed simp

lemma fl_resize_eq: "fl_resize n v xs = take n xs @ replicate (n - length xs) v"
  by (simp add: fl_resize_def push_back_times_eq erase_rest_eq)

text \<open>\<open>assign(count, value)\<close> does not shorten a longer list: it overwrites the first elements
  and keeps the rest, so that the list ends up with the larger of the two lengths. Assignment from
  a range or from another list, resizing and inserting ranges do what their names say.\<close>

theorem ForwardList_assign_keeps_tail:
  "fl_assign_count cnt v xs = replicate cnt v @ drop cnt xs \<and>
   fl_copy_assign ys xs = ys \<and>
   fl_resize n v xs = take n xs @ replicate (n - length xs) v"
  by (auto simp: fl_assign_count_def assign_loop_eq fl_copy_assign_def fl_assign_range_eq
      fl_resize_eq min_def simp flip: replicate_add append_assoc)

lemma fl_equal_prefix: "fl_equal xs (xs @ zs) = Inr True"
  by (induction xs) auto

end
