(* ===== verification/Timer_Queue.thy ===== *)
theory Timer_Queue
  imports Kanon_Prelude
begin

text \<open>
  Model of \<^verbatim>\<open>kanon/net/timer/timer.h\<close>, \<^verbatim>\<open>timer_id.h\<close> and \<^verbatim>\<open>kanon/linux/net/timer/timer_queue.{h,cc}\<close>. Timers are
  objects on a heap, named by their address; the ordered set of active timers is the list of its
  elements in order. A time is a number of microseconds; the interval of a timer, a \<open>double\<close> in the code,
  is the number of microseconds \<open>AddTime\<close> adds for it, with the test \<open>interval_ > 0.0\<close> kept apart. The
  callbacks are user code: a parameter says which operations on the queue a callback performs.
\<close>

section \<open>Timers\<close>

record timer =
  ti_callback :: nat
  ti_expiration :: int
  ti_interval :: int
  ti_repeat :: bool
  ti_sequence :: nat

definition Timer_restart :: "timer \<Rightarrow> int \<Rightarrow> timer" where
  "Timer_restart t now = t\<lparr>ti_expiration := now + ti_interval t\<rparr>"

text \<open>An entry of the set, also what a \<open>TimerId\<close> holds: address and sequence number.\<close>

type_synonym timer_entry = "nat \<times> nat"

text \<open>\<open>tq_armed\<close> is the time at which \<open>timerfd\<close> fires next, if it is set. \<open>tq_canceling\<close> holds the entries
  with the second in which they were inserted, the seed of their hash. \<open>tq_run\<close> records the timers
  whose callbacks have run.\<close>

record timer_queue =
  tq_heap :: "nat \<Rightarrow> timer option"
  tq_counter :: nat
  tq_timers :: "timer_entry list"
  tq_calling :: bool
  tq_canceling :: "(timer_entry \<times> int) list"
  tq_armed :: "int option"
  tq_run :: "timer_entry list"

definition TimerQueue :: timer_queue where
  "TimerQueue = \<lparr>tq_heap = (\<lambda>_. None), tq_counter = 0, tq_timers = [], tq_calling = False,
     tq_canceling = [], tq_armed = None, tq_run = []\<rparr>"

text \<open>The expiration read through a pointer.\<close>

definition expiration :: "timer_queue \<Rightarrow> nat \<Rightarrow> int" where
  "expiration q p = (case tq_heap q p of None \<Rightarrow> 0 | Some t \<Rightarrow> ti_expiration t)"

text \<open>\<open>TimerEntryCompare\<close> on the expirations and sequence numbers of two entries.\<close>

definition entry_less :: "int \<times> nat \<Rightarrow> int \<times> nat \<Rightarrow> bool" where
  "entry_less x y = (let res = fst x - fst y in if res = 0 then snd x < snd y else res < 0)"

abbreviation entry_key :: "timer_queue \<Rightarrow> timer_entry \<Rightarrow> int \<times> nat" where
  "entry_key q e \<equiv> (expiration q (fst e), snd e)"

text \<open>Insertion into and search in the ordered set: two elements are the same when neither is less.\<close>

fun set_insert :: "('e \<Rightarrow> int \<times> nat) \<Rightarrow> 'e \<Rightarrow> 'e list \<Rightarrow> 'e list" where
  "set_insert key e [] = [e]"
| "set_insert key e (x # xs) =
     (if entry_less (key e) (key x) then e # x # xs
      else if entry_less (key x) (key e) then x # set_insert key e xs
      else x # xs)"

definition set_member :: "('e \<Rightarrow> int \<times> nat) \<Rightarrow> 'e \<Rightarrow> 'e \<Rightarrow> bool" where
  "set_member key e x \<longleftrightarrow> \<not> entry_less (key e) (key x) \<and> \<not> entry_less (key x) (key e)"

section \<open>Operations\<close>

text \<open>\<open>GetTimeFromNow\<close> and \<open>SetTimerFd\<close>: the descriptor is set relative to the current time, at least
  100 microseconds ahead. There is one clock here: the deadlines are those of \<open>gettimeofday\<close> and the descriptor counts on
  \<open>CLOCK_MONOTONIC\<close>, which differ when the time of the system is set. A failure of \<open>timerfd_settime\<close>, which the code only logs, is not modelled.\<close>

definition GetTimeFromNow :: "int \<Rightarrow> int \<Rightarrow> int" where
  "GetTimeFromNow now t = (let interval = t - now in if interval < 100 then 100 else interval)"

definition SetTimerFd :: "int \<Rightarrow> int \<Rightarrow> timer_queue \<Rightarrow> timer_queue" where
  "SetTimerFd now t q = q\<lparr>tq_armed := Some (now + GetTimeFromNow now t)\<rparr>"

definition Emplace :: "timer_queue \<Rightarrow> nat \<Rightarrow> (bool \<times> timer_queue) res" where
  "Emplace q p =
     (case tq_heap q p of
        None \<Rightarrow> Inl UseAfterFree
      | Some t \<Rightarrow>
          let ret = (case tq_timers q of [] \<Rightarrow> True | e # _ \<Rightarrow> ti_expiration t < expiration q (fst e)) in
          Inr (ret, q\<lparr>tq_timers := set_insert (entry_key q) (p, ti_sequence t) (tq_timers q)\<rparr>))"

text \<open>\<open>AddTimer\<close>: the timer is created in the calling thread, at an address the allocator chooses; the
  rest runs in the loop.\<close>

definition new_timer :: "nat \<Rightarrow> nat \<Rightarrow> int \<Rightarrow> int \<Rightarrow> bool \<Rightarrow> timer_queue \<Rightarrow> timer_queue" where
  "new_timer p cb time interval repeat q =
     q\<lparr>tq_heap := (tq_heap q)(p \<mapsto> \<lparr>ti_callback = cb, ti_expiration = time, ti_interval = interval,
          ti_repeat = repeat, ti_sequence = tq_counter q\<rparr>),
       tq_counter := tq_counter q + 1\<rparr>"

definition AddTimer_in_loop :: "int \<Rightarrow> nat \<Rightarrow> timer_queue \<Rightarrow> timer_queue res" where
  "AddTimer_in_loop now p q =
     rbind (Emplace q p) (\<lambda>(earliest_update, q).
       Inr (if earliest_update then SetTimerFd now (expiration q p) q else q))"

definition AddTimer ::
  "int \<Rightarrow> nat \<Rightarrow> nat \<Rightarrow> int \<Rightarrow> int \<Rightarrow> bool \<Rightarrow> timer_queue \<Rightarrow> (timer_entry \<times> timer_queue) res" where
  "AddTimer now p cb time interval repeat q =
     rbind (AddTimer_in_loop now p (new_timer p cb time interval repeat q)) (\<lambda>q'. Inr ((p, tq_counter q), q'))"

text \<open>\<open>timers_.find({id.timer_, id.seq_})\<close> reads the expiration of the timer of the id as soon as the set
  has an element to compare it with. A cancelled timer is not deleted.\<close>

definition CancelTimer :: "int \<Rightarrow> timer_entry \<Rightarrow> timer_queue \<Rightarrow> timer_queue res" where
  "CancelTimer sec tid q =
     (if tq_timers q \<noteq> [] \<and> tq_heap q (fst tid) = None then Inl UseAfterFree
      else if \<exists>e\<in>set (tq_timers q). set_member (entry_key q) tid e
      then Inr (q\<lparr>tq_timers := filter (\<lambda>e. \<not> set_member (entry_key q) tid e) (tq_timers q)\<rparr>)
      else if tq_calling q then Inr (q\<lparr>tq_canceling := (tid, sec) # tq_canceling q\<rparr>)
      else Inr q)"

text \<open>\<open>GetExpiredTimers\<close>: the entries before the lower bound of \<open>(now, UINT64_MAX)\<close>. The dummy key takes
  a sequence number.\<close>

definition GetExpiredTimers :: "int \<Rightarrow> timer_queue \<Rightarrow> timer_entry list \<times> timer_queue" where
  "GetExpiredTimers now q =
     (let before = (\<lambda>e. entry_less (entry_key q e) (now, 2 ^ 64 - 1)) in
      (takeWhile before (tq_timers q),
       q\<lparr>tq_timers := dropWhile before (tq_timers q), tq_counter := tq_counter q + 1\<rparr>))"

text \<open>What a callback does to the queue: it may add timers, cancel timers or throw.\<close>

datatype timer_action = ActAdd nat int int bool | ActCancel timer_entry | ActThrow

fun run_actions ::
  "((nat \<Rightarrow> timer option) \<Rightarrow> nat) \<Rightarrow> int \<Rightarrow> int \<Rightarrow> timer_action list \<Rightarrow> timer_queue \<Rightarrow> timer_queue res" where
  "run_actions alloc now sec [] q = Inr q"
| "run_actions alloc now sec (ActAdd cb time interval repeat # as) q =
     rbind (AddTimer now (alloc (tq_heap q)) cb time interval repeat q)
       (\<lambda>(_, q). run_actions alloc now sec as q)"
| "run_actions alloc now sec (ActCancel tid # as) q =
     rbind (CancelTimer sec tid q) (\<lambda>q. run_actions alloc now sec as q)"
| "run_actions alloc now sec (ActThrow # as) q = Inl Exn"

fun run_timers ::
  "((nat \<Rightarrow> timer option) \<Rightarrow> nat) \<Rightarrow> (nat \<Rightarrow> timer_action list) \<Rightarrow> int \<Rightarrow> int \<Rightarrow> timer_entry list \<Rightarrow>
   timer_queue \<Rightarrow> timer_queue res" where
  "run_timers alloc act now sec [] q = Inr q"
| "run_timers alloc act now sec (e # es) q =
     (case tq_heap q (fst e) of
        None \<Rightarrow> Inl UseAfterFree
      | Some t \<Rightarrow>
          rbind (run_actions alloc now sec (act (ti_callback t)) (q\<lparr>tq_run := tq_run q @ [e]\<rparr>))
            (\<lambda>q. run_timers alloc act now sec es q))"

text \<open>Search in \<open>canceling_timers_\<close>: the hash is seeded with the current second, so an entry is found
  when its hash of now is the one it was inserted with.\<close>

definition canceling_find ::
  "(int \<Rightarrow> timer_entry \<Rightarrow> nat) \<Rightarrow> int \<Rightarrow> timer_entry \<Rightarrow> timer_queue \<Rightarrow> bool" where
  "canceling_find hash sec e q \<longleftrightarrow> (\<exists>x\<in>set (tq_canceling q). fst x = e \<and> hash (snd x) e = hash sec e)"

fun reset_loop ::
  "(int \<Rightarrow> timer_entry \<Rightarrow> nat) \<Rightarrow> int \<Rightarrow> int \<Rightarrow> timer_entry list \<Rightarrow> timer_queue \<Rightarrow> timer_queue res" where
  "reset_loop hash now sec [] q = Inr q"
| "reset_loop hash now sec (e # es) q =
     (case tq_heap q (fst e) of
        None \<Rightarrow> Inl UseAfterFree
      | Some t \<Rightarrow>
          if ti_repeat t then
            if canceling_find hash sec (fst e, ti_sequence t) q then reset_loop hash now sec es q
            else
              rbind (Emplace (q\<lparr>tq_heap := (tq_heap q)(fst e \<mapsto> Timer_restart t now)\<rparr>) (fst e))
                (\<lambda>(_, q). reset_loop hash now sec es q)
          else reset_loop hash now sec es (q\<lparr>tq_heap := (tq_heap q)(fst e := None)\<rparr>))"

definition ResetTimers ::
  "(int \<Rightarrow> timer_entry \<Rightarrow> nat) \<Rightarrow> int \<Rightarrow> int \<Rightarrow> int \<Rightarrow> timer_entry list \<Rightarrow> timer_queue \<Rightarrow> timer_queue res" where
  "ResetTimers hash now now' sec es q =
     rbind (reset_loop hash now sec es q) (\<lambda>q.
       Inr (case tq_timers q of [] \<Rightarrow> q | e # _ \<Rightarrow> SetTimerFd now' (expiration q (fst e)) q))"

text \<open>\<open>ProcessAllExpiredTimers\<close>, the read callback of the descriptor: \<open>now\<close> is the time read at its start, \<open>now'\<close>
  the one at its end, \<open>sec\<close> and \<open>sec'\<close> the seconds in which the callbacks run and the timers are reset.\<close>

definition ProcessAllExpiredTimers ::
  "((nat \<Rightarrow> timer option) \<Rightarrow> nat) \<Rightarrow> (nat \<Rightarrow> timer_action list) \<Rightarrow> (int \<Rightarrow> timer_entry \<Rightarrow> nat) \<Rightarrow>
   int \<Rightarrow> int \<Rightarrow> int \<Rightarrow> int \<Rightarrow> timer_queue \<Rightarrow> timer_queue res" where
  "ProcessAllExpiredTimers alloc act hash now now' sec sec' q =
     (let (expired_timers, q) = GetExpiredTimers now (q\<lparr>tq_armed := None\<rparr>) in
      rbind (run_timers alloc act now sec expired_timers (q\<lparr>tq_canceling := [], tq_calling := True\<rparr>)) (\<lambda>q.
        ResetTimers hash now now' sec' expired_timers (q\<lparr>tq_calling := False\<rparr>)))"

section \<open>The ordered set\<close>

lemma entry_less_iff:
  "entry_less x y \<longleftrightarrow> fst x < fst y \<or> fst x = fst y \<and> snd x < snd y"
  by (auto simp: entry_less_def Let_def)

lemma entry_less_trans: "entry_less x y \<Longrightarrow> entry_less y z \<Longrightarrow> entry_less x z"
  by (auto simp: entry_less_iff)

lemma set_member_iff: "set_member key e x \<longleftrightarrow> key e = key x"
  by (auto simp: set_member_def entry_less_iff prod_eq_iff)

lemma set_set_insert:
  "\<forall>x\<in>set xs. key e \<noteq> key x \<Longrightarrow> set (set_insert key e xs) = insert e (set xs)"
  by (induction xs) (auto simp: entry_less_iff prod_eq_iff)

lemma sorted_set_insert:
  assumes "sorted_wrt (\<lambda>x y. entry_less (key x) (key y)) xs" "\<forall>x\<in>set xs. key e \<noteq> key x"
  shows "sorted_wrt (\<lambda>x y. entry_less (key x) (key y)) (set_insert key e xs)"
  using assms
proof (induction xs)
  case (Cons x xs)
  have ins: "set (set_insert key e xs) = insert e (set xs)"
    by (rule set_set_insert) (use Cons.prems(2) in simp)
  have "sorted_wrt (\<lambda>x y. entry_less (key x) (key y)) (set_insert key e xs)"
    by (rule Cons.IH) (use Cons.prems in simp_all)
  then show ?case
    using Cons.prems(1) ins by (auto intro: entry_less_trans)
qed simp

lemma hd_set_insert:
  "xs \<noteq> [] \<Longrightarrow> \<not> entry_less (key e) (key (List.hd xs)) \<Longrightarrow> List.hd (set_insert key e xs) = List.hd xs"
  by (cases xs) auto

lemma set_insert_cong:
  "key e = key' e \<Longrightarrow> \<forall>x\<in>set xs. key x = key' x \<Longrightarrow> set_insert key e xs = set_insert key' e xs"
  by (induction xs) auto

section \<open>Invariant\<close>

text \<open>The entries are alive, carry the number of their timer and stand in order; numbers are unique.\<close>

definition tq_ok :: "timer_queue \<Rightarrow> bool" where
  "tq_ok q \<longleftrightarrow>
     (\<forall>e\<in>set (tq_timers q). \<exists>t. tq_heap q (fst e) = Some t \<and> ti_sequence t = snd e) \<and>
     sorted_wrt (\<lambda>x y. entry_less (entry_key q x) (entry_key q y)) (tq_timers q) \<and>
     (\<forall>p t. tq_heap q p = Some t \<longrightarrow> ti_sequence t < tq_counter q) \<and>
     (\<forall>p p' t t'. tq_heap q p = Some t \<longrightarrow> tq_heap q p' = Some t' \<longrightarrow> ti_sequence t = ti_sequence t' \<longrightarrow> p = p') \<and>
     finite (dom (tq_heap q))"

text \<open>The descriptor fires no later than the first timer expires, or 100 microseconds from now.\<close>

definition armed_ok :: "int \<Rightarrow> timer_queue \<Rightarrow> bool" where
  "armed_ok now q \<longleftrightarrow>
     (tq_timers q \<noteq> [] \<longrightarrow>
       (\<exists>a. tq_armed q = Some a \<and> a \<le> max (expiration q (fst (List.hd (tq_timers q)))) (now + 100)))"

lemma tq_okD:
  assumes "tq_ok q"
  shows "e \<in> set (tq_timers q) \<Longrightarrow> \<exists>t. tq_heap q (fst e) = Some t \<and> ti_sequence t = snd e"
    and "sorted_wrt (\<lambda>x y. entry_less (entry_key q x) (entry_key q y)) (tq_timers q)"
    and "tq_heap q p = Some t \<Longrightarrow> ti_sequence t < tq_counter q"
    and "tq_heap q p = Some t \<Longrightarrow> tq_heap q p' = Some t' \<Longrightarrow> ti_sequence t = ti_sequence t' \<Longrightarrow> p = p'"
    and "finite (dom (tq_heap q))"
  using assms unfolding tq_ok_def by blast+

lemma tq_okI:
  assumes "\<And>e. e \<in> set (tq_timers q) \<Longrightarrow> \<exists>t. tq_heap q (fst e) = Some t \<and> ti_sequence t = snd e"
    and "sorted_wrt (\<lambda>x y. entry_less (entry_key q x) (entry_key q y)) (tq_timers q)"
    and "\<And>p t. tq_heap q p = Some t \<Longrightarrow> ti_sequence t < tq_counter q"
    and "\<And>p p' t t'. tq_heap q p = Some t \<Longrightarrow> tq_heap q p' = Some t' \<Longrightarrow> ti_sequence t = ti_sequence t' \<Longrightarrow> p = p'"
    and "finite (dom (tq_heap q))"
  shows "tq_ok q"
  unfolding tq_ok_def using assms by blast

text \<open>Entries of one address are one entry; keys tell entries apart.\<close>

lemma tq_entry_unique:
  "tq_ok q \<Longrightarrow> e \<in> set (tq_timers q) \<Longrightarrow> tq_heap q (fst e') = Some t \<Longrightarrow> ti_sequence t = snd e' \<Longrightarrow>
   fst e = fst e' \<or> snd e = snd e' \<Longrightarrow> e = e'"
  by (metis option.inject prod_eqI tq_okD(1,4))

lemma expiration_upd [simp]:
  "expiration (q\<lparr>tq_timers := a\<rparr>) p = expiration q p"
  "expiration (q\<lparr>tq_counter := n\<rparr>) p = expiration q p"
  "expiration (q\<lparr>tq_armed := x\<rparr>) p = expiration q p"
  "expiration (q\<lparr>tq_calling := b\<rparr>) p = expiration q p"
  "expiration (q\<lparr>tq_canceling := c\<rparr>) p = expiration q p"
  "expiration (q\<lparr>tq_run := r\<rparr>) p = expiration q p"
  by (simp_all add: expiration_def)

text \<open>Only the heap, the counter and the set matter.\<close>

lemma tq_ok_upd [simp]:
  "tq_ok (q\<lparr>tq_armed := x\<rparr>) = tq_ok q"
  "tq_ok (q\<lparr>tq_calling := b\<rparr>) = tq_ok q"
  "tq_ok (q\<lparr>tq_canceling := c\<rparr>) = tq_ok q"
  "tq_ok (q\<lparr>tq_run := r\<rparr>) = tq_ok q"
  by (simp_all add: tq_ok_def)

text \<open>A timer that is alive and not in the set enters it at its place.\<close>

lemma Emplace_ok:
  assumes "tq_ok q" "tq_heap q p = Some t" "(p, ti_sequence t) \<notin> set (tq_timers q)"
  shows "\<exists>r xs. Emplace q p = Inr (r, q\<lparr>tq_timers := xs\<rparr>) \<and> tq_ok (q\<lparr>tq_timers := xs\<rparr>) \<and>
    set xs = insert (p, ti_sequence t) (set (tq_timers q)) \<and>
    r = (tq_timers q = [] \<or> ti_expiration t < expiration q (fst (List.hd (tq_timers q)))) \<and>
    xs = set_insert (entry_key q) (p, ti_sequence t) (tq_timers q)"
proof -
  define e where "e = (p, ti_sequence t)"
  define xs where "xs = set_insert (entry_key q) e (tq_timers q)"
  have ne: "\<forall>x\<in>set (tq_timers q). entry_key q e \<noteq> entry_key q x"
  proof (intro ballI notI)
    fix x assume x: "x \<in> set (tq_timers q)" and "entry_key q e = entry_key q x"
    then have "x = e"
      using tq_entry_unique [OF assms(1) x, of e t] assms(2) by (simp add: e_def)
    with x assms(3) show False by (simp add: e_def)
  qed
  have set: "set xs = insert e (set (tq_timers q))"
    unfolding xs_def by (rule set_set_insert [OF ne])
  have "tq_ok (q\<lparr>tq_timers := xs\<rparr>)"
  proof (rule tq_okI)
    show "sorted_wrt (\<lambda>x y. entry_less (entry_key (q\<lparr>tq_timers := xs\<rparr>) x) (entry_key (q\<lparr>tq_timers := xs\<rparr>) y))
        (tq_timers (q\<lparr>tq_timers := xs\<rparr>))"
      using sorted_set_insert [OF tq_okD(2) [OF assms(1)] ne] by (simp add: xs_def)
  qed (use tq_okD [OF assms(1)] set assms(2) in \<open>auto simp: e_def\<close>)
  moreover have "(case tq_timers q of [] \<Rightarrow> True | e # _ \<Rightarrow> ti_expiration t < expiration q (fst e)) =
      (tq_timers q = [] \<or> ti_expiration t < expiration q (fst (List.hd (tq_timers q))))"
    by (cases "tq_timers q") auto
  ultimately show ?thesis
    using assms(2) set by (auto simp: Emplace_def xs_def e_def)
qed

text \<open>A change of the heap at an address that is not in the set.\<close>

lemma tq_ok_heap:
  assumes "tq_ok q" "p \<notin> fst ` set (tq_timers q)"
    and "\<And>t'. x = Some t' \<Longrightarrow> ti_sequence t' < n \<and>
      (\<forall>p' t''. p' \<noteq> p \<longrightarrow> tq_heap q p' = Some t'' \<longrightarrow> ti_sequence t'' \<noteq> ti_sequence t')"
    and "tq_counter q \<le> n"
  shows "tq_ok (q\<lparr>tq_heap := (tq_heap q)(p := x), tq_counter := n\<rparr>)"
proof (rule tq_okI)
  let ?q = "q\<lparr>tq_heap := (tq_heap q)(p := x), tq_counter := n\<rparr>"
  have key: "entry_key ?q e = entry_key q e" if "e \<in> set (tq_timers q)" for e
    using that assms(2) by (auto simp: expiration_def image_iff)
  show "sorted_wrt (\<lambda>x y. entry_less (entry_key ?q x) (entry_key ?q y)) (tq_timers ?q)"
  proof (rule sorted_wrt_mono_rel [where P = "\<lambda>x y. entry_less (entry_key q x) (entry_key q y)"])
    fix x y assume "x \<in> set (tq_timers ?q)" "y \<in> set (tq_timers ?q)" "entry_less (entry_key q x) (entry_key q y)"
    then show "entry_less (entry_key ?q x) (entry_key ?q y)" using key [of x] key [of y] by simp
  qed (use tq_okD(2) [OF assms(1)] in simp)
  show "\<exists>t. tq_heap ?q (fst e) = Some t \<and> ti_sequence t = snd e" if "e \<in> set (tq_timers ?q)" for e
    using that assms(2) tq_okD(1) [OF assms(1), of e] by (auto simp: image_iff)
  show "ti_sequence t < tq_counter ?q" if "tq_heap ?q p' = Some t" for p' t
    using that assms(3,4) tq_okD(3) [OF assms(1), of p' t] by (auto split: if_splits)
  have new: False if "x = Some t" "tq_heap q b = Some t'" "b \<noteq> p" "ti_sequence t = ti_sequence t'" for t b t'
    using assms(3) [OF that(1)] that(2-4) by metis
  show "a = b" if "tq_heap ?q a = Some t" "tq_heap ?q b = Some t'" "ti_sequence t = ti_sequence t'" for a b t t'
  proof -
    have h: "tq_heap ?q r = (if r = p then x else tq_heap q r)" for r by simp
    show ?thesis using that unfolding h using new tq_okD(4) [OF assms(1)] by metis
  qed
  have "dom (tq_heap ?q) \<subseteq> insert p (dom (tq_heap q))" by auto
  then show "finite (dom (tq_heap ?q))"
    by (rule finite_subset) (use tq_okD(5) [OF assms(1)] in simp)
qed

section \<open>The operations keep the invariant\<close>

lemma SetTimerFd_armed: "armed_ok now (SetTimerFd now (expiration q (fst (List.hd (tq_timers q)))) q)"
  by (simp add: armed_ok_def SetTimerFd_def GetTimeFromNow_def Let_def)

lemma armed_ok_mono: "armed_ok now q \<Longrightarrow> now \<le> now' \<Longrightarrow> armed_ok now' q"
  unfolding armed_ok_def by force

lemma new_timer_ok:
  assumes "tq_ok q" "tq_heap q p = None"
  shows "tq_ok (new_timer p cb time interval repeat q)"
proof -
  have "p \<notin> fst ` set (tq_timers q)" using assms(2) tq_okD(1) [OF assms(1)] by fastforce
  moreover have "ti_sequence t \<noteq> tq_counter q" if "tq_heap q p' = Some t" for p' t
    using tq_okD(3) [OF assms(1) that] by simp
  ultimately show ?thesis
    unfolding new_timer_def by (intro tq_ok_heap [OF assms(1)]) auto
qed

definition same_rest :: "timer_queue \<Rightarrow> timer_queue \<Rightarrow> bool" where
  "same_rest q q' \<longleftrightarrow> tq_calling q' = tq_calling q \<and> tq_canceling q' = tq_canceling q \<and> tq_run q' = tq_run q"

lemma AddTimer_ok:
  assumes "tq_ok q" "tq_heap q p = None"
  shows "\<exists>q'. AddTimer now p cb time interval repeat q = Inr ((p, tq_counter q), q') \<and> tq_ok q' \<and>
    set (tq_timers q') = insert (p, tq_counter q) (set (tq_timers q)) \<and>
    tq_heap q' = tq_heap (new_timer p cb time interval repeat q) \<and> tq_counter q' = tq_counter q + 1 \<and>
    same_rest q q' \<and> (armed_ok now q \<longrightarrow> armed_ok now q')"
proof -
  define q1 where "q1 = new_timer p cb time interval repeat q"
  define e where "e = (p, tq_counter q)"
  have ok1: "tq_ok q1" unfolding q1_def by (rule new_timer_ok [OF assms])
  have pe: "\<And>e. e \<in> set (tq_timers q) \<Longrightarrow> fst e \<noteq> p" using assms(2) tq_okD(1) [OF assms(1)] by fastforce
  obtain t where t: "tq_heap q1 p = Some t" "ti_sequence t = tq_counter q" "ti_expiration t = time"
    by (simp add: q1_def new_timer_def)
  have timers: "tq_timers q1 = tq_timers q" by (simp add: q1_def new_timer_def)
  have old: "expiration q1 (fst x) = expiration q (fst x)" if "x \<in> set (tq_timers q)" for x
    using pe [OF that] by (simp add: expiration_def q1_def new_timer_def)
  have exp: "expiration q1 p = time" using t by (simp add: expiration_def)
  have "(p, ti_sequence t) \<notin> set (tq_timers q1)" using pe timers by fastforce
  from Emplace_ok [OF ok1 t(1) this] obtain r xs where em: "Emplace q1 p = Inr (r, q1\<lparr>tq_timers := xs\<rparr>)"
    "tq_ok (q1\<lparr>tq_timers := xs\<rparr>)" "set xs = insert e (set (tq_timers q))"
    "r = (tq_timers q = [] \<or> time < expiration q1 (fst (List.hd (tq_timers q))))"
    "xs = set_insert (entry_key q1) e (tq_timers q)"
    using t timers by (auto simp: e_def)
  define q2 where "q2 = q1\<lparr>tq_timers := xs\<rparr>"
  define q' where "q' = (if r then SetTimerFd now time q2 else q2)"
  have add: "AddTimer now p cb time interval repeat q = Inr (e, q')"
    using em(1) exp by (simp add: AddTimer_def AddTimer_in_loop_def q1_def [symmetric] q'_def q2_def e_def)
  have "armed_ok now q'" if armed: "armed_ok now q"
  proof (cases r)
    case True
    then have "List.hd xs = e"
      using em(4,5) exp by (cases "tq_timers q") (auto simp: e_def entry_less_iff)
    then have "q' = SetTimerFd now (expiration q2 (fst (List.hd (tq_timers q2)))) q2"
      using True exp by (simp add: q'_def q2_def e_def)
    then show ?thesis by (simp only: SetTimerFd_armed)
  next
    case False
    then have ne: "tq_timers q \<noteq> []" and le: "expiration q1 (fst (List.hd (tq_timers q))) \<le> time" using em(4) by auto
    then obtain h where h: "h \<in> set (tq_timers q)" "List.hd (tq_timers q) = h" by (metis list.set_sel(1))
    have "snd h < tq_counter q" using tq_okD(1,3) [OF assms(1)] h(1) by metis
    then have "List.hd xs = h"
      using hd_set_insert [OF ne, of "entry_key q1" e] em(5) h(2) le exp by (simp add: e_def entry_less_iff)
    then show ?thesis
      using False armed ne h old [OF h(1)]
      by (auto simp: armed_ok_def q'_def q2_def q1_def new_timer_def)
  qed
  then show ?thesis
    using add em(2,3) by (auto simp: q'_def q2_def q1_def new_timer_def SetTimerFd_def e_def same_rest_def)
qed

lemma CancelTimer_ok:
  assumes "tq_ok q" "CancelTimer sec tid q = Inr q'"
  shows "tq_ok q' \<and> set (tq_timers q') \<subseteq> set (tq_timers q) \<and> tq_heap q' = tq_heap q \<and>
    tq_counter q' = tq_counter q \<and> tq_calling q' = tq_calling q \<and> tq_run q' = tq_run q \<and>
    set (tq_canceling q) \<subseteq> set (tq_canceling q') \<and> set (tq_canceling q') \<subseteq> insert (tid, sec) (set (tq_canceling q)) \<and>
    (armed_ok now q \<longrightarrow> armed_ok now q')"
proof -
  define f where "f = (\<lambda>e. \<not> set_member (entry_key q) tid e)"
  have key: "expiration (q\<lparr>tq_timers := xs\<rparr>) p = expiration q p" for xs p by simp
  have "tq_ok (q\<lparr>tq_timers := filter f (tq_timers q)\<rparr>)"
    by (rule tq_okI) (use tq_okD [OF assms(1)] in \<open>auto intro: sorted_wrt_filter\<close>)
  moreover have "armed_ok now (q\<lparr>tq_timers := filter f (tq_timers q)\<rparr>)" if a: "armed_ok now q"
  proof (cases "filter f (tq_timers q)")
    case (Cons x xs)
    then have x: "x \<in> set (tq_timers q)" by (metis filter_is_subset list.set_intros(1) subsetD)
    then obtain h hs where h: "tq_timers q = h # hs" by (cases "tq_timers q") auto
    have "expiration q (fst h) \<le> expiration q (fst x)"
      using x h tq_okD(2) [OF assms(1)] by (auto simp: entry_less_iff)
    then show ?thesis using a Cons h by (auto simp: armed_ok_def)
  qed (simp add: armed_ok_def)
  ultimately show ?thesis
    using assms by (auto simp: CancelTimer_def f_def armed_ok_def split: if_splits)
qed

text \<open>Cancelling an active timer takes its entry, and only that, out of the set; the timer stays on
  the heap, where nothing refers to it any more.\<close>

lemma CancelTimer_active:
  assumes "tq_ok q" "e \<in> set (tq_timers q)"
  shows "CancelTimer sec e q = Inr (q\<lparr>tq_timers := filter (\<lambda>x. x \<noteq> e) (tq_timers q)\<rparr>) \<and> tq_heap q (fst e) \<noteq> None"
proof -
  obtain t where t: "tq_heap q (fst e) = Some t" "ti_sequence t = snd e" using tq_okD(1) [OF assms] by blast
  have "set_member (entry_key q) e x \<longleftrightarrow> x = e" if "x \<in> set (tq_timers q)" for x
    using tq_entry_unique [OF assms(1) that t] by (auto simp: set_member_iff)
  then have "filter (\<lambda>x. \<not> set_member (entry_key q) e x) (tq_timers q) = filter (\<lambda>x. x \<noteq> e) (tq_timers q)"
    "\<exists>x\<in>set (tq_timers q). set_member (entry_key q) e x"
    using assms(2) by (auto cong: filter_cong)
  then show ?thesis using t by (auto simp: CancelTimer_def)
qed

text \<open>Cancelling a timer that is alive but expired: it is marked while callbacks run.\<close>

lemma CancelTimer_expired:
  assumes "tq_ok q" "tq_heap q (fst e) = Some t" "ti_sequence t = snd e" "e \<notin> set (tq_timers q)" "tq_calling q"
  shows "CancelTimer sec e q = Inr (q\<lparr>tq_canceling := (e, sec) # tq_canceling q\<rparr>)"
proof -
  have "\<not> set_member (entry_key q) e x" if "x \<in> set (tq_timers q)" for x
    using tq_entry_unique [OF assms(1) that assms(2,3)] assms(4) that by (auto simp: set_member_iff)
  then show ?thesis using assms(2,5) by (auto simp: CancelTimer_def)
qed

text \<open>A one-shot timer is deleted after it fired. Cancelling it by its id then reads freed memory,
  unless no timer is active.\<close>

lemma CancelTimer_use_after_free:
  "tq_timers q \<noteq> [] \<Longrightarrow> tq_heap q (fst e) = None \<Longrightarrow> CancelTimer sec e q = Inl UseAfterFree"
  by (simp add: CancelTimer_def)

lemma takeWhile_filter:
  assumes "sorted_wrt R xs" "\<And>x y. R x y \<Longrightarrow> P y \<Longrightarrow> P x"
  shows "takeWhile P xs = filter P xs \<and> dropWhile P xs = filter (\<lambda>x. \<not> P x) xs"
  using assms(1)
proof (induction xs)
  case (Cons x xs)
  have "\<forall>y\<in>set xs. \<not> P y" if "\<not> P x" using that Cons.prems assms(2) by auto
  then have "filter P xs = []" "filter (\<lambda>x. \<not> P x) xs = xs" if "\<not> P x"
    using that by (simp_all add: filter_empty_conv filter_id_conv)
  with Cons show ?case by (cases "P x") simp_all
qed simp

lemma GetExpiredTimers_ok:
  assumes "tq_ok q" "tq_counter q < 2 ^ 64"
  shows "GetExpiredTimers now q =
     (filter (\<lambda>e. expiration q (fst e) \<le> now) (tq_timers q),
      q\<lparr>tq_timers := filter (\<lambda>e. now < expiration q (fst e)) (tq_timers q), tq_counter := tq_counter q + 1\<rparr>)"
proof -
  let ?P = "\<lambda>e. entry_less (entry_key q e) (now, 2 ^ 64 - 1)"
  have P: "?P e \<longleftrightarrow> expiration q (fst e) \<le> now" if "e \<in> set (tq_timers q)" for e
  proof -
    have "snd e < tq_counter q" using tq_okD(1,3) [OF assms(1)] that by metis
    then show ?thesis using assms(2) by (auto simp: entry_less_iff)
  qed
  have tw: "takeWhile ?P (tq_timers q) = filter ?P (tq_timers q)"
      "dropWhile ?P (tq_timers q) = filter (\<lambda>e. \<not> ?P e) (tq_timers q)"
    using takeWhile_filter [OF tq_okD(2) [OF assms(1)], of ?P] entry_less_trans by blast+
  moreover have "filter ?P (tq_timers q) = filter (\<lambda>e. expiration q (fst e) \<le> now) (tq_timers q)"
    "filter (\<lambda>e. \<not> ?P e) (tq_timers q) = filter (\<lambda>e. now < expiration q (fst e)) (tq_timers q)"
    using P by (auto intro!: filter_cong)
  ultimately show ?thesis by (simp add: GetExpiredTimers_def)
qed

lemma tq_ok_filter:
  assumes "tq_ok q" "tq_counter q \<le> n"
  shows "tq_ok (q\<lparr>tq_timers := filter f (tq_timers q), tq_counter := n\<rparr>)"
proof (rule tq_okI)
  show "ti_sequence t < tq_counter (q\<lparr>tq_timers := filter f (tq_timers q), tq_counter := n\<rparr>)"
    if "tq_heap (q\<lparr>tq_timers := filter f (tq_timers q), tq_counter := n\<rparr>) p = Some t" for p t
    using tq_okD(3) [OF assms(1), of p t] that assms(2) by simp
qed (use tq_okD(1,2,4,5) [OF assms(1)] in \<open>auto intro: sorted_wrt_filter\<close>)

section \<open>Running the callbacks\<close>

text \<open>The allocator returns an address that is not in use.\<close>

definition alloc_fresh :: "((nat \<Rightarrow> timer option) \<Rightarrow> nat) \<Rightarrow> bool" where
  "alloc_fresh alloc \<longleftrightarrow> (\<forall>h. finite (dom h) \<longrightarrow> h (alloc h) = None)"

text \<open>A callback that does not throw and cancels by the id of a timer that has not been deleted.\<close>

definition act_ok :: "timer_queue \<Rightarrow> timer_action \<Rightarrow> bool" where
  "act_ok q a = (case a of
      ActAdd _ _ _ _ \<Rightarrow> True
    | ActCancel tid \<Rightarrow> \<exists>t. tq_heap q (fst tid) = Some t \<and> ti_sequence t = snd tid
    | ActThrow \<Rightarrow> False)"

text \<open>State while the callbacks of the expired timers \<open>E\<close> run: nothing that was alive is changed or
  deleted, and no expired timer is active.\<close>

definition run_inv :: "timer_queue \<Rightarrow> timer_entry list \<Rightarrow> timer_queue \<Rightarrow> bool" where
  "run_inv q0 E q \<longleftrightarrow> tq_ok q \<and> tq_calling q \<and> tq_counter q0 \<le> tq_counter q \<and>
     (\<forall>p t. tq_heap q0 p = Some t \<longrightarrow> tq_heap q p = Some t) \<and> set E \<inter> set (tq_timers q) = {}"

definition entries_alive :: "timer_queue \<Rightarrow> timer_entry list \<Rightarrow> bool" where
  "entries_alive q E \<longleftrightarrow> (\<forall>e\<in>set E. \<exists>t. tq_heap q (fst e) = Some t \<and> ti_sequence t = snd e)"

text \<open>The effect of actions that cancel the ids \<open>C\<close>: marks only of these, and of all expired timers
  among them; active timers not among them stay.\<close>

definition marks :: "int \<Rightarrow> timer_entry list \<Rightarrow> timer_entry set \<Rightarrow> timer_queue \<Rightarrow> timer_queue \<Rightarrow> bool" where
  "marks sec E C q q' \<longleftrightarrow>
     set (tq_canceling q) \<subseteq> set (tq_canceling q') \<and>
     (\<forall>x\<in>set (tq_canceling q'). x \<in> set (tq_canceling q) \<or> fst x \<in> C \<and> snd x = sec) \<and>
     (\<forall>e\<in>set E \<inter> C. (e, sec) \<in> set (tq_canceling q')) \<and>
     set (tq_timers q) - C \<subseteq> set (tq_timers q')"

lemma marks_trans:
  assumes "marks sec E C q q1" "marks sec E D q1 q2"
  shows "marks sec E (C \<union> D) q q2"
  unfolding marks_def
proof (intro conjI ballI)
  show "x \<in> set (tq_canceling q) \<or> fst x \<in> C \<union> D \<and> snd x = sec" if "x \<in> set (tq_canceling q2)" for x
    using that assms unfolding marks_def by (metis UnI1 UnI2)
  show "(e, sec) \<in> set (tq_canceling q2)" if "e \<in> set E \<inter> (C \<union> D)" for e
    using that assms unfolding marks_def by (metis Int_iff Un_iff subsetD)
qed (use assms in \<open>auto simp: marks_def\<close>)

lemma run_action_add:
  assumes "run_inv q0 E q" "alloc_fresh alloc" "entries_alive q0 E"
  shows "\<exists>q'. AddTimer now (alloc (tq_heap q)) cb time interval repeat q = Inr ((alloc (tq_heap q), tq_counter q), q') \<and>
    run_inv q0 E q' \<and> tq_run q' = tq_run q \<and> marks sec E {} q q'"
proof -
  define p where "p = alloc (tq_heap q)"
  have p: "tq_heap q p = None"
    using assms(2) tq_okD(5) [of q] assms(1) unfolding p_def alloc_fresh_def run_inv_def by blast
  have p0: "tq_heap q0 p = None" using assms(1) p unfolding run_inv_def by (cases "tq_heap q0 p") auto
  have "tq_ok q" using assms(1) by (simp add: run_inv_def)
  from AddTimer_ok [OF this p] obtain q' where q': "AddTimer now p cb time interval repeat q = Inr ((p, tq_counter q), q')"
    "tq_ok q'" "set (tq_timers q') = insert (p, tq_counter q) (set (tq_timers q))"
    "tq_heap q' = tq_heap (new_timer p cb time interval repeat q)" "tq_counter q' = tq_counter q + 1" "same_rest q q'" by metis
  have "(p, tq_counter q) \<notin> set E" using assms(3) p0 by (auto simp: entries_alive_def)
  then have "run_inv q0 E q'"
    using assms(1) q'(2-6) p0 by (auto simp: run_inv_def same_rest_def new_timer_def)
  then show ?thesis using q'(1,3,6) by (auto simp: p_def same_rest_def marks_def)
qed

lemma run_action_cancel:
  assumes "run_inv q0 E q" "entries_alive q0 E" "tq_heap q0 (fst tid) = Some t" "ti_sequence t = snd tid"
  shows "\<exists>q'. CancelTimer sec tid q = Inr q' \<and> run_inv q0 E q' \<and> tq_run q' = tq_run q \<and> marks sec E {tid} q q'"
proof (cases "tid \<in> set (tq_timers q)")
  case True
  have "tq_ok q" using assms(1) by (simp add: run_inv_def)
  from CancelTimer_active [OF this True, of sec] have
    c: "CancelTimer sec tid q = Inr (q\<lparr>tq_timers := filter (\<lambda>x. x \<noteq> tid) (tq_timers q)\<rparr>)" by simp
  from CancelTimer_ok [OF \<open>tq_ok q\<close> c, of 0] True assms(1) c show ?thesis
    by (auto simp: run_inv_def marks_def)
next
  case False
  have "tq_ok q" "tq_calling q" "tq_heap q (fst tid) = Some t" using assms(1,3) by (auto simp: run_inv_def)
  from CancelTimer_expired [OF this(1,3) assms(4) False this(2)] assms(1) show ?thesis
    by (auto simp: run_inv_def marks_def)
qed

lemma run_actions_ok:
  assumes "run_inv q0 E q" "alloc_fresh alloc" "entries_alive q0 E" "\<forall>a\<in>set as. act_ok q0 a"
  shows "\<exists>q'. run_actions alloc now sec as q = Inr q' \<and> run_inv q0 E q' \<and> tq_run q' = tq_run q \<and>
    marks sec E {tid. ActCancel tid \<in> set as} q q'"
  using assms(1,4)
proof (induction as arbitrary: q)
  case Nil
  then show ?case by (simp add: marks_def)
next
  case (Cons a as)
  have C: "{tid. ActCancel tid \<in> set (a # as)} = {tid. a = ActCancel tid} \<union> {tid. ActCancel tid \<in> set as}" by auto
  have "\<exists>q1. run_actions alloc now sec (a # as) q = run_actions alloc now sec as q1 \<and> run_inv q0 E q1 \<and>
      tq_run q1 = tq_run q \<and> marks sec E {tid. a = ActCancel tid} q q1"
  proof (cases a)
    case (ActAdd cb time interval repeat)
    then show ?thesis
      using run_action_add [OF Cons.prems(1) assms(2,3), of now cb time interval repeat sec] by auto
  next
    case (ActCancel tid)
    then obtain t where "tq_heap q0 (fst tid) = Some t" "ti_sequence t = snd tid"
      using Cons.prems(2) by (auto simp: act_ok_def)
    from run_action_cancel [OF Cons.prems(1) assms(3) this, of sec] obtain q1 where
      "CancelTimer sec tid q = Inr q1" "run_inv q0 E q1" "tq_run q1 = tq_run q" "marks sec E {tid} q q1" by blast
    then show ?thesis using ActCancel by (intro exI [of _ q1]) simp
  next
    case ActThrow
    then show ?thesis using Cons.prems(2) by (simp add: act_ok_def)
  qed
  then obtain q1 where q1: "run_actions alloc now sec (a # as) q = run_actions alloc now sec as q1" "run_inv q0 E q1"
      "tq_run q1 = tq_run q" "marks sec E {tid. a = ActCancel tid} q q1" by blast
  from Cons.IH [OF q1(2)] Cons.prems(2) q1 show ?case
    unfolding C using marks_trans by fastforce
qed

text \<open>The ids that the callbacks of some timers cancel.\<close>

definition callback_of :: "timer_queue \<Rightarrow> timer_entry \<Rightarrow> nat" where
  "callback_of q e = (case tq_heap q (fst e) of None \<Rightarrow> 0 | Some t \<Rightarrow> ti_callback t)"

definition cancelled :: "(nat \<Rightarrow> timer_action list) \<Rightarrow> timer_queue \<Rightarrow> timer_entry list \<Rightarrow> timer_entry set" where
  "cancelled act q es = {tid. \<exists>e\<in>set es. ActCancel tid \<in> set (act (callback_of q e))}"

lemma run_timers_ok:
  assumes "run_inv q0 E q" "alloc_fresh alloc" "entries_alive q0 E" "\<forall>cb. \<forall>a\<in>set (act cb). act_ok q0 a"
    "set es \<subseteq> set E"
  shows "\<exists>q'. run_timers alloc act now sec es q = Inr q' \<and> run_inv q0 E q' \<and> tq_run q' = tq_run q @ es \<and>
    marks sec E (cancelled act q0 es) q q'"
  using assms(1,5)
proof (induction es arbitrary: q)
  case Nil
  then show ?case by (simp add: marks_def cancelled_def)
next
  case (Cons e es)
  obtain t where t: "tq_heap q0 (fst e) = Some t" using assms(3) Cons.prems(2) by (auto simp: entries_alive_def)
  then have tq: "tq_heap q (fst e) = Some t" using Cons.prems(1) by (auto simp: run_inv_def)
  have "run_inv q0 E (q\<lparr>tq_run := tq_run q @ [e]\<rparr>)" using Cons.prems(1) by (simp add: run_inv_def)
  from run_actions_ok [OF this assms(2,3), of "act (ti_callback t)" now sec] assms(4) obtain q1 where
    q1: "run_actions alloc now sec (act (ti_callback t)) (q\<lparr>tq_run := tq_run q @ [e]\<rparr>) = Inr q1" "run_inv q0 E q1"
      "tq_run q1 = tq_run q @ [e]" "marks sec E {tid. ActCancel tid \<in> set (act (ti_callback t))} q q1"
    by (auto simp: marks_def)
  from Cons.IH [OF q1(2)] Cons.prems(2) obtain q' where q': "run_timers alloc act now sec es q1 = Inr q'" "run_inv q0 E q'"
    "tq_run q' = tq_run q1 @ es" "marks sec E (cancelled act q0 es) q1 q'" by auto
  have "cancelled act q0 (e # es) = {tid. ActCancel tid \<in> set (act (ti_callback t))} \<union> cancelled act q0 es"
    using t by (auto simp: cancelled_def callback_of_def)
  with marks_trans [OF q1(4) q'(4)] show ?case using tq q1 q' by simp
qed

section \<open>Resetting the timers\<close>

definition reset_entry ::
  "(int \<Rightarrow> timer_entry \<Rightarrow> nat) \<Rightarrow> int \<Rightarrow> int \<Rightarrow> timer_queue \<Rightarrow> timer_queue \<Rightarrow> timer_entry \<Rightarrow> bool" where
  "reset_entry hash now sec q q' e \<longleftrightarrow>
     (\<forall>t. tq_heap q (fst e) = Some t \<longrightarrow>
        (if \<not> ti_repeat t then e \<notin> set (tq_timers q') \<and> tq_heap q' (fst e) = None
         else if canceling_find hash sec e q then e \<notin> set (tq_timers q') \<and> tq_heap q' (fst e) = Some t
         else e \<in> set (tq_timers q') \<and> tq_heap q' (fst e) = Some (Timer_restart t now)))"

definition reset_post ::
  "(int \<Rightarrow> timer_entry \<Rightarrow> nat) \<Rightarrow> int \<Rightarrow> int \<Rightarrow> timer_entry list \<Rightarrow> timer_queue \<Rightarrow> timer_queue \<Rightarrow> bool" where
  "reset_post hash now sec es q q' \<longleftrightarrow>
     (\<forall>e\<in>set es. reset_entry hash now sec q q' e) \<and>
     (\<forall>p. p \<notin> fst ` set es \<longrightarrow> tq_heap q' p = tq_heap q p) \<and>
     set (tq_timers q) \<subseteq> set (tq_timers q') \<and> set (tq_timers q') \<subseteq> set (tq_timers q) \<union> set es"

text \<open>One expired timer is handled: it is deleted, left alone or put back.\<close>

definition reset_one ::
  "(int \<Rightarrow> timer_entry \<Rightarrow> nat) \<Rightarrow> int \<Rightarrow> int \<Rightarrow> timer_entry \<Rightarrow> timer_queue \<Rightarrow> timer_queue res" where
  "reset_one hash now sec e q = reset_loop hash now sec [e] q"

lemma reset_loop_Cons:
  "reset_loop hash now sec (e # es) q = rbind (reset_one hash now sec e q) (reset_loop hash now sec es)"
  by (auto simp: reset_one_def rbind_def split: option.split sum.split)

lemma reset_one_ok:
  assumes "tq_ok q" "tq_heap q (fst e) = Some t" "ti_sequence t = snd e" "e \<notin> set (tq_timers q)"
  shows "\<exists>q'. reset_one hash now sec e q = Inr q' \<and> tq_ok q' \<and> same_rest q q' \<and> reset_post hash now sec [e] q q'"
proof -
  have notin: "fst e \<notin> fst ` set (tq_timers q)"
    using tq_entry_unique [OF assms(1) _ assms(2,3)] assms(4) by fastforce
  have e: "(fst e, ti_sequence t) = e" using assms(3) by simp
  consider "\<not> ti_repeat t" | "ti_repeat t" "canceling_find hash sec e q" | "ti_repeat t" "\<not> canceling_find hash sec e q"
    by blast
  then show ?thesis
  proof cases
    case 1
    have "tq_ok (q\<lparr>tq_heap := (tq_heap q)(fst e := None)\<rparr>)"
      using tq_ok_heap [OF assms(1) notin, of None "tq_counter q"] by simp
    then show ?thesis
      using 1 assms by (auto simp: reset_one_def reset_post_def reset_entry_def same_rest_def)
  next
    case 2
    then show ?thesis
      using assms e by (auto simp: reset_one_def reset_post_def reset_entry_def same_rest_def)
  next
    case 3
    define q1 where "q1 = q\<lparr>tq_heap := (tq_heap q)(fst e \<mapsto> Timer_restart t now)\<rparr>"
    have uniq: "ti_sequence t'' \<noteq> ti_sequence t" if "p' \<noteq> fst e" "tq_heap q p' = Some t''" for p' t''
      using tq_okD(4) [OF assms(1) that(2) assms(2)] that(1) by blast
    have "tq_ok (q\<lparr>tq_heap := (tq_heap q)(fst e \<mapsto> Timer_restart t now), tq_counter := tq_counter q\<rparr>)"
      using tq_okD(3) [OF assms(1,2)] uniq
      by (intro tq_ok_heap [OF assms(1) notin]) (auto simp: Timer_restart_def)
    then have ok: "tq_ok q1" by (simp add: q1_def)
    have "(fst e, ti_sequence (Timer_restart t now)) \<notin> set (tq_timers q1)"
      using assms(4) e by (simp add: q1_def Timer_restart_def)
    from Emplace_ok [OF ok _ this] obtain r xs where em: "Emplace q1 (fst e) = Inr (r, q1\<lparr>tq_timers := xs\<rparr>)"
      "tq_ok (q1\<lparr>tq_timers := xs\<rparr>)" "set xs = insert e (set (tq_timers q))"
      using e by (auto simp: q1_def Timer_restart_def)
    then have "reset_one hash now sec e q = Inr (q1\<lparr>tq_timers := xs\<rparr>)"
      using 3 assms(2) e by (simp add: reset_one_def q1_def [symmetric])
    then show ?thesis
      using em(2,3) 3 assms(2) by (auto simp: q1_def same_rest_def reset_post_def reset_entry_def)
  qed
qed

lemma canceling_find_same: "same_rest q q' \<Longrightarrow> canceling_find hash sec e q' = canceling_find hash sec e q"
  by (simp add: same_rest_def canceling_find_def)

lemma reset_loop_ok:
  assumes "tq_ok q" "entries_alive q es" "set es \<inter> set (tq_timers q) = {}" "distinct (map fst es)"
  shows "\<exists>q'. reset_loop hash now sec es q = Inr q' \<and> tq_ok q' \<and> same_rest q q' \<and> reset_post hash now sec es q q'"
  using assms
proof (induction es arbitrary: q)
  case Nil
  then show ?case by (simp add: reset_post_def same_rest_def)
next
  case (Cons e es)
  obtain t where t: "tq_heap q (fst e) = Some t" "ti_sequence t = snd e"
    using Cons.prems(2) by (auto simp: entries_alive_def)
  have "e \<notin> set (tq_timers q)" using Cons.prems(3) by simp
  from reset_one_ok [OF Cons.prems(1) t this] obtain q1 where q1: "reset_one hash now sec e q = Inr q1" "tq_ok q1"
    "same_rest q q1" "reset_post hash now sec [e] q q1" by blast
  have other: "fst x \<noteq> fst e" if "x \<in> set es" for x
    using Cons.prems(4) that by (metis distinct.simps(2) image_eqI list.set_map list.simps(9))
  have alive: "entries_alive q1 es"
    using Cons.prems(2) q1(4) other by (auto simp: entries_alive_def reset_post_def)
  have disj: "set es \<inter> set (tq_timers q1) = {}"
    using Cons.prems(3) q1(4) other by (fastforce simp: reset_post_def)
  from Cons.IH [OF q1(2) alive disj] Cons.prems(4) obtain q' where q': "reset_loop hash now sec es q1 = Inr q'"
    "tq_ok q'" "same_rest q1 q'" "reset_post hash now sec es q1 q'" by auto
  have "fst e \<notin> fst ` set es" using Cons.prems(4) by simp
  then have e: "tq_heap q' (fst e) = tq_heap q1 (fst e)" "e \<in> set (tq_timers q') \<longleftrightarrow> e \<in> set (tq_timers q1)"
    using q'(4) unfolding reset_post_def by auto
  have "reset_entry hash now sec q q' e"
    using q1(4) unfolding reset_post_def reset_entry_def e by simp
  moreover have "reset_entry hash now sec q q' x" if "x \<in> set es" for x
  proof -
    have "tq_heap q1 (fst x) = tq_heap q (fst x)" using q1(4) other [OF that] by (simp add: reset_post_def)
    moreover have "reset_entry hash now sec q1 q' x" using q'(4) that by (simp add: reset_post_def)
    ultimately show ?thesis unfolding reset_entry_def canceling_find_same [OF q1(3)] by simp
  qed
  ultimately have "reset_post hash now sec (e # es) q q'"
    using q1(4) q'(4) unfolding reset_post_def by auto
  then show ?case
    using q1(1,3) q'(1-3) by (auto simp: reset_loop_Cons same_rest_def simp del: reset_loop.simps)
qed

lemma sorted_wrt_irrefl_distinct: "sorted_wrt R xs \<Longrightarrow> (\<And>x. \<not> R x x) \<Longrightarrow> distinct xs"
  by (induction xs) auto

lemma tq_distinct: "tq_ok q \<Longrightarrow> distinct (map fst (tq_timers q))"
proof -
  assume ok: "tq_ok q"
  have "distinct (tq_timers q)"
    using tq_okD(2) [OF ok] by (rule sorted_wrt_irrefl_distinct) (simp add: entry_less_iff)
  moreover have "inj_on fst (set (tq_timers q))"
    using tq_entry_unique [OF ok] tq_okD(1) [OF ok] by (intro inj_onI) metis
  ultimately show ?thesis by (simp add: distinct_map)
qed

definition due :: "int \<Rightarrow> timer_queue \<Rightarrow> timer_entry list" where
  "due now q = filter (\<lambda>e. expiration q (fst e) \<le> now) (tq_timers q)"

lemma canceling_find_marks:
  assumes "marks sec E C q q'" "tq_canceling q = []" "e \<in> set E"
  shows "e \<notin> C \<Longrightarrow> \<not> canceling_find hash s e q'" "e \<in> C \<Longrightarrow> canceling_find hash sec e q'"
    "hash sec e \<noteq> hash s e \<Longrightarrow> \<not> canceling_find hash s e q'"
  using assms unfolding marks_def canceling_find_def by force+

lemma ResetTimers_armed:
  "ResetTimers hash now now' sec es q =
     rbind (reset_loop hash now sec es q) (\<lambda>q'.
       Inr (if tq_timers q' = [] then q' else SetTimerFd now' (expiration q' (fst (List.hd (tq_timers q')))) q'))"
  by (auto simp: ResetTimers_def rbind_def split: sum.split list.split)

lemma Process_ok:
  assumes "tq_ok q" "tq_counter q < 2 ^ 64" "alloc_fresh alloc" "\<forall>cb. \<forall>a\<in>set (act cb). act_ok q a"
  shows "\<exists>q2 q'. ProcessAllExpiredTimers alloc act hash now now' sec sec' q = Inr q' \<and>
    tq_ok q' \<and> armed_ok now' q' \<and> tq_run q' = tq_run q @ due now q \<and>
    marks sec (due now q) (cancelled act q (due now q)) (q\<lparr>tq_timers := filter (\<lambda>e. now < expiration q (fst e)) (tq_timers q), tq_canceling := []\<rparr>) q2 \<and>
    reset_post hash now sec' (due now q) q2 q' \<and> (\<forall>p t. tq_heap q p = Some t \<longrightarrow> tq_heap q2 p = Some t)"
proof -
  define E where "E = due now q"
  define q0 where "q0 = q\<lparr>tq_armed := None, tq_timers := filter (\<lambda>e. now < expiration q (fst e)) (tq_timers q),
      tq_counter := tq_counter q + 1, tq_canceling := [], tq_calling := True\<rparr>"
  have get: "GetExpiredTimers now (q\<lparr>tq_armed := None\<rparr>) = (E, q\<lparr>tq_armed := None,
      tq_timers := filter (\<lambda>e. now < expiration q (fst e)) (tq_timers q), tq_counter := tq_counter q + 1\<rparr>)"
    using GetExpiredTimers_ok [of "q\<lparr>tq_armed := None\<rparr>" now] assms(1,2) by (simp add: E_def due_def)
  have heap0: "tq_heap q0 = tq_heap q" by (simp add: q0_def)
  have "tq_ok (q\<lparr>tq_timers := filter (\<lambda>e. now < expiration q (fst e)) (tq_timers q), tq_counter := tq_counter q + 1\<rparr>)"
    by (rule tq_ok_filter) (use assms(1) in simp_all)
  then have ok0: "tq_ok q0" unfolding q0_def by (simp add: tq_ok_def expiration_def)
  have inv0: "run_inv q0 E q0" using ok0 by (auto simp: run_inv_def E_def due_def q0_def)
  have alive: "entries_alive q0 E"
    using tq_okD(1) [OF assms(1)] by (auto simp: entries_alive_def heap0 E_def due_def)
  have acts: "\<forall>cb. \<forall>a\<in>set (act cb). act_ok q0 a"
    using assms(4) unfolding act_ok_def heap0 .
  from run_timers_ok [OF inv0 assms(3) alive acts subset_refl, of now sec] obtain q2 where
    q2: "run_timers alloc act now sec E q0 = Inr q2" "run_inv q0 E q2" "tq_run q2 = tq_run q @ E"
      "marks sec E (cancelled act q0 E) q0 q2" by (auto simp: q0_def)
  define q2' where "q2' = q2\<lparr>tq_calling := False\<rparr>"
  have "entries_alive q2' E"
    using alive q2(2) unfolding entries_alive_def run_inv_def q2'_def by fastforce
  moreover have "tq_ok q2'" "set E \<inter> set (tq_timers q2') = {}"
    using q2(2) by (simp_all add: q2'_def run_inv_def)
  moreover have "distinct (map fst E)"
    using tq_distinct [OF assms(1)] by (simp add: E_def due_def distinct_map_filter)
  ultimately have "tq_ok q2'" "entries_alive q2' E" "set E \<inter> set (tq_timers q2') = {}" "distinct (map fst E)"
    by simp_all
  from reset_loop_ok [OF this, of hash now sec'] obtain q3 where q3: "reset_loop hash now sec' E q2' = Inr q3"
    "tq_ok q3" "same_rest q2' q3" "reset_post hash now sec' E q2' q3" by blast
  define q' where "q' = (if tq_timers q3 = [] then q3 else SetTimerFd now' (expiration q3 (fst (List.hd (tq_timers q3)))) q3)"
  have "ProcessAllExpiredTimers alloc act hash now now' sec sec' q = Inr q'"
    using q2(1) q3(1) get
    by (simp add: ProcessAllExpiredTimers_def q0_def ResetTimers_armed q2'_def [symmetric] q'_def)
  moreover have "tq_ok q'" "armed_ok now' q'" "tq_run q' = tq_run q @ E"
    using q3(2,3) q2(3) SetTimerFd_armed [of now' q3]
    by (auto simp: q'_def SetTimerFd_def same_rest_def q2'_def armed_ok_def)
  moreover have "marks sec E (cancelled act q E) (q\<lparr>tq_timers := filter (\<lambda>e. now < expiration q (fst e)) (tq_timers q), tq_canceling := []\<rparr>) q2'"
    using q2(4) by (simp add: marks_def q2'_def q0_def cancelled_def callback_of_def)
  moreover have "reset_post hash now sec' E q2' q'"
  proof -
    have eqs: "tq_heap q' = tq_heap q3" "tq_timers q' = tq_timers q3" by (simp_all add: q'_def SetTimerFd_def)
    show ?thesis using q3(4) unfolding reset_post_def reset_entry_def eqs .
  qed
  moreover have "\<forall>p t. tq_heap q p = Some t \<longrightarrow> tq_heap q2' p = Some t"
    using q2(2) by (simp add: run_inv_def q2'_def heap0)
  ultimately show ?thesis unfolding E_def by blast
qed

section \<open>Properties\<close>

text \<open>C29. When the timer descriptor fires at \<open>now\<close>, the callbacks of exactly the timers due at \<open>now\<close> run, once each and in the order of
  their deadlines, whatever timers they add or cancel, under these conditions: the queue is well-formed and has numbered less than 2^64
  timers, the allocator returns free addresses, and every callback returns without an exception and cancels only by ids of timers that exist when the descriptor
  fires. Afterwards the one-shot ones among them are deleted, and the repeating ones that were not cancelled are due an interval from
  \<open>now\<close>. A repeating one that a callback has cancelled is inactive, but stays allocated, if its hash, which is seeded with the second, is the
  same when it is cancelled and when the timers are reset; otherwise it is put back as if it had not been cancelled. No
  other active timer is lost unless cancelled, and the descriptor is set so that the next timer is not missed, as far as the
  clock of the descriptor agrees with the one of the deadlines and setting it succeeds.\<close>

theorem ProcessAllExpiredTimers_correct:
  assumes "tq_ok q" "tq_counter q < 2 ^ 64" "alloc_fresh alloc" "\<forall>cb. \<forall>a\<in>set (act cb). act_ok q a"
  shows "\<exists>q'. ProcessAllExpiredTimers alloc act hash now now' sec sec' q = Inr q' \<and>
    tq_ok q' \<and> armed_ok now' q' \<and> tq_run q' = tq_run q @ due now q \<and>
    sorted (map (\<lambda>e. expiration q (fst e)) (due now q)) \<and>
    (\<forall>e\<in>set (due now q). \<forall>t. tq_heap q (fst e) = Some t \<longrightarrow>
      (\<not> ti_repeat t \<longrightarrow> tq_heap q' (fst e) = None \<and> e \<notin> set (tq_timers q')) \<and>
      (ti_repeat t \<and> e \<notin> cancelled act q (due now q) \<longrightarrow>
         e \<in> set (tq_timers q') \<and> expiration q' (fst e) = now + ti_interval t) \<and>
      (ti_repeat t \<and> e \<in> cancelled act q (due now q) \<longrightarrow>
         (if hash sec e = hash sec' e then e \<notin> set (tq_timers q') \<and> tq_heap q' (fst e) = Some t
          else e \<in> set (tq_timers q') \<and> expiration q' (fst e) = now + ti_interval t))) \<and>
    (\<forall>e\<in>set (tq_timers q) - set (due now q). e \<notin> cancelled act q (due now q) \<longrightarrow> e \<in> set (tq_timers q'))"
proof -
  from Process_ok [OF assms, of hash now now' sec sec'] obtain q2 q' where
    q': "ProcessAllExpiredTimers alloc act hash now now' sec sec' q = Inr q'" "tq_ok q'" "armed_ok now' q'"
      "tq_run q' = tq_run q @ due now q" and
    m: "marks sec (due now q) (cancelled act q (due now q))
        (q\<lparr>tq_timers := filter (\<lambda>e. now < expiration q (fst e)) (tq_timers q), tq_canceling := []\<rparr>) q2" and
    post: "reset_post hash now sec' (due now q) q2 q'" and heap: "\<forall>p t. tq_heap q p = Some t \<longrightarrow> tq_heap q2 p = Some t"
    by blast
  have "sorted (map (\<lambda>e. expiration q (fst e)) (due now q))"
    unfolding due_def sorted_map
    by (rule sorted_wrt_filter, rule sorted_wrt_mono_rel [OF _ tq_okD(2) [OF assms(1)]]) (auto simp: entry_less_iff)
  moreover have "(\<not> ti_repeat t \<longrightarrow> tq_heap q' (fst e) = None \<and> e \<notin> set (tq_timers q')) \<and>
      (ti_repeat t \<and> e \<notin> cancelled act q (due now q) \<longrightarrow>
         e \<in> set (tq_timers q') \<and> expiration q' (fst e) = now + ti_interval t) \<and>
      (ti_repeat t \<and> e \<in> cancelled act q (due now q) \<longrightarrow>
         (if hash sec e = hash sec' e then e \<notin> set (tq_timers q') \<and> tq_heap q' (fst e) = Some t
          else e \<in> set (tq_timers q') \<and> expiration q' (fst e) = now + ti_interval t))"
    if e: "e \<in> set (due now q)" "tq_heap q (fst e) = Some t" for e t
  proof -
    have "reset_entry hash now sec' q2 q' e" using post e(1) by (simp add: reset_post_def)
    moreover have "canceling_find hash sec' e q2" if "canceling_find hash sec e q2" "hash sec e = hash sec' e"
      using that by (simp add: canceling_find_def)
    ultimately show ?thesis
      using heap e(2) canceling_find_marks [OF m _ e(1)]
      by (auto simp: reset_entry_def expiration_def Timer_restart_def split: if_splits)
  qed
  moreover have "e \<in> set (tq_timers q')"
    if "e \<in> set (tq_timers q) - set (due now q)" "e \<notin> cancelled act q (due now q)" for e
    using that m post by (auto simp: marks_def reset_post_def due_def)
  ultimately show ?thesis using q' by blast
qed

definition first_free :: "(nat \<Rightarrow> timer option) \<Rightarrow> nat" where
  "first_free h = (if dom h = {} then 0 else Suc (Max (dom h)))"

lemma first_free_fresh: "alloc_fresh first_free"
  unfolding alloc_fresh_def
proof (intro allI impI)
  fix h :: "nat \<Rightarrow> timer option"
  assume fin: "finite (dom h)"
  have "first_free h \<notin> dom h"
  proof
    assume m: "first_free h \<in> dom h"
    then have "dom h \<noteq> {}" by blast
    then have "first_free h = Suc (Max (dom h))" by (simp add: first_free_def)
    with Max_ge [OF fin m] show False by simp
  qed
  then show "h (first_free h) = None" by auto
qed

text \<open>A queue with a repeating timer (due at 10, every 5) that cancels itself, and a one-shot timer due at 20.\<close>

definition demo_queue :: timer_queue where
  "demo_queue = TimerQueue\<lparr>
     tq_heap := [1 \<mapsto> \<lparr>ti_callback = 7, ti_expiration = 10, ti_interval = 5, ti_repeat = True, ti_sequence = 0\<rparr>,
                 2 \<mapsto> \<lparr>ti_callback = 8, ti_expiration = 20, ti_interval = 0, ti_repeat = False, ti_sequence = 1\<rparr>],
     tq_counter := 2, tq_timers := [(1, 0), (2, 1)]\<rparr>"

definition demo_act :: "nat \<Rightarrow> timer_action list" where
  "demo_act cb = (if cb = 7 then [ActCancel (1, 0)] else [])"

lemma demo_queue_ok: "tq_ok demo_queue" "tq_counter demo_queue < 2 ^ 64" "\<forall>cb. \<forall>a\<in>set (demo_act cb). act_ok demo_queue a"
  by (auto simp: tq_ok_def demo_queue_def TimerQueue_def entry_less_iff expiration_def demo_act_def act_ok_def
      split: if_splits)

lemma demo_queue_due: "due 10 demo_queue = [(1, 0)]"
  by (simp add: due_def demo_queue_def TimerQueue_def expiration_def)

theorem ProcessAllExpiredTimers_correct_witness:
  "tq_ok demo_queue \<and> tq_counter demo_queue < 2 ^ 64 \<and> alloc_fresh first_free \<and>
   (\<exists>q'. ProcessAllExpiredTimers first_free demo_act (\<lambda>s e. nat s) 10 11 3 3 demo_queue = Inr q' \<and>
      tq_run q' = [(1, 0)] \<and> (1, 0) \<notin> set (tq_timers q') \<and> (2, 1) \<in> set (tq_timers q'))"
proof -
  have c: "cancelled demo_act demo_queue [(1, 0)] = {(1, 0)}"
    by (auto simp: cancelled_def callback_of_def demo_queue_def TimerQueue_def demo_act_def)
  have m: "(2, 1) \<in> set (tq_timers demo_queue)" "tq_run demo_queue = []"
    "tq_heap demo_queue 1 = Some \<lparr>ti_callback = 7, ti_expiration = 10, ti_interval = 5, ti_repeat = True, ti_sequence = 0\<rparr>"
    by (simp_all add: demo_queue_def TimerQueue_def)
  show ?thesis
    using ProcessAllExpiredTimers_correct [OF demo_queue_ok(1,2) first_free_fresh demo_queue_ok(3), of "\<lambda>s e. nat s" 10 11 3 3]
      demo_queue_ok first_free_fresh m unfolding demo_queue_due c by auto
qed

text \<open>Self-cancellation can be lost: the marks of cancelled timers are kept under a hash seeded with the
  current second. If the second changes between the callback that cancels a repeating timer and the reset, and
  with it the hash, the timer is put back and keeps firing.\<close>

theorem ProcessAllExpiredTimers_loses_cancellation:
  assumes "tq_ok q" "tq_counter q < 2 ^ 64" "alloc_fresh alloc" "\<forall>cb. \<forall>a\<in>set (act cb). act_ok q a"
    "e \<in> set (due now q)" "tq_heap q (fst e) = Some t" "ti_repeat t" "e \<in> cancelled act q (due now q)"
    "hash sec e \<noteq> hash sec' e"
  shows "\<exists>q'. ProcessAllExpiredTimers alloc act hash now now' sec sec' q = Inr q' \<and> e \<in> set (tq_timers q') \<and>
    expiration q' (fst e) = now + ti_interval t"
proof -
  from Process_ok [OF assms(1-4), of hash now now' sec sec'] obtain q2 q' where
    q': "ProcessAllExpiredTimers alloc act hash now now' sec sec' q = Inr q'" and
    m: "marks sec (due now q) (cancelled act q (due now q))
        (q\<lparr>tq_timers := filter (\<lambda>e. now < expiration q (fst e)) (tq_timers q), tq_canceling := []\<rparr>) q2" and
    post: "reset_post hash now sec' (due now q) q2 q'" and heap: "\<forall>p t. tq_heap q p = Some t \<longrightarrow> tq_heap q2 p = Some t"
    by blast
  have "reset_entry hash now sec' q2 q' e" using post assms(5) by (simp add: reset_post_def)
  moreover have "\<not> canceling_find hash sec' e q2"
    by (rule canceling_find_marks(3) [where hash = hash, OF m]) (use assms(5,9) in simp_all)
  ultimately show ?thesis
    using q' heap assms(6,7) by (auto simp: reset_entry_def expiration_def Timer_restart_def)
qed

theorem ProcessAllExpiredTimers_loses_cancellation_witness:
  "\<exists>q'. ProcessAllExpiredTimers first_free demo_act (\<lambda>s e. nat s) 10 11 3 4 demo_queue = Inr q' \<and>
     (1, 0) \<in> set (tq_timers q') \<and> expiration q' 1 = 15"
proof -
  have h: "(1, 0) \<in> set (due 10 demo_queue)" unfolding demo_queue_due by simp
  have t: "tq_heap demo_queue (fst (1 :: nat, 0 :: nat)) =
      Some \<lparr>ti_callback = 7, ti_expiration = 10, ti_interval = 5, ti_repeat = True, ti_sequence = 0\<rparr>"
    by (simp add: demo_queue_def TimerQueue_def)
  have c: "(1, 0) \<in> cancelled demo_act demo_queue (due 10 demo_queue)"
    unfolding demo_queue_due by (auto simp: cancelled_def callback_of_def demo_queue_def TimerQueue_def demo_act_def)
  show ?thesis
    using ProcessAllExpiredTimers_loses_cancellation [OF demo_queue_ok(1,2) first_free_fresh demo_queue_ok(3) h t _ c,
        of "\<lambda>s e. nat s" 3 4 11] by simp
qed

section \<open>Reachable queues\<close>

inductive tq_reach :: "int \<Rightarrow> timer_queue \<Rightarrow> bool" where
  start: "tq_reach now TimerQueue"
| add: "tq_reach now q \<Longrightarrow> now \<le> now' \<Longrightarrow> tq_heap q p = None \<Longrightarrow>
    AddTimer now' p cb time interval repeat q = Inr (e, q') \<Longrightarrow> tq_reach now' q'"
| cancel: "tq_reach now q \<Longrightarrow> now \<le> now' \<Longrightarrow> CancelTimer sec tid q = Inr q' \<Longrightarrow> tq_reach now' q'"
| fire: "tq_reach now q \<Longrightarrow> now \<le> now' \<Longrightarrow> now' \<le> now'' \<Longrightarrow> tq_counter q < 2 ^ 64 \<Longrightarrow> alloc_fresh alloc \<Longrightarrow>
    \<forall>cb. \<forall>a\<in>set (act cb). act_ok q a \<Longrightarrow>
    ProcessAllExpiredTimers alloc act hash now' now'' sec sec' q = Inr q' \<Longrightarrow> tq_reach now'' q'"

text \<open>C30. No timer is forgotten: after any sequence of additions, cancellations and expirations at increasing
  times, the active timers are alive and in the order of their deadlines, and while there is an active timer the
  descriptor is set to fire by the earliest deadline, or within 100 microseconds if that has passed.\<close>

theorem timer_queue_never_forgets:
  "tq_reach now q \<Longrightarrow> tq_ok q \<and> armed_ok now q"
proof (induction rule: tq_reach.induct)
  case (start now)
  show ?case by (simp add: tq_ok_def armed_ok_def TimerQueue_def)
next
  case (add now q now' p cb time interval repeat e q')
  then show ?case
    using AddTimer_ok [of q p now' cb time interval repeat] armed_ok_mono [of now q now'] by auto
next
  case (cancel now q now' sec tid q')
  then show ?case
    using CancelTimer_ok [of q sec tid q' now'] armed_ok_mono [of now q now'] by auto
next
  case (fire now q now' now'' alloc act hash sec sec' q')
  then show ?case
    using Process_ok [of q alloc act hash now' now'' sec sec'] by auto
qed

theorem timer_queue_never_forgets_witness:
  "\<exists>q. tq_reach 3 q \<and> tq_timers q = [(1, 0)] \<and> tq_ok q \<and> armed_ok 3 q"
proof -
  obtain q where q: "AddTimer 3 1 7 10 5 True TimerQueue = Inr ((1, 0), q)" "tq_timers q = [(1, 0)]"
    by (simp add: AddTimer_def AddTimer_in_loop_def Emplace_def new_timer_def TimerQueue_def SetTimerFd_def)
  have "tq_reach 3 q"
    by (rule tq_reach.add [OF tq_reach.start [of 0] _ _ q(1)]) (simp_all add: TimerQueue_def)
  with timer_queue_never_forgets [OF this] q(2) show ?thesis by blast
qed

end
