(* ===== verification/Channel.thy ===== *)
theory Channel
  imports Kanon_Prelude "HOL-Library.Sublist"
begin

text \<open>
  Model of \<^verbatim>\<open>kanon/linux/net/channel.h\<close>, \<^verbatim>\<open>channel.cc\<close> and \<^verbatim>\<open>kanon/linux/net/event.h\<close>: a descriptor with its
  interested and received events (bit masks of \<open>poll(2)\<close>) and the dispatch of the received events to the
  callbacks. A callback is user code: the dispatch yields the sequence of callbacks it calls.
\<close>

unbundle bit_operations_syntax

section \<open>Events\<close>

abbreviation (input) POLLIN :: "32 word" where "POLLIN \<equiv> 0x001"
abbreviation (input) POLLPRI :: "32 word" where "POLLPRI \<equiv> 0x002"
abbreviation (input) POLLOUT :: "32 word" where "POLLOUT \<equiv> 0x004"
abbreviation (input) POLLERR :: "32 word" where "POLLERR \<equiv> 0x008"
abbreviation (input) POLLHUP :: "32 word" where "POLLHUP \<equiv> 0x010"
abbreviation (input) POLLNVAL :: "32 word" where "POLLNVAL \<equiv> 0x020"
abbreviation (input) POLLRDHUP :: "32 word" where "POLLRDHUP \<equiv> 0x2000"
abbreviation (input) EPOLLET :: "32 word" where "EPOLLET \<equiv> 0x80000000"

definition ReadEvent :: "32 word" where "ReadEvent = POLLIN OR POLLPRI"
definition WriteEvent :: "32 word" where "WriteEvent = POLLOUT"
definition NoneEvent :: "32 word" where "NoneEvent = 0"

text \<open>\<open>revents & mask\<close> used as a condition.\<close>

definition has_event :: "32 word \<Rightarrow> 32 word \<Rightarrow> bool" where
  "has_event ev m \<longleftrightarrow> ev AND m \<noteq> 0"

section \<open>Channels\<close>

record channel =
  ch_fd :: int
  ch_events :: "32 word"
  ch_revents :: "32 word"
  ch_index :: int
  ch_read_cb :: bool
  ch_write_cb :: bool
  ch_close_cb :: bool
  ch_error_cb :: bool
  ch_handling :: bool

definition Channel :: "int \<Rightarrow> channel" where
  "Channel fd = \<lparr>ch_fd = fd, ch_events = 0, ch_revents = 0, ch_index = - 1,
     ch_read_cb = False, ch_write_cb = False, ch_close_cb = False, ch_error_cb = False, ch_handling = False\<rparr>"

text \<open>The change of \<open>events_\<close> in \<open>EnableReading\<close> and its siblings; each of them then calls \<open>Update\<close>.\<close>

definition ch_EnableReading :: "channel \<Rightarrow> channel" where
  "ch_EnableReading c = c\<lparr>ch_events := ch_events c OR ReadEvent\<rparr>"

definition ch_EnableWriting :: "channel \<Rightarrow> channel" where
  "ch_EnableWriting c = c\<lparr>ch_events := ch_events c OR WriteEvent\<rparr>"

definition ch_DisableReading :: "channel \<Rightarrow> channel" where
  "ch_DisableReading c = c\<lparr>ch_events := ch_events c AND NOT ReadEvent\<rparr>"

definition ch_DisableWriting :: "channel \<Rightarrow> channel" where
  "ch_DisableWriting c = c\<lparr>ch_events := ch_events c AND NOT WriteEvent\<rparr>"

definition ch_DisableAll :: "channel \<Rightarrow> channel" where
  "ch_DisableAll c = c\<lparr>ch_events := NoneEvent\<rparr>"

definition ch_IsReading :: "channel \<Rightarrow> bool" where
  "ch_IsReading c = has_event (ch_events c) ReadEvent"

definition ch_IsWriting :: "channel \<Rightarrow> bool" where
  "ch_IsWriting c = has_event (ch_events c) WriteEvent"

definition ch_IsNoneEvent :: "channel \<Rightarrow> bool" where
  "ch_IsNoneEvent c \<longleftrightarrow> ch_events c = NoneEvent"

datatype callback = CloseCallback | ErrorCallback | ReadCallback | WriteCallback

text \<open>\<open>HandleEvents\<close>: the callbacks in the order of their calls. The conditions read \<open>revents_\<close>,
  which the callbacks do not change.\<close>

definition ch_HandleEvents :: "channel \<Rightarrow> callback list" where
  "ch_HandleEvents c =
     (let rev = ch_revents c in
      (if has_event rev POLLHUP \<and> \<not> has_event rev POLLIN \<and> ch_close_cb c then [CloseCallback] else []) @
      (if has_event rev (POLLERR OR POLLNVAL) \<and> ch_error_cb c then [ErrorCallback] else []) @
      (if has_event rev (POLLIN OR POLLPRI OR POLLRDHUP) \<and> ch_read_cb c then [ReadCallback] else []) @
      (if has_event rev POLLOUT \<and> ch_write_cb c then [WriteCallback] else []))"

text \<open>The destructor asserts that no events are being handled.\<close>

definition Channel_dtor :: "channel \<Rightarrow> unit res" where
  "Channel_dtor c = assertR (\<not> ch_handling c)"

definition Ev2String :: "32 word \<Rightarrow> string" where
  "Ev2String ev =
     (if has_event ev POLLIN then '' IN'' else '''') @
     (if has_event ev POLLPRI then '' PRI'' else '''') @
     (if has_event ev POLLOUT then '' OUT'' else '''') @
     (if has_event ev POLLRDHUP then '' RDHUP'' else '''') @
     (if has_event ev POLLHUP then '' HUP'' else '''') @
     (if has_event ev POLLERR then '' ERR'' else '''') @
     (if has_event ev POLLNVAL then '' NVAL'' else '''') @
     (if has_event ev EPOLLET then '' ET'' else '''') @ '' ''"

lemmas channel_ops =
  ch_EnableReading_def ch_EnableWriting_def ch_DisableReading_def ch_DisableWriting_def ch_DisableAll_def
  ch_IsReading_def ch_IsWriting_def ch_IsNoneEvent_def ReadEvent_def WriteEvent_def NoneEvent_def has_event_def

section \<open>Masks\<close>

lemma has_event_or: "has_event ev (a OR b) \<longleftrightarrow> has_event ev a \<or> has_event ev b"
  by (simp add: has_event_def bit.conj_disj_distrib or_eq_0_iff)

lemma has_event_set:
  "has_event (ev OR m) m \<longleftrightarrow> m \<noteq> 0" "\<not> has_event (ev AND NOT m) m"
proof -
  have "(ev OR m) AND m = m" "(ev AND NOT m) AND m = 0"
    by (rule bit_word_eqI; auto simp: bit_simps)+
  then show "has_event (ev OR m) m \<longleftrightarrow> m \<noteq> 0" "\<not> has_event (ev AND NOT m) m"
    by (simp_all add: has_event_def)
qed

lemma has_event_disjoint:
  assumes "m AND k = 0"
  shows "has_event (ev OR m) k = has_event ev k" "has_event (ev AND NOT m) k = has_event ev k"
proof -
  have "\<not> (bit m n \<and> bit k n)" for n
    using assms by (metis bit_0_eq bit_and_iff bot_apply bot_bool_def)
  then have "(ev OR m) AND k = ev AND k" "(ev AND NOT m) AND k = ev AND k"
    by (intro bit_word_eqI; auto simp: bit_simps)+
  then show "has_event (ev OR m) k = has_event ev k" "has_event (ev AND NOT m) k = has_event ev k"
    by (simp_all add: has_event_def)
qed

lemma event_masks:
  "ReadEvent AND WriteEvent = 0" "WriteEvent AND ReadEvent = 0" "ReadEvent \<noteq> 0" "WriteEvent \<noteq> 0"
  by (simp_all add: ReadEvent_def WriteEvent_def)

lemmas mask_simps = has_event_set has_event_disjoint [OF event_masks(1)] has_event_disjoint [OF event_masks(2)]

text \<open>Reading and writing are independent: enabling or disabling one leaves the other.\<close>

lemma reading_bits:
  "ch_IsReading (ch_EnableReading c)" "\<not> ch_IsReading (ch_DisableReading c)"
  "ch_IsReading (ch_EnableWriting c) = ch_IsReading c" "ch_IsReading (ch_DisableWriting c) = ch_IsReading c"
  "\<not> ch_IsReading (ch_DisableAll c)"
  by (simp_all add: ch_IsReading_def ch_EnableReading_def ch_DisableReading_def ch_EnableWriting_def
      ch_DisableWriting_def ch_DisableAll_def mask_simps event_masks) (simp add: has_event_def NoneEvent_def)

lemma writing_bits:
  "ch_IsWriting (ch_EnableWriting c)" "\<not> ch_IsWriting (ch_DisableWriting c)"
  "ch_IsWriting (ch_EnableReading c) = ch_IsWriting c" "ch_IsWriting (ch_DisableReading c) = ch_IsWriting c"
  "\<not> ch_IsWriting (ch_DisableAll c)"
  by (simp_all add: ch_IsWriting_def ch_EnableReading_def ch_DisableReading_def ch_EnableWriting_def
      ch_DisableWriting_def ch_DisableAll_def mask_simps event_masks) (simp add: has_event_def NoneEvent_def)

section \<open>Dispatch\<close>

text \<open>Dispatch: every callback is called at most once per dispatch, always in the order close, error,
  read, write; the close callback only on a hang-up without readable data, the write callback only when
  the descriptor is writable, and a descriptor that is readable always reaches the read callback.\<close>

theorem HandleEvents_dispatch:
  "subseq (ch_HandleEvents c) [CloseCallback, ErrorCallback, ReadCallback, WriteCallback] \<and>
   (CloseCallback \<in> set (ch_HandleEvents c) \<longleftrightarrow>
      ch_close_cb c \<and> has_event (ch_revents c) POLLHUP \<and> \<not> has_event (ch_revents c) POLLIN) \<and>
   (WriteCallback \<in> set (ch_HandleEvents c) \<longleftrightarrow> ch_write_cb c \<and> has_event (ch_revents c) POLLOUT) \<and>
   (has_event (ch_revents c) POLLIN \<and> ch_read_cb c \<longrightarrow>
      ReadCallback \<in> set (ch_HandleEvents c) \<and> CloseCallback \<notin> set (ch_HandleEvents c))"
  unfolding ch_HandleEvents_def Let_def has_event_or by auto

theorem HandleEvents_dispatch_witness:
  "let c = (Channel 5)\<lparr>ch_revents := POLLIN OR POLLHUP OR POLLOUT, ch_read_cb := True, ch_close_cb := True,
      ch_write_cb := True\<rparr> in
   has_event (ch_revents c) POLLIN \<and> ch_read_cb c \<and> ReadCallback \<in> set (ch_HandleEvents c) \<and>
   ch_HandleEvents c = [ReadCallback, WriteCallback]"
  using HandleEvents_dispatch [of "(Channel 5)\<lparr>ch_revents := POLLIN OR POLLHUP OR POLLOUT, ch_read_cb := True,
      ch_close_cb := True, ch_write_cb := True\<rparr>"]
  by (simp add: Let_def ch_HandleEvents_def Channel_def has_event_def)

end
