(* ===== verification/Demux.thy ===== *)
theory Demux
  imports Channel
begin

text \<open>
  Model of \<^verbatim>\<open>kanon/linux/net/poller.cc\<close> and \<^verbatim>\<open>kanon/linux/net/epoller.cc\<close>: the two demultiplexers behind
  \<open>PollerBase\<close>. A channel is named by its address; the state of a demultiplexer holds the channels, since
  both of them write the index of a channel. The contract of \<open>PollerBase\<close> is the locale \<open>demultiplexer\<close>, with
  \<open>poll\<close>'s table of descriptors and the kernel's interest table of \<open>epoll\<close> as its two implementations.
\<close>

section \<open>Poller\<close>

record pollfd =
  pf_fd :: int
  pf_events :: "16 word"
  pf_revents :: "16 word"

record poller =
  pl_chans :: "nat \<Rightarrow> channel"
  pl_pollfds :: "pollfd list"
  pl_map :: "int \<rightharpoonup> nat"

abbreviation set_index :: "nat \<Rightarrow> int \<Rightarrow> (nat \<Rightarrow> channel) \<Rightarrow> (nat \<Rightarrow> channel)" where
  "set_index c i cs \<equiv> cs(c := (cs c)\<lparr>ch_index := i\<rparr>)"

text \<open>\<open>pollfds_[index]\<close>, with the index an \<open>int\<close>.\<close>

definition pollfd_at :: "pollfd list \<Rightarrow> int \<Rightarrow> pollfd res" where
  "pollfd_at fds i = (if 0 \<le> i \<and> i < int (length fds) then Inr (fds ! nat i) else Inl OutOfBounds)"

definition Poller_UpdateChannel :: "poller \<Rightarrow> nat \<Rightarrow> poller res" where
  "Poller_UpdateChannel p c =
     (let ch = pl_chans p c in
      case pl_map p (ch_fd ch) of
        None \<Rightarrow>
          rbind (assertR (ch_index ch = - 1)) (\<lambda>_.
            let new_pollfd = \<lparr>pf_fd = ch_fd ch, pf_events = ucast (ch_events ch), pf_revents = 0\<rparr>;
                fds = pl_pollfds p @ [new_pollfd] in
            Inr (p\<lparr>pl_map := (pl_map p)(ch_fd ch \<mapsto> c), pl_pollfds := fds,
                   pl_chans := set_index c (int (length fds) - 1) (pl_chans p)\<rparr>))
      | Some c' \<Rightarrow>
          rbind (assertR (c' = c)) (\<lambda>_.
            let index = ch_index ch in
            rbind (assertR (index \<noteq> - 1 \<and> index \<le> int (length (pl_pollfds p)))) (\<lambda>_.
            rbind (pollfd_at (pl_pollfds p) index) (\<lambda>now_pollfd.
            rbind (assertR (pf_fd now_pollfd = ch_fd ch)) (\<lambda>_.
              let now_pollfd =
                    (if ch_IsNoneEvent ch then now_pollfd\<lparr>pf_fd := - pf_fd now_pollfd - 1\<rparr> else now_pollfd)
                      \<lparr>pf_events := ucast (ch_events ch), pf_revents := 0\<rparr> in
              Inr (p\<lparr>pl_pollfds := (pl_pollfds p)[nat index := now_pollfd]\<rparr>))))))"

definition Poller_RemoveChannel :: "poller \<Rightarrow> nat \<Rightarrow> poller res" where
  "Poller_RemoveChannel p c =
     (let ch = pl_chans p c; fds = pl_pollfds p in
      case pl_map p (ch_fd ch) of
        None \<Rightarrow> Inr p
      | Some c' \<Rightarrow>
          if fds = [] then Inl OutOfBounds
          else
            rbind (if ch_fd (pl_chans p c') = pf_fd (last fds)
                   then Inr (p\<lparr>pl_pollfds := butlast fds\<rparr>)
                   else
                     let index = ch_index ch in
                     rbind (assertR (index \<noteq> - 1 \<and> index < int (length fds))) (\<lambda>_.
                     rbind (pollfd_at fds index) (\<lambda>removed.
                       let back_fd = pf_fd (last fds);
                           fds = butlast (fds[nat index := last fds, length fds - 1 := removed]);
                           back_fd = (if back_fd < 0 then - back_fd - 1 else back_fd) in
                       case pl_map p back_fd of
                         None \<Rightarrow> Inl NullDeref
                       | Some b \<Rightarrow> Inr (p\<lparr>pl_pollfds := fds, pl_chans := set_index b index (pl_chans p)\<rparr>))))
              (\<lambda>p. Inr (p\<lparr>pl_map := (pl_map p)(ch_fd ch := None)\<rparr>)))"

text \<open>The loop of \<open>Poll\<close> over \<open>pollfds_\<close> once \<open>poll(2)\<close> has filled in the received events:
  \<open>ev_num\<close> descriptors are ready.\<close>

fun poll_active :: "poller \<Rightarrow> pollfd list \<Rightarrow> nat \<Rightarrow> nat list \<Rightarrow> (poller \<times> nat list) res" where
  "poll_active p [] ev_num active = Inr (p, active)"
| "poll_active p (pf # pfs) ev_num active =
     (if ev_num = 0 then Inr (p, active)
      else if 0 < sint (pf_revents pf) then
        (case pl_map p (pf_fd pf) of
           None \<Rightarrow> Inl AssertFail
         | Some c \<Rightarrow>
             rbind (assertR (ch_fd (pl_chans p c) = pf_fd pf)) (\<lambda>_.
               poll_active
                 (p\<lparr>pl_chans := (pl_chans p)(c := (pl_chans p c)\<lparr>ch_revents := scast (pf_revents pf)\<rparr>)\<rparr>)
                 pfs (ev_num - 1) (active @ [c])))
      else poll_active p pfs ev_num active)"

text \<open>The system call is a parameter: its result and the received events.\<close>

definition Poller_Poll ::
  "(pollfd list \<Rightarrow> int \<times> 16 word list) \<Rightarrow> poller \<Rightarrow> (poller \<times> nat list) res" where
  "Poller_Poll poll p =
     (let (ret, revs) = poll (pl_pollfds p);
          p = p\<lparr>pl_pollfds := map2 (\<lambda>pf r. pf\<lparr>pf_revents := r\<rparr>) (pl_pollfds p) revs\<rparr> in
      if 0 < ret then poll_active p (pl_pollfds p) (nat ret) []
      else Inr (p, []))"

section \<open>Epoller\<close>

datatype epoll_op = EPOLL_CTL_ADD | EPOLL_CTL_MOD | EPOLL_CTL_DEL

abbreviation (input) kNew :: int where "kNew \<equiv> - 1"
abbreviation (input) kAdded :: int where "kAdded \<equiv> 1"

text \<open>The state of the kernel behind \<open>epoll_ctl(2)\<close> is a parameter; \<open>None\<close> is an error of the call.\<close>

type_synonym 'k epoll_ctl = "epoll_op \<Rightarrow> int \<Rightarrow> 32 word \<times> nat \<Rightarrow> 'k \<Rightarrow> 'k option"

record 'k epoller =
  ep_chans :: "nat \<Rightarrow> channel"
  ep_kernel :: 'k
  ep_et_mode :: bool
  ep_capacity :: nat

definition Epoller :: "'k \<Rightarrow> (nat \<Rightarrow> channel) \<Rightarrow> 'k epoller" where
  "Epoller k cs = \<lparr>ep_chans = cs, ep_kernel = k, ep_et_mode = False, ep_capacity = 16\<rparr>"

definition SetEdgeTriggertMode :: "'k epoller \<Rightarrow> 'k epoller" where
  "SetEdgeTriggertMode p = p\<lparr>ep_et_mode := True\<rparr>"

definition UpdateEpollEvent :: "'k epoll_ctl \<Rightarrow> epoll_op \<Rightarrow> 'k epoller \<Rightarrow> nat \<Rightarrow> 'k epoller res" where
  "UpdateEpollEvent ctl opn p c =
     (let ch = ep_chans p c;
          ev = (if \<not> ch_IsNoneEvent ch \<and> ep_et_mode p then ch_events ch OR EPOLLET else ch_events ch) in
      case ctl opn (ch_fd ch) (ev, c) (ep_kernel p) of
        None \<Rightarrow> Inl Fatal
      | Some k \<Rightarrow> Inr (p\<lparr>ep_kernel := k\<rparr>))"

definition Epoller_UpdateChannel :: "'k epoll_ctl \<Rightarrow> 'k epoller \<Rightarrow> nat \<Rightarrow> 'k epoller res" where
  "Epoller_UpdateChannel ctl p c =
     (if ch_index (ep_chans p c) = kNew
      then rbind (UpdateEpollEvent ctl EPOLL_CTL_ADD p c)
             (\<lambda>p. Inr (p\<lparr>ep_chans := set_index c kAdded (ep_chans p)\<rparr>))
      else UpdateEpollEvent ctl EPOLL_CTL_MOD p c)"

definition Epoller_RemoveChannel :: "'k epoll_ctl \<Rightarrow> 'k epoller \<Rightarrow> nat \<Rightarrow> 'k epoller res" where
  "Epoller_RemoveChannel ctl p c =
     (if ch_index (ep_chans p c) = kAdded
      then rbind (UpdateEpollEvent ctl EPOLL_CTL_DEL p c)
             (\<lambda>p. Inr (p\<lparr>ep_chans := set_index c kNew (ep_chans p)\<rparr>))
      else Inr p)"

text \<open>The ready events of one \<open>epoll_wait(2)\<close>: events and the address of the channel.\<close>

fun FillActiveChannels ::
  "'k epoller \<Rightarrow> (32 word \<times> nat) list \<Rightarrow> nat list \<Rightarrow> ('k epoller \<times> nat list) res" where
  "FillActiveChannels p [] active = Inr (p, active)"
| "FillActiveChannels p ((ev, c) # evs) active =
     rbind (assertR (\<not> ch_IsNoneEvent (ep_chans p c))) (\<lambda>_.
       FillActiveChannels (p\<lparr>ep_chans := (ep_chans p)(c := (ep_chans p c)\<lparr>ch_revents := ev\<rparr>)\<rparr>)
         evs (active @ [c]))"

definition Epoller_Poll ::
  "('k \<Rightarrow> nat \<Rightarrow> (32 word \<times> nat) list option) \<Rightarrow> 'k epoller \<Rightarrow> ('k epoller \<times> nat list) res" where
  "Epoller_Poll wait p =
     (case wait (ep_kernel p) (ep_capacity p) of
        None \<Rightarrow> Inr (p, [])
      | Some evs \<Rightarrow>
          if evs = [] then Inr (p, [])
          else
            rbind (assertR (length evs \<le> ep_capacity p)) (\<lambda>_.
            rbind (FillActiveChannels p evs []) (\<lambda>(p, active).
              Inr (if ep_capacity p = length evs then p\<lparr>ep_capacity := 2 * length evs\<rparr> else p, active))))"

section \<open>The contract of a demultiplexer\<close>

text \<open>The events a demultiplexer watches on a descriptor: none at all is the same as not watching it.\<close>

definition watch_mask :: "32 word \<Rightarrow> 16 word option" where
  "watch_mask ev = (if ucast ev = (0 :: 16 word) then None else Some (ucast ev))"

text \<open>The changes of the events of one channel, each followed by an update of the table, as
  \<open>EnableReading\<close> and its siblings do.\<close>

fun demux_updates ::
  "('s \<Rightarrow> nat \<Rightarrow> 's res) \<Rightarrow> (nat \<Rightarrow> 32 word \<Rightarrow> 's \<Rightarrow> 's) \<Rightarrow> 's \<Rightarrow> nat \<Rightarrow> 32 word list \<Rightarrow> 's res" where
  "demux_updates upd setev s c [] = Inr s"
| "demux_updates upd setev s c (e # es) =
     rbind (upd (setev c e s) c) (\<lambda>s. demux_updates upd setev s c es)"

locale demultiplexer =
  fixes ok :: "'s \<Rightarrow> bool"
    and chan :: "'s \<Rightarrow> nat \<Rightarrow> channel"
    and set_events :: "nat \<Rightarrow> 32 word \<Rightarrow> 's \<Rightarrow> 's"
    and watched :: "'s \<Rightarrow> int \<Rightarrow> 16 word option"
    and fresh :: "'s \<Rightarrow> nat \<Rightarrow> bool"
    and active :: "'s \<Rightarrow> nat \<Rightarrow> bool"
    and idle :: "'s \<Rightarrow> nat \<Rightarrow> bool"
    and update :: "'s \<Rightarrow> nat \<Rightarrow> 's res"
    and remove :: "'s \<Rightarrow> nat \<Rightarrow> 's res"
  assumes set_events: "ok s \<Longrightarrow> ok (set_events c e s) \<and> watched (set_events c e s) = watched s \<and>
      fresh (set_events c e s) = fresh s \<and> active (set_events c e s) = active s \<and>
      ch_fd (chan (set_events c e s) c) = ch_fd (chan s c) \<and> ch_events (chan (set_events c e s) c) = e"
    and fresh_watched: "ok s \<Longrightarrow> fresh s c \<Longrightarrow> watched s (ch_fd (chan s c)) = None"
    and update_ok: "ok s \<Longrightarrow> fresh s c \<and> ch_events (chan s c) \<noteq> 0 \<or> active s c \<Longrightarrow>
      \<exists>s'. update s c = Inr s' \<and> ok s' \<and>
        watched s' = (watched s)(ch_fd (chan s c) := watch_mask (ch_events (chan s c))) \<and>
        ch_fd (chan s' c) = ch_fd (chan s c) \<and>
        (if ch_events (chan s c) = 0 then idle s' c else active s' c)"
    and remove_ok: "ok s \<Longrightarrow> idle s c \<Longrightarrow>
      \<exists>s'. remove s c = Inr s' \<and> ok s' \<and> watched s' = (watched s)(ch_fd (chan s c) := None)"
begin

lemma updates_active:
  assumes "ok s" "active s c" "0 \<notin> set es"
  shows "\<exists>s'. demux_updates update set_events s c es = Inr s' \<and> ok s' \<and> active s' c \<and> ch_fd (chan s' c) = ch_fd (chan s c) \<and>
    watched s' = (if es = [] then watched s else (watched s)(ch_fd (chan s c) := watch_mask (List.last es)))"
  using assms
proof (induction es arbitrary: s)
  case (Cons e es)
  define s1 where "s1 = set_events c e s"
  have s1: "ok s1" "active s1 c" "watched s1 = watched s" "ch_fd (chan s1 c) = ch_fd (chan s c)" "ch_events (chan s1 c) = e"
    using set_events [OF Cons.prems(1), of c e] Cons.prems(2) by (simp_all add: s1_def)
  with update_ok [of s1 c] Cons.prems(3) obtain s2 where s2: "update s1 c = Inr s2" "ok s2" "active s2 c"
    "watched s2 = (watched s)(ch_fd (chan s c) := watch_mask e)" "ch_fd (chan s2 c) = ch_fd (chan s c)" by auto
  from Cons.IH [OF s2(2,3)] Cons.prems(3) s2 show ?case by (auto simp: s1_def [symmetric])
qed simp

text \<open>A channel that is added, changes its events, is disabled and removed: in between its last events are
  watched, and afterwards the table is the one it started from.\<close>

lemma lifecycle:
  assumes "ok s" "fresh s c" "0 \<notin> set (e # es)"
  shows "\<exists>s1 s2 s3. demux_updates update set_events s c (e # es) = Inr s1 \<and>
    watched s1 = (watched s)(ch_fd (chan s c) := watch_mask (List.last (e # es))) \<and>
    update (set_events c 0 s1) c = Inr s2 \<and> remove s2 c = Inr s3 \<and> ok s3 \<and> watched s3 = watched s"
proof -
  define t where "t = set_events c e s"
  have t: "ok t" "fresh t c" "watched t = watched s" "ch_fd (chan t c) = ch_fd (chan s c)" "ch_events (chan t c) = e"
    using set_events [OF assms(1), of c e] assms(2) by (simp_all add: t_def)
  with update_ok [of t c] assms(3) obtain u where u: "update t c = Inr u" "ok u" "active u c"
    "watched u = (watched s)(ch_fd (chan s c) := watch_mask e)" "ch_fd (chan u c) = ch_fd (chan s c)" by auto
  from updates_active [OF u(2,3), of es] assms(3) u obtain s1 where s1: "demux_updates update set_events u c es = Inr s1" "ok s1" "active s1 c"
    "ch_fd (chan s1 c) = ch_fd (chan s c)"
    "watched s1 = (watched s)(ch_fd (chan s c) := watch_mask (List.last (e # es)))" by auto
  define v where "v = set_events c 0 s1"
  have v: "ok v" "active v c" "watched v = watched s1" "ch_fd (chan v c) = ch_fd (chan s c)" "ch_events (chan v c) = 0"
    using set_events [OF s1(2), of c 0] s1(3,4) by (simp_all add: v_def)
  with update_ok [of v c] obtain s2 where s2: "update v c = Inr s2" "ok s2" "idle s2 c"
    "watched s2 = (watched s1)(ch_fd (chan s c) := watch_mask 0)" "ch_fd (chan s2 c) = ch_fd (chan s c)" by auto
  from remove_ok [OF s2(2,3)] obtain s3 where s3: "remove s2 c = Inr s3" "ok s3"
    "watched s3 = (watched s2)(ch_fd (chan s c) := None)" using s2(5) by auto
  have "watched s3 = watched s"
    using s3(3) s2(4) s1(5) fresh_watched [OF assms(1,2)] by auto
  then show ?thesis
    using u(1) s1(1,5) s2(1) s3(1,2) by (simp add: t_def v_def)
qed

end

section \<open>The poller\<close>

definition poller_ok :: "poller \<Rightarrow> bool" where
  "poller_ok p \<longleftrightarrow>
     (\<forall>fd c. pl_map p fd = Some c \<longrightarrow> ch_fd (pl_chans p c) = fd \<and> 0 \<le> fd \<and>
        (\<exists>i < length (pl_pollfds p). ch_index (pl_chans p c) = int i \<and>
           (pf_fd (pl_pollfds p ! i) = fd \<or> pf_fd (pl_pollfds p ! i) = - fd - 1))) \<and>
     (\<forall>i < length (pl_pollfds p). \<exists>fd c. pl_map p fd = Some c \<and> ch_index (pl_chans p c) = int i)"

definition poller_watched :: "poller \<Rightarrow> int \<Rightarrow> 16 word option" where
  "poller_watched p fd =
     (case pl_map p fd of
        None \<Rightarrow> None
      | Some c \<Rightarrow>
          let pf = pl_pollfds p ! nat (ch_index (pl_chans p c)) in
          if pf_fd pf = fd \<and> pf_events pf \<noteq> 0 then Some (pf_events pf) else None)"

definition poller_fresh :: "poller \<Rightarrow> nat \<Rightarrow> bool" where
  "poller_fresh p c \<longleftrightarrow> pl_map p (ch_fd (pl_chans p c)) = None \<and> 0 \<le> ch_fd (pl_chans p c) \<and>
     ch_index (pl_chans p c) = - 1"

definition poller_active :: "poller \<Rightarrow> nat \<Rightarrow> bool" where
  "poller_active p c \<longleftrightarrow> pl_map p (ch_fd (pl_chans p c)) = Some c \<and>
     pf_fd (pl_pollfds p ! nat (ch_index (pl_chans p c))) = ch_fd (pl_chans p c)"

definition poller_idle :: "poller \<Rightarrow> nat \<Rightarrow> bool" where
  "poller_idle p c \<longleftrightarrow> pl_map p (ch_fd (pl_chans p c)) = Some c"

definition poller_set_events :: "nat \<Rightarrow> 32 word \<Rightarrow> poller \<Rightarrow> poller" where
  "poller_set_events c e p = p\<lparr>pl_chans := (pl_chans p)(c := (pl_chans p c)\<lparr>ch_events := e\<rparr>)\<rparr>"

lemma poller_okD:
  assumes "poller_ok p" "pl_map p fd = Some c"
  obtains i where "i < length (pl_pollfds p)" "ch_index (pl_chans p c) = int i" "ch_fd (pl_chans p c) = fd" "0 \<le> fd"
    "pf_fd (pl_pollfds p ! i) = fd \<or> pf_fd (pl_pollfds p ! i) = - fd - 1"
  using assms unfolding poller_ok_def by metis

lemma poller_slot:
  "poller_ok p \<Longrightarrow> pl_map p fd = Some c \<Longrightarrow> ch_fd (pl_chans p c) = fd \<and> 0 \<le> fd \<and>
   (\<exists>i < length (pl_pollfds p). ch_index (pl_chans p c) = int i \<and>
      (pf_fd (pl_pollfds p ! i) = fd \<or> pf_fd (pl_pollfds p ! i) = - fd - 1))"
  unfolding poller_ok_def by blast

lemma poller_cover:
  "poller_ok p \<Longrightarrow> i < length (pl_pollfds p) \<Longrightarrow> \<exists>fd c. pl_map p fd = Some c \<and> ch_index (pl_chans p c) = int i"
  unfolding poller_ok_def by blast

lemma poller_okI:
  assumes "\<And>fd c. pl_map p fd = Some c \<Longrightarrow> ch_fd (pl_chans p c) = fd \<and> 0 \<le> fd \<and>
      (\<exists>i < length (pl_pollfds p). ch_index (pl_chans p c) = int i \<and>
         (pf_fd (pl_pollfds p ! i) = fd \<or> pf_fd (pl_pollfds p ! i) = - fd - 1))"
    and "\<And>i. i < length (pl_pollfds p) \<Longrightarrow> \<exists>fd c. pl_map p fd = Some c \<and> ch_index (pl_chans p c) = int i"
  shows "poller_ok p"
  unfolding poller_ok_def using assms by blast

lemma poller_owner:
  assumes "poller_ok p" "i < length (pl_pollfds p)"
  obtains fd c where "pl_map p fd = Some c" "ch_index (pl_chans p c) = int i" "ch_fd (pl_chans p c) = fd" "0 \<le> fd"
    "pf_fd (pl_pollfds p ! i) = fd \<or> pf_fd (pl_pollfds p ! i) = - fd - 1"
  using assms unfolding poller_ok_def by (metis of_nat_eq_iff)

text \<open>A slot belongs to one descriptor.\<close>

lemma poller_index_inj:
  assumes "poller_ok p" "pl_map p fd = Some c" "pl_map p fd' = Some c'"
    "ch_index (pl_chans p c) = ch_index (pl_chans p c')"
  shows "fd = fd'"
proof -
  obtain i where i: "ch_index (pl_chans p c) = int i" "0 \<le> fd" "pf_fd (pl_pollfds p ! i) = fd \<or> pf_fd (pl_pollfds p ! i) = - fd - 1"
    using poller_okD [OF assms(1,2)] by metis
  obtain j where j: "ch_index (pl_chans p c') = int j" "0 \<le> fd'" "pf_fd (pl_pollfds p ! j) = fd' \<or> pf_fd (pl_pollfds p ! j) = - fd' - 1"
    using poller_okD [OF assms(1,3)] by metis
  have "i = j" using assms(4) i(1) j(1) by simp
  then show ?thesis using i(2,3) j(2,3) by auto
qed

lemma poller_chan_inj:
  "poller_ok p \<Longrightarrow> pl_map p fd = Some c \<Longrightarrow> pl_map p fd' = Some c \<Longrightarrow> fd = fd'"
  by (metis poller_okD)

lemma poller_set_events_ok:
  assumes "poller_ok p"
  shows "poller_ok (poller_set_events c e p) \<and> poller_watched (poller_set_events c e p) = poller_watched p \<and>
      poller_fresh (poller_set_events c e p) = poller_fresh p \<and> poller_active (poller_set_events c e p) = poller_active p \<and>
      ch_fd (pl_chans (poller_set_events c e p) c) = ch_fd (pl_chans p c) \<and>
      ch_events (pl_chans (poller_set_events c e p) c) = e"
proof -
  have same: "ch_fd (pl_chans (poller_set_events c e p) d) = ch_fd (pl_chans p d)"
    "ch_index (pl_chans (poller_set_events c e p) d) = ch_index (pl_chans p d)" for d
    by (simp_all add: poller_set_events_def)
  have tables: "pl_map (poller_set_events c e p) = pl_map p" "pl_pollfds (poller_set_events c e p) = pl_pollfds p"
    by (simp_all add: poller_set_events_def)
  show ?thesis
    using assms unfolding poller_ok_def poller_watched_def poller_fresh_def poller_active_def same tables
    by (simp add: poller_set_events_def)
qed

lemma Poller_add_ok:
  assumes "poller_ok p" "poller_fresh p c"
  defines "ch \<equiv> pl_chans p c"
  shows "\<exists>p'. Poller_UpdateChannel p c = Inr p' \<and> poller_ok p' \<and> ch_fd (pl_chans p' c) = ch_fd ch \<and>
    poller_active p' c \<and> poller_watched p' = (poller_watched p)(ch_fd ch := watch_mask (ch_events ch))"
proof -
  define n where "n = length (pl_pollfds p)"
  define pf where "pf = \<lparr>pf_fd = ch_fd ch, pf_events = ucast (ch_events ch) :: 16 word, pf_revents = 0\<rparr>"
  define p' where "p' = p\<lparr>pl_map := (pl_map p)(ch_fd ch \<mapsto> c), pl_pollfds := pl_pollfds p @ [pf],
      pl_chans := set_index c (int n) (pl_chans p)\<rparr>"
  have fresh: "pl_map p (ch_fd ch) = None" "0 \<le> ch_fd ch" "ch_index ch = - 1"
    using assms(2) by (simp_all add: poller_fresh_def ch_def)
  have upd: "Poller_UpdateChannel p c = Inr p'"
    using fresh by (simp add: Poller_UpdateChannel_def ch_def [symmetric] p'_def n_def pf_def)
  have other: "c' \<noteq> c" "fd \<noteq> ch_fd ch" if "pl_map p fd = Some c'" for fd c'
    using poller_slot [OF assms(1) that] fresh(1,3) that by (auto simp: ch_def)
  have old: "\<exists>i < n. ch_index (pl_chans p' c') = int i \<and> ch_fd (pl_chans p' c') = fd \<and> 0 \<le> fd \<and>
      (pf_fd (pl_pollfds p ! i) = fd \<or> pf_fd (pl_pollfds p ! i) = - fd - 1)" if "pl_map p fd = Some c'" for fd c'
    using poller_slot [OF assms(1) that] other [OF that] by (auto simp: p'_def n_def)
  have "poller_ok p'"
  proof (rule poller_okI)
    fix fd c' assume a: "pl_map p' fd = Some c'"
    show "ch_fd (pl_chans p' c') = fd \<and> 0 \<le> fd \<and> (\<exists>i < length (pl_pollfds p'). ch_index (pl_chans p' c') = int i \<and>
           (pf_fd (pl_pollfds p' ! i) = fd \<or> pf_fd (pl_pollfds p' ! i) = - fd - 1))"
    proof (cases "fd = ch_fd ch")
      case True
      with a fresh(2) show ?thesis by (auto simp: p'_def n_def pf_def ch_def intro!: exI [of _ n])
    next
      case False
      with a have "pl_map p fd = Some c'" by (simp add: p'_def)
      from old [OF this] obtain i where "i < n" "ch_index (pl_chans p' c') = int i" "ch_fd (pl_chans p' c') = fd" "0 \<le> fd"
        "pf_fd (pl_pollfds p ! i) = fd \<or> pf_fd (pl_pollfds p ! i) = - fd - 1" by blast
      then show ?thesis by (auto simp: p'_def n_def nth_append intro!: exI [of _ i])
    qed
  next
    fix i assume "i < length (pl_pollfds p')"
    then show "\<exists>fd c'. pl_map p' fd = Some c' \<and> ch_index (pl_chans p' c') = int i"
      using poller_cover [OF assms(1), of i] other by (cases "i = n") (fastforce simp: p'_def n_def less_Suc_eq)+
  qed
  moreover have "poller_watched p' = (poller_watched p)(ch_fd ch := watch_mask (ch_events ch))"
  proof (rule ext)
    fix fd
    show "poller_watched p' fd = ((poller_watched p)(ch_fd ch := watch_mask (ch_events ch))) fd"
      using poller_slot [OF assms(1), of fd] other [of fd]
      by (cases "fd = ch_fd ch"; cases "pl_map p fd")
         (auto simp: poller_watched_def watch_mask_def p'_def n_def pf_def nth_append)
  qed
  moreover have "poller_active p' c"
    by (simp add: poller_active_def p'_def ch_def pf_def n_def)
  ultimately show ?thesis using upd by (simp add: p'_def ch_def)
qed

lemma Poller_modify_ok:
  assumes "poller_ok p" "poller_active p c"
  defines "ch \<equiv> pl_chans p c"
  shows "\<exists>p'. Poller_UpdateChannel p c = Inr p' \<and> poller_ok p' \<and> ch_fd (pl_chans p' c) = ch_fd ch \<and>
    (if ch_events ch = 0 then poller_idle p' c else poller_active p' c) \<and>
    poller_watched p' = (poller_watched p)(ch_fd ch := watch_mask (ch_events ch))"
proof -
  have m: "pl_map p (ch_fd ch) = Some c" using assms(2) by (simp add: poller_active_def ch_def)
  from poller_slot [OF assms(1) m] obtain i where i: "i < length (pl_pollfds p)" "ch_index ch = int i" "0 \<le> ch_fd ch"
    unfolding ch_def by blast
  have fd: "pf_fd (pl_pollfds p ! i) = ch_fd ch"
    using assms(2) i(2) by (simp add: poller_active_def ch_def)
  define pf where "pf = (if ch_events ch = 0 then (pl_pollfds p ! i)\<lparr>pf_fd := - ch_fd ch - 1\<rparr> else pl_pollfds p ! i)
      \<lparr>pf_events := ucast (ch_events ch), pf_revents := 0\<rparr>"
  have pf: "pf_fd pf = (if ch_events ch = 0 then - ch_fd ch - 1 else ch_fd ch)" "pf_events pf = ucast (ch_events ch)"
    using fd by (simp_all add: pf_def)
  define p' where "p' = p\<lparr>pl_pollfds := (pl_pollfds p)[i := pf]\<rparr>"
  have upd: "Poller_UpdateChannel p c = Inr p'"
    using m i fd
    by (simp add: Poller_UpdateChannel_def ch_def [symmetric] p'_def pf_def pollfd_at_def ch_IsNoneEvent_def NoneEvent_def)
  have index: "j \<noteq> i" if "pl_map p g = Some d" "ch_index (pl_chans p d) = int j" "g \<noteq> ch_fd ch" for g d j
    using poller_index_inj [OF assms(1) m that(1)] that(2,3) i(2) by (auto simp: ch_def)
  have "poller_ok p'"
  proof (rule poller_okI)
    fix g d assume "pl_map p' g = Some d"
    then have g: "pl_map p g = Some d" by (simp add: p'_def)
    from poller_slot [OF assms(1) this] obtain j where j: "ch_fd (pl_chans p d) = g" "0 \<le> g" "j < length (pl_pollfds p)"
      "ch_index (pl_chans p d) = int j" "pf_fd (pl_pollfds p ! j) = g \<or> pf_fd (pl_pollfds p ! j) = - g - 1" by blast
    show "ch_fd (pl_chans p' d) = g \<and> 0 \<le> g \<and> (\<exists>i < length (pl_pollfds p'). ch_index (pl_chans p' d) = int i \<and>
           (pf_fd (pl_pollfds p' ! i) = g \<or> pf_fd (pl_pollfds p' ! i) = - g - 1))"
    proof (cases "g = ch_fd ch")
      case True
      then have "d = c" using g m by simp
      with True i show ?thesis by (auto simp: p'_def pf ch_def [symmetric])
    next
      case False
      from index [OF g j(4) this] j show ?thesis by (auto simp: p'_def)
    qed
  qed (use poller_cover [OF assms(1)] in \<open>simp add: p'_def\<close>)
  moreover have "poller_watched p' = (poller_watched p)(ch_fd ch := watch_mask (ch_events ch))"
  proof (rule ext)
    fix g
    show "poller_watched p' g = ((poller_watched p)(ch_fd ch := watch_mask (ch_events ch))) g"
    proof (cases "g = ch_fd ch")
      case True
      then show ?thesis
        using m i by (auto simp: poller_watched_def watch_mask_def p'_def pf ch_def [symmetric])
    next
      case False
      show ?thesis
      proof (cases "pl_map p g")
        case (Some d)
        from poller_slot [OF assms(1) this] obtain j where j: "ch_index (pl_chans p d) = int j" by blast
        from index [OF Some j False] j Some False show ?thesis by (simp add: poller_watched_def p'_def)
      qed (use False in \<open>simp add: poller_watched_def p'_def\<close>)
    qed
  qed
  moreover have "if ch_events ch = 0 then poller_idle p' c else poller_active p' c"
    using m i by (simp add: poller_active_def poller_idle_def p'_def ch_def [symmetric] pf)
  moreover have "pl_chans p' c = ch" by (simp add: p'_def ch_def)
  ultimately show ?thesis using upd by auto
qed

text \<open>The slot of the removed channel is filled with the last one.\<close>

lemma Poller_remove_moves_last:
  assumes "poller_ok p" "pl_map p (ch_fd (pl_chans p c)) = Some c"
  shows "\<exists>i b g. i < length (pl_pollfds p) \<and> ch_index (pl_chans p c) = int i \<and>
     pl_map p g = Some b \<and> ch_index (pl_chans p b) = int (length (pl_pollfds p) - 1) \<and>
     (\<exists>fds. length fds = length (pl_pollfds p) - 1 \<and>
       (\<forall>j < length fds. fds ! j = (if j = i then List.last (pl_pollfds p) else pl_pollfds p ! j)) \<and>
       Poller_RemoveChannel p c =
         Inr (p\<lparr>pl_pollfds := fds, pl_chans := set_index b (int i) (pl_chans p),
                pl_map := (pl_map p)(ch_fd (pl_chans p c) := None)\<rparr>))"
proof -
  define ch where "ch = pl_chans p c"
  define fds where "fds = pl_pollfds p"
  from poller_slot [OF assms] obtain i where i: "i < length fds" "ch_index ch = int i" "0 \<le> ch_fd ch"
    unfolding ch_def fds_def by blast
  have ne: "fds \<noteq> []" using i(1) by auto
  obtain g b where b: "pl_map p g = Some b" "ch_index (pl_chans p b) = int (length fds - 1)" "0 \<le> g"
    "pf_fd (List.last fds) = g \<or> pf_fd (List.last fds) = - g - 1"
    using poller_owner [OF assms(1), of "length fds - 1"] ne by (metis diff_less fds_def last_conv_nth length_greater_0_conv zero_less_one)
  define fds' where "fds' = butlast (fds[i := List.last fds, length fds - 1 := fds ! i])"
  have nth: "\<forall>j < length fds'. fds' ! j = (if j = i then List.last fds else fds ! j)"
    using i(1) by (auto simp: fds'_def nth_butlast nth_list_update)
  have "\<exists>gs. length gs = length fds - 1 \<and> (\<forall>j < length gs. gs ! j = (if j = i then List.last fds else fds ! j)) \<and>
      Poller_RemoveChannel p c = Inr (p\<lparr>pl_pollfds := gs, pl_chans := set_index b (int i) (pl_chans p),
        pl_map := (pl_map p)(ch_fd ch := None)\<rparr>)"
  proof (cases "ch_fd ch = pf_fd (List.last fds)")
    case True
    then have "g = ch_fd ch" using b(3,4) i(3) by auto
    then have bc: "b = c" "i = length fds - 1" using b(1,2) assms(2) i(2) by (auto simp: ch_def)
    have "set_index b (int i) (pl_chans p) = pl_chans p"
      using bc(1) i(2) by (auto simp: ch_def)
    then have "Poller_RemoveChannel p c = Inr (p\<lparr>pl_pollfds := butlast fds,
        pl_chans := set_index b (int i) (pl_chans p), pl_map := (pl_map p)(ch_fd ch := None)\<rparr>)"
      using True assms(2) ne by (simp add: Poller_RemoveChannel_def ch_def [symmetric] fds_def [symmetric])
    moreover have "\<forall>j < length (butlast fds). butlast fds ! j = (if j = i then List.last fds else fds ! j)"
      using bc(2) by (auto simp: nth_butlast)
    ultimately show ?thesis by (intro exI [of _ "butlast fds"]) simp
  next
    case False
    have "(if pf_fd (List.last fds) < 0 then - pf_fd (List.last fds) - 1 else pf_fd (List.last fds)) = g"
      using b(3,4) by auto
    then have "Poller_RemoveChannel p c = Inr (p\<lparr>pl_pollfds := fds', pl_chans := set_index b (int i) (pl_chans p),
        pl_map := (pl_map p)(ch_fd ch := None)\<rparr>)"
      using False assms(2) ne i b(1)
      by (simp add: Poller_RemoveChannel_def ch_def [symmetric] fds_def [symmetric] pollfd_at_def fds'_def Let_def)
    then show ?thesis using nth by (intro exI [of _ fds']) (simp add: fds'_def)
  qed
  then show ?thesis using i(1,2) b(1,2) unfolding ch_def fds_def by blast
qed

lemma Poller_remove_ok:
  assumes "poller_ok p" "poller_idle p c"
  shows "\<exists>p'. Poller_RemoveChannel p c = Inr p' \<and> poller_ok p' \<and>
    poller_watched p' = (poller_watched p)(ch_fd (pl_chans p c) := None)"
proof -
  define f where "f = ch_fd (pl_chans p c)"
  define n where "n = length (pl_pollfds p) - 1"
  have m: "pl_map p f = Some c" using assms(2) by (simp add: poller_idle_def f_def)
  from Poller_remove_moves_last [OF assms(1) m [unfolded f_def]] obtain i b g fds where
    i: "i < length (pl_pollfds p)" "ch_index (pl_chans p c) = int i" and
    b: "pl_map p g = Some b" "ch_index (pl_chans p b) = int n" and
    fds: "length fds = n" "\<forall>j < length fds. fds ! j = (if j = i then List.last (pl_pollfds p) else pl_pollfds p ! j)" and
    rm: "Poller_RemoveChannel p c = Inr (p\<lparr>pl_pollfds := fds, pl_chans := set_index b (int i) (pl_chans p),
            pl_map := (pl_map p)(f := None)\<rparr>)"
    unfolding f_def n_def by metis
  define p' where "p' = p\<lparr>pl_pollfds := fds, pl_chans := set_index b (int i) (pl_chans p), pl_map := (pl_map p)(f := None)\<rparr>"
  have le: "n < length (pl_pollfds p)" "List.last (pl_pollfds p) = pl_pollfds p ! n"
    using i(1) last_conv_nth [of "pl_pollfds p"] by (cases "pl_pollfds p = []"; simp add: n_def)+
  text \<open>The slot of every other descriptor holds what it held.\<close>
  have kept: "\<exists>j < n. ch_index (pl_chans p' d) = int j \<and> ch_fd (pl_chans p' d) = h \<and> 0 \<le> h \<and>
      (\<exists>k. ch_index (pl_chans p d) = int k \<and> fds ! j = pl_pollfds p ! k \<and>
        (pf_fd (fds ! j) = h \<or> pf_fd (fds ! j) = - h - 1))"
    if h: "pl_map p h = Some d" "h \<noteq> f" for h d
  proof -
    from poller_slot [OF assms(1) h(1)] obtain k where k: "ch_fd (pl_chans p d) = h" "0 \<le> h" "k < length (pl_pollfds p)"
      "ch_index (pl_chans p d) = int k" "pf_fd (pl_pollfds p ! k) = h \<or> pf_fd (pl_pollfds p ! k) = - h - 1" by blast
    have ki: "k \<noteq> i" using poller_index_inj [OF assms(1) m h(1)] h(2) k(4) i(2) by auto
    show ?thesis
    proof (cases "d = b")
      case True
      then have "k = n" using k(4) b(2) by simp
      then have "i < n" using ki i(1) by (simp add: n_def)
      with True \<open>k = n\<close> k fds le(2) show ?thesis by (auto simp: p'_def)
    next
      case False
      then have "k \<noteq> n"
        using poller_index_inj [OF assms(1) h(1) b(1)] h(1) b k(4) by auto
      then have "k < n" using k(3) by (simp add: n_def)
      with False k ki fds show ?thesis by (auto simp: p'_def)
    qed
  qed
  have "poller_ok p'"
  proof (rule poller_okI)
    fix h d assume "pl_map p' h = Some d"
    then have "pl_map p h = Some d" "h \<noteq> f" by (auto simp: p'_def split: if_splits)
    from kept [OF this] fds(1) show "ch_fd (pl_chans p' d) = h \<and> 0 \<le> h \<and> (\<exists>i < length (pl_pollfds p').
        ch_index (pl_chans p' d) = int i \<and> (pf_fd (pl_pollfds p' ! i) = h \<or> pf_fd (pl_pollfds p' ! i) = - h - 1))"
      by (auto simp: p'_def)
  next
    fix j assume "j < length (pl_pollfds p')"
    then have j: "j < n" using fds(1) by (simp add: p'_def)
    define k where "k = (if j = i then n else j)"
    have "k < length (pl_pollfds p)" using j le(1) by (simp add: k_def)
    from poller_cover [OF assms(1) this] obtain h d where h: "pl_map p h = Some d" "ch_index (pl_chans p d) = int k"
      by blast
    have "h \<noteq> f" using h m i(2) j by (auto simp: k_def split: if_splits)
    moreover have "d = b \<longleftrightarrow> j = i"
      using h b poller_index_inj [OF assms(1) h(1) b(1)] j by (auto simp: k_def split: if_splits)
    ultimately show "\<exists>h d. pl_map p' h = Some d \<and> ch_index (pl_chans p' d) = int j"
      using h by (intro exI [of _ h] exI [of _ d]) (auto simp: p'_def k_def)
  qed
  moreover have "poller_watched p' h = ((poller_watched p)(f := None)) h" for h
  proof (cases "pl_map p h")
    case (Some d)
    then show ?thesis
      using kept [OF Some] by (cases "h = f") (auto simp: poller_watched_def p'_def)
  qed (auto simp: poller_watched_def p'_def)
  ultimately show ?thesis using rm by (auto simp: p'_def f_def)
qed

interpretation poll_demux: demultiplexer poller_ok pl_chans poller_set_events poller_watched poller_fresh
  poller_active poller_idle Poller_UpdateChannel Poller_RemoveChannel
proof unfold_locales
  fix p c
  show "poller_ok p \<Longrightarrow> poller_fresh p c \<Longrightarrow> poller_watched p (ch_fd (pl_chans p c)) = None"
    by (simp add: poller_watched_def poller_fresh_def)
  assume "poller_ok p" "poller_fresh p c \<and> ch_events (pl_chans p c) \<noteq> 0 \<or> poller_active p c"
  then show "\<exists>p'. Poller_UpdateChannel p c = Inr p' \<and> poller_ok p' \<and>
        poller_watched p' = (poller_watched p)(ch_fd (pl_chans p c) := watch_mask (ch_events (pl_chans p c))) \<and>
        ch_fd (pl_chans p' c) = ch_fd (pl_chans p c) \<and>
        (if ch_events (pl_chans p c) = 0 then poller_idle p' c else poller_active p' c)"
  proof (elim disjE)
    assume "poller_fresh p c \<and> ch_events (pl_chans p c) \<noteq> 0"
    then show ?thesis using Poller_add_ok [OF \<open>poller_ok p\<close>, of c] by auto
  next
    assume "poller_active p c"
    then show ?thesis using Poller_modify_ok [OF \<open>poller_ok p\<close>, of c] by blast
  qed
qed (use poller_set_events_ok Poller_remove_ok in blast)+

section \<open>The epoller\<close>

text \<open>What \<open>epoll_ctl(2)\<close> documents of an open descriptor: the kernel keeps a table of the events and the
  data registered per descriptor; adding fails only for one that is there, changing and deleting only
  for one that is not.\<close>

locale epoll_kernel =
  fixes ctl :: "'k epoll_ctl" and table :: "'k \<Rightarrow> int \<Rightarrow> (32 word \<times> nat) option"
  assumes ctl_add: "table k fd = None \<Longrightarrow>
      \<exists>k'. ctl EPOLL_CTL_ADD fd ev k = Some k' \<and> table k' = (table k)(fd \<mapsto> ev)"
    and ctl_mod: "table k fd \<noteq> None \<Longrightarrow>
      \<exists>k'. ctl EPOLL_CTL_MOD fd ev k = Some k' \<and> table k' = (table k)(fd \<mapsto> ev)"
    and ctl_del: "table k fd \<noteq> None \<Longrightarrow>
      \<exists>k'. ctl EPOLL_CTL_DEL fd ev k = Some k' \<and> table k' = (table k)(fd := None)"

text \<open>The channels marked as added are those in the kernel's table, each under its own descriptor.\<close>

definition epoller_ok :: "('k \<Rightarrow> int \<Rightarrow> (32 word \<times> nat) option) \<Rightarrow> 'k epoller \<Rightarrow> bool" where
  "epoller_ok table p \<longleftrightarrow>
     (\<forall>c. ch_index (ep_chans p c) = kAdded \<longrightarrow> (\<exists>ev. table (ep_kernel p) (ch_fd (ep_chans p c)) = Some (ev, c))) \<and>
     (\<forall>fd ev c. table (ep_kernel p) fd = Some (ev, c) \<longrightarrow>
        ch_fd (ep_chans p c) = fd \<and> ch_index (ep_chans p c) = kAdded)"

definition epoller_watched :: "('k \<Rightarrow> int \<Rightarrow> (32 word \<times> nat) option) \<Rightarrow> 'k epoller \<Rightarrow> int \<Rightarrow> 16 word option" where
  "epoller_watched table p fd =
     (case table (ep_kernel p) fd of None \<Rightarrow> None | Some (ev, _) \<Rightarrow> watch_mask ev)"

definition epoller_fresh :: "('k \<Rightarrow> int \<Rightarrow> (32 word \<times> nat) option) \<Rightarrow> 'k epoller \<Rightarrow> nat \<Rightarrow> bool" where
  "epoller_fresh table p c \<longleftrightarrow>
     ch_index (ep_chans p c) = kNew \<and> table (ep_kernel p) (ch_fd (ep_chans p c)) = None"

definition epoller_active :: "'k epoller \<Rightarrow> nat \<Rightarrow> bool" where
  "epoller_active p c \<longleftrightarrow> ch_index (ep_chans p c) = kAdded"

definition epoller_set_events :: "nat \<Rightarrow> 32 word \<Rightarrow> 'k epoller \<Rightarrow> 'k epoller" where
  "epoller_set_events c e p = p\<lparr>ep_chans := (ep_chans p)(c := (ep_chans p c)\<lparr>ch_events := e\<rparr>)\<rparr>"

lemma set_index_same: "ch_index (cs c) = i \<Longrightarrow> set_index c i cs = cs"
  by (rule ext) (cases "cs c", auto)

lemma watch_mask_et: "watch_mask (ev OR EPOLLET) = watch_mask ev"
proof -
  have zero: "(0x80000000 :: 16 word) = 0" by (simp add: word_uint_eq_iff)
  have "(ucast (ev OR EPOLLET) :: 16 word) = ucast ev OR 0x80000000"
    by (simp add: unsigned_or_eq)
  then have "(ucast (ev OR EPOLLET) :: 16 word) = ucast ev"
    by (simp only: zero or.right_neutral)
  then show ?thesis by (simp add: watch_mask_def)
qed

lemma epoller_okD:
  assumes "epoller_ok table p"
  shows "ch_index (ep_chans p c) = kAdded \<Longrightarrow> \<exists>ev. table (ep_kernel p) (ch_fd (ep_chans p c)) = Some (ev, c)"
    and "table (ep_kernel p) fd = Some (ev, c) \<Longrightarrow> ch_fd (ep_chans p c) = fd \<and> ch_index (ep_chans p c) = kAdded"
  using assms unfolding epoller_ok_def by blast+

lemma epoller_okI:
  assumes "\<And>c. ch_index (ep_chans p c) = kAdded \<Longrightarrow> \<exists>ev. table (ep_kernel p) (ch_fd (ep_chans p c)) = Some (ev, c)"
    and "\<And>fd ev c. table (ep_kernel p) fd = Some (ev, c) \<Longrightarrow> ch_fd (ep_chans p c) = fd \<and> ch_index (ep_chans p c) = kAdded"
  shows "epoller_ok table p"
  unfolding epoller_ok_def using assms by blast

lemmas epoller_defs = epoller_ok_def epoller_watched_def epoller_fresh_def epoller_active_def

context epoll_kernel
begin

lemma epoller_set_events_ok:
  "epoller_ok table p \<Longrightarrow> epoller_ok table (epoller_set_events c e p) \<and>
     epoller_watched table (epoller_set_events c e p) = epoller_watched table p \<and>
     epoller_fresh table (epoller_set_events c e p) = epoller_fresh table p \<and>
     epoller_active (epoller_set_events c e p) = epoller_active p \<and>
     ch_fd (ep_chans (epoller_set_events c e p) c) = ch_fd (ep_chans p c) \<and>
     ch_events (ep_chans (epoller_set_events c e p) c) = e"
  by (auto simp: epoller_defs epoller_set_events_def fun_eq_iff)

lemma Epoller_update_ok:
  assumes "epoller_ok table p"
    and "epoller_fresh table p c \<and> ch_events (ep_chans p c) \<noteq> 0 \<or> epoller_active p c"
  defines "ch \<equiv> ep_chans p c"
  shows "\<exists>p'. Epoller_UpdateChannel ctl p c = Inr p' \<and> epoller_ok table p' \<and>
    epoller_watched table p' = (epoller_watched table p)(ch_fd ch := watch_mask (ch_events ch)) \<and>
    ch_fd (ep_chans p' c) = ch_fd ch \<and> epoller_active p' c"
proof -
  define ev where "ev = (if ch_events ch \<noteq> 0 \<and> ep_et_mode p then ch_events ch OR EPOLLET else ch_events ch)"
  have mask: "watch_mask ev = watch_mask (ch_events ch)" by (simp add: ev_def watch_mask_et)
  define opn where "opn = (if ch_index ch = kNew then EPOLL_CTL_ADD else EPOLL_CTL_MOD)"
  have "\<exists>k'. ctl opn (ch_fd ch) (ev, c) (ep_kernel p) = Some k' \<and>
      table k' = (table (ep_kernel p))(ch_fd ch \<mapsto> (ev, c))"
  proof (cases "epoller_active p c")
    case True
    then have i: "ch_index ch = kAdded" by (simp add: epoller_active_def ch_def)
    then have "table (ep_kernel p) (ch_fd ch) \<noteq> None"
      using epoller_okD(1) [OF assms(1), of c] by (auto simp: ch_def)
    from ctl_mod [OF this] i show ?thesis by (simp add: opn_def)
  next
    case False
    then have "ch_index ch = kNew" "table (ep_kernel p) (ch_fd ch) = None"
      using assms(2) by (auto simp: epoller_fresh_def ch_def)
    with ctl_add [OF this(2)] show ?thesis by (simp add: opn_def)
  qed
  then obtain k' where k': "ctl opn (ch_fd ch) (ev, c) (ep_kernel p) = Some k'"
    "table k' = (table (ep_kernel p))(ch_fd ch \<mapsto> (ev, c))" by blast
  define p' where "p' = p\<lparr>ep_kernel := k', ep_chans := set_index c kAdded (ep_chans p)\<rparr>"
  have "UpdateEpollEvent ctl opn p c = Inr (p\<lparr>ep_kernel := k'\<rparr>)"
    using k'(1) by (simp add: UpdateEpollEvent_def ch_def [symmetric] ev_def ch_IsNoneEvent_def NoneEvent_def)
  moreover have "ch_index ch = kNew \<or> p' = p\<lparr>ep_kernel := k'\<rparr>"
    using assms(2) set_index_same [of "ep_chans p" c kAdded]
    by (cases p) (auto simp: p'_def epoller_fresh_def epoller_active_def ch_def)
  ultimately have "Epoller_UpdateChannel ctl p c = Inr p'"
    by (auto simp: Epoller_UpdateChannel_def ch_def [symmetric] opn_def p'_def)
  moreover have "epoller_ok table p'"
  proof (rule epoller_okI)
    fix d assume d: "ch_index (ep_chans p' d) = kAdded"
    show "\<exists>ev. table (ep_kernel p') (ch_fd (ep_chans p' d)) = Some (ev, d)"
    proof (cases "d = c")
      case False
      then obtain ev' where "table (ep_kernel p) (ch_fd (ep_chans p d)) = Some (ev', d)"
        using epoller_okD(1) [OF assms(1), of d] d by (auto simp: p'_def)
      moreover from this have "ch_fd (ep_chans p d) \<noteq> ch_fd ch"
        using assms(2) False epoller_okD(1) [OF assms(1), of c] by (auto simp: epoller_fresh_def epoller_active_def ch_def)
      ultimately show ?thesis using False k'(2) by (simp add: p'_def)
    qed (use k'(2) in \<open>simp add: p'_def ch_def\<close>)
  next
    fix fd ev' d assume "table (ep_kernel p') fd = Some (ev', d)"
    then show "ch_fd (ep_chans p' d) = fd \<and> ch_index (ep_chans p' d) = kAdded"
      using epoller_okD(2) [OF assms(1), of fd ev' d] k'(2) by (auto simp: p'_def ch_def split: if_splits)
  qed
  moreover have "epoller_watched table p' = (epoller_watched table p)(ch_fd ch := watch_mask (ch_events ch))"
    using k'(2) mask by (auto simp: epoller_watched_def p'_def fun_eq_iff)
  ultimately show ?thesis by (auto simp: p'_def ch_def epoller_active_def)
qed

lemma Epoller_remove_ok:
  assumes "epoller_ok table p" "epoller_active p c"
  shows "\<exists>p'. Epoller_RemoveChannel ctl p c = Inr p' \<and> epoller_ok table p' \<and>
    epoller_watched table p' = (epoller_watched table p)(ch_fd (ep_chans p c) := None)"
proof -
  define ch where "ch = ep_chans p c"
  define ev where "ev = (if ch_events ch \<noteq> 0 \<and> ep_et_mode p then ch_events ch OR EPOLLET else ch_events ch)"
  have "table (ep_kernel p) (ch_fd ch) \<noteq> None"
    using epoller_okD(1) [OF assms(1), of c] assms(2) by (auto simp: epoller_active_def ch_def)
  from ctl_del [OF this] obtain k' where k': "ctl EPOLL_CTL_DEL (ch_fd ch) (ev, c) (ep_kernel p) = Some k'"
    "table k' = (table (ep_kernel p))(ch_fd ch := None)" by blast
  define p' where "p' = p\<lparr>ep_kernel := k', ep_chans := set_index c kNew (ep_chans p)\<rparr>"
  have "Epoller_RemoveChannel ctl p c = Inr p'"
    using assms(2) k'(1)
    by (simp add: Epoller_RemoveChannel_def UpdateEpollEvent_def ch_def [symmetric] ev_def ch_IsNoneEvent_def
        NoneEvent_def epoller_active_def p'_def)
  moreover have "epoller_ok table p'"
  proof (rule epoller_okI)
    obtain ev0 where c: "table (ep_kernel p) (ch_fd ch) = Some (ev0, c)"
      using epoller_okD(1) [OF assms(1), of c] assms(2) by (auto simp: epoller_active_def ch_def)
    fix d assume d: "ch_index (ep_chans p' d) = kAdded"
    then have "d \<noteq> c" by (auto simp: p'_def)
    with d epoller_okD(1) [OF assms(1), of d] c k'(2)
    show "\<exists>ev. table (ep_kernel p') (ch_fd (ep_chans p' d)) = Some (ev, d)"
      by (auto simp: p'_def)
  next
    fix fd ev' d assume "table (ep_kernel p') fd = Some (ev', d)"
    then show "ch_fd (ep_chans p' d) = fd \<and> ch_index (ep_chans p' d) = kAdded"
      using epoller_okD(2) [OF assms(1), of fd ev' d] k'(2) by (auto simp: p'_def ch_def split: if_splits)
  qed
  moreover have "epoller_watched table p' = (epoller_watched table p)(ch_fd ch := None)"
    using k'(2) by (auto simp: epoller_watched_def p'_def fun_eq_iff)
  ultimately show ?thesis by (simp add: ch_def)
qed

end

sublocale epoll_kernel \<subseteq> ep: demultiplexer "epoller_ok table" ep_chans epoller_set_events "epoller_watched table"
  "epoller_fresh table" epoller_active epoller_active "Epoller_UpdateChannel ctl" "Epoller_RemoveChannel ctl"
  using epoller_set_events_ok Epoller_update_ok Epoller_remove_ok
  by unfold_locales (simp_all add: epoller_fresh_def epoller_watched_def)

context epoll_kernel
begin

lemmas epoller_lifecycle = ep.lifecycle

end

text \<open>The table of the kernel as a map: the smallest kernel that behaves as documented.\<close>

fun map_ctl :: "(int \<Rightarrow> (32 word \<times> nat) option) epoll_ctl" where
  "map_ctl EPOLL_CTL_ADD fd ev k = (if k fd = None then Some (k(fd \<mapsto> ev)) else None)"
| "map_ctl EPOLL_CTL_MOD fd ev k = (if k fd = None then None else Some (k(fd \<mapsto> ev)))"
| "map_ctl EPOLL_CTL_DEL fd ev k = (if k fd = None then None else Some (k(fd := None)))"

interpretation map_kernel: epoll_kernel map_ctl "\<lambda>k. k"
  by unfold_locales auto

section \<open>What does not work\<close>

text \<open>With \<open>poll\<close>, a channel whose events were all disabled cannot be enabled again: its slot holds the
  negated descriptor, and the next update fails the assertion.\<close>

lemma Poller_reenable_fails:
  assumes "poller_ok p" "poller_active p c" "ch_events (pl_chans p c) = 0"
  shows "\<exists>p'. Poller_UpdateChannel p c = Inr p' \<and>
    Poller_UpdateChannel (poller_set_events c e p') c = Inl AssertFail"
proof -
  have m: "pl_map p (ch_fd (pl_chans p c)) = Some c" using assms(2) by (simp add: poller_active_def)
  from poller_slot [OF assms(1) m] obtain i where i: "i < length (pl_pollfds p)" "ch_index (pl_chans p c) = int i"
    "0 \<le> ch_fd (pl_chans p c)" by blast
  have "pf_fd (pl_pollfds p ! i) = ch_fd (pl_chans p c)"
    using assms(2) i(2) by (simp add: poller_active_def)
  then show ?thesis
    using m i assms(3)
    by (simp add: Poller_UpdateChannel_def pollfd_at_def ch_IsNoneEvent_def NoneEvent_def poller_set_events_def)
qed

text \<open>With \<open>poll\<close>, a removed channel keeps its index and cannot be added again.\<close>

lemma Poller_readd_fails:
  assumes "poller_ok p" "pl_map p (ch_fd (pl_chans p c)) = Some c"
  shows "\<exists>p'. Poller_RemoveChannel p c = Inr p' \<and> Poller_UpdateChannel p' c = Inl AssertFail"
proof -
  from Poller_remove_moves_last [OF assms] obtain i b fds where i: "ch_index (pl_chans p c) = int i"
    and rm: "Poller_RemoveChannel p c = Inr (p\<lparr>pl_pollfds := fds, pl_chans := set_index b (int i) (pl_chans p),
        pl_map := (pl_map p)(ch_fd (pl_chans p c) := None)\<rparr>)" by blast
  have "set_index b (int i) (pl_chans p) c = pl_chans p c"
    using i by (cases "b = c"; cases "pl_chans p c") auto
  then show ?thesis
    using rm i by (auto simp: Poller_UpdateChannel_def)
qed

text \<open>With \<open>epoll\<close>, a disabled channel stays in the kernel's table; an event the kernel always reports
  (a hang-up) then fails the assertion in \<open>FillActiveChannels\<close>.\<close>

lemma Epoller_disabled_hangup:
  assumes "ch_events (ep_chans p c) = 0"
  shows "FillActiveChannels p ((POLLHUP, c) # evs) active = Inl AssertFail"
  using assms by (simp add: ch_IsNoneEvent_def NoneEvent_def)

section \<open>Properties\<close>

text \<open>C32. Poller: a channel that is not in the table can be added with any events, change them any number
  of times, be disabled and be removed; no assertion fails, the descriptor is watched for its last events in
  between, and the table of watched descriptors ends as it began, although slots of other channels move.\<close>

theorem Poller_lifecycle:
  assumes "poller_ok p" "poller_fresh p c" "0 \<notin> set (e # es)"
  shows "\<exists>p1 p2 p3. demux_updates Poller_UpdateChannel poller_set_events p c (e # es) = Inr p1 \<and>
    poller_watched p1 = (poller_watched p)(ch_fd (pl_chans p c) := watch_mask (List.last (e # es))) \<and>
    Poller_UpdateChannel (poller_set_events c 0 p1) c = Inr p2 \<and> Poller_RemoveChannel p2 c = Inr p3 \<and>
    poller_ok p3 \<and> poller_watched p3 = poller_watched p"
  using poll_demux.lifecycle [OF assms] .

definition demo_poller :: poller where
  "demo_poller = \<lparr>pl_chans = (\<lambda>c. Channel (int c)), pl_pollfds = [], pl_map = (\<lambda>_. None)\<rparr>"

theorem Poller_lifecycle_witness:
  "poller_ok demo_poller \<and> poller_fresh demo_poller 5 \<and> (0 :: 32 word) \<notin> set [3, 7] \<and>
   (\<exists>p1 p2 p3. demux_updates Poller_UpdateChannel poller_set_events demo_poller 5 [3, 7] = Inr p1 \<and>
     poller_watched p1 5 = Some 7 \<and> Poller_UpdateChannel (poller_set_events 5 0 p1) 5 = Inr p2 \<and>
     Poller_RemoveChannel p2 5 = Inr p3)"
proof -
  have h: "poller_ok demo_poller" "poller_fresh demo_poller 5" "(0 :: 32 word) \<notin> set [3, 7]"
    by (simp_all add: poller_ok_def poller_fresh_def demo_poller_def Channel_def)
  from Poller_lifecycle [OF h] h show ?thesis
    by (auto simp: demo_poller_def Channel_def watch_mask_def)
qed

text \<open>Epoller: for a kernel that keeps its interest table as documented, a channel that is not in the
  table can be added with any events, change them any number of times, be disabled and be removed in level-
  and edge-triggered mode; \<open>epoll_ctl\<close> never fails, and the watched descriptors end as they began.\<close>

theorem Epoller_lifecycle:
  assumes "epoll_kernel ctl table" "epoller_ok table p" "epoller_fresh table p c" "0 \<notin> set (e # es)"
  shows "\<exists>p1 p2 p3. demux_updates (Epoller_UpdateChannel ctl) epoller_set_events p c (e # es) = Inr p1 \<and>
    epoller_watched table p1 =
      (epoller_watched table p)(ch_fd (ep_chans p c) := watch_mask (List.last (e # es))) \<and>
    Epoller_UpdateChannel ctl (epoller_set_events c 0 p1) c = Inr p2 \<and> Epoller_RemoveChannel ctl p2 c = Inr p3 \<and>
    epoller_ok table p3 \<and> epoller_watched table p3 = epoller_watched table p"
  using epoll_kernel.epoller_lifecycle [OF assms] .

theorem Epoller_lifecycle_witness:
  "let p = SetEdgeTriggertMode (Epoller (\<lambda>_. None) (\<lambda>c. Channel (int c))) in
   epoll_kernel map_ctl (\<lambda>k. k) \<and> epoller_ok (\<lambda>k. k) p \<and> epoller_fresh (\<lambda>k. k) p 5 \<and>
   (\<exists>p1 p2 p3. demux_updates (Epoller_UpdateChannel map_ctl) epoller_set_events p 5 [3, 7] = Inr p1 \<and>
     epoller_watched (\<lambda>k. k) p1 5 = Some 7 \<and>
     Epoller_UpdateChannel map_ctl (epoller_set_events 5 0 p1) 5 = Inr p2 \<and>
     Epoller_RemoveChannel map_ctl p2 5 = Inr p3)"
proof -
  let ?p = "SetEdgeTriggertMode (Epoller (\<lambda>_. None :: (32 word \<times> nat) option) (\<lambda>c. Channel (int c)))"
  have h: "epoll_kernel map_ctl (\<lambda>k. k)" "epoller_ok (\<lambda>k. k) ?p" "epoller_fresh (\<lambda>k. k) ?p 5"
    "(0 :: 32 word) \<notin> set [3, 7]"
    by (simp_all add: map_kernel.epoll_kernel_axioms epoller_ok_def epoller_fresh_def Epoller_def
        SetEdgeTriggertMode_def Channel_def)
  from Epoller_lifecycle [OF h] h show ?thesis
    by (auto simp: Let_def Epoller_def SetEdgeTriggertMode_def Channel_def watch_mask_def)
qed

end
