(* ===== verification/Event_Loop.thy ===== *)
theory Event_Loop
  imports Demux
begin

text \<open>
  Model of \<^verbatim>\<open>kanon/net/event_loop.{h,cc}\<close>: the queue of functors, the event descriptor that wakes the loop, and
  the three phases of an iteration. The operations are functions on the state of the loop, called by a thread
  given by its number; the running program is a step relation in which the loop thread and any number of
  other threads interleave at the granularity of the lock and of the system calls.
\<close>

section \<open>Operations\<close>

record 'f event_loop =
  el_owner :: nat
  el_looping :: bool
  el_quit :: bool
  el_calling :: bool
  el_functors :: "'f list"
  el_eventfd :: nat

definition EventLoop :: "nat \<Rightarrow> 'f event_loop" where
  "EventLoop tid = \<lparr>el_owner = tid, el_looping = False, el_quit = False, el_calling = False,
     el_functors = [], el_eventfd = 0\<rparr>"

definition IsLoopInThread :: "nat \<Rightarrow> 'f event_loop \<Rightarrow> bool" where
  "IsLoopInThread tid l \<longleftrightarrow> tid = el_owner l"

definition AssertInThread :: "nat \<Rightarrow> 'f event_loop \<Rightarrow> unit res" where
  "AssertInThread tid l = (if IsLoopInThread tid l then Inr () else Inl Fatal)"

text \<open>\<open>WriteEventFd\<close> adds one to the counter of the descriptor, \<open>ReadEventFd\<close> sets it to zero.\<close>

definition Wakeup :: "'f event_loop \<Rightarrow> 'f event_loop" where
  "Wakeup l = l\<lparr>el_eventfd := el_eventfd l + 1\<rparr>"

definition EvRead :: "'f event_loop \<Rightarrow> 'f event_loop" where
  "EvRead l = l\<lparr>el_eventfd := 0\<rparr>"

text \<open>The locked section of \<open>QueueToLoop\<close>, and what follows it; other threads may run in between.\<close>

definition push_functor :: "'f \<Rightarrow> 'f event_loop \<Rightarrow> 'f event_loop" where
  "push_functor f l = l\<lparr>el_functors := el_functors l @ [f]\<rparr>"

definition QueueToLoop_rest :: "nat \<Rightarrow> 'f event_loop \<Rightarrow> 'f event_loop" where
  "QueueToLoop_rest tid l = (if \<not> IsLoopInThread tid l \<or> el_calling l then Wakeup l else l)"

definition QueueToLoop :: "nat \<Rightarrow> 'f \<Rightarrow> 'f event_loop \<Rightarrow> 'f event_loop" where
  "QueueToLoop tid f l = QueueToLoop_rest tid (push_functor f l)"

text \<open>A callback is user code: its effect on the loop is a parameter, which yields the new state and the exception it
  throws, if any. \<open>FunctorCallback\<close> may be empty (\<open>None\<close>).\<close>

type_synonym 'f callee = "'f option event_loop \<Rightarrow> 'f option event_loop \<times> cerror option"

definition RunInLoop :: "('f \<Rightarrow> 'f callee) \<Rightarrow> nat \<Rightarrow> 'f option \<Rightarrow> 'f callee" where
  "RunInLoop call tid cb l =
     (if IsLoopInThread tid l
      then (case cb of None \<Rightarrow> (l, Some Exn) | Some f \<Rightarrow> call f l)
      else (QueueToLoop tid cb l, None))"

text \<open>\<open>Quit\<close>, and what follows the write of \<open>quit_\<close>.\<close>

definition Quit_rest :: "nat \<Rightarrow> 'f event_loop \<Rightarrow> 'f event_loop" where
  "Quit_rest tid l = (if \<not> IsLoopInThread tid l then Wakeup l else l)"

definition Quit :: "nat \<Rightarrow> 'f event_loop \<Rightarrow> 'f event_loop" where
  "Quit tid l = (if el_quit l then l else Quit_rest tid (l\<lparr>el_quit := True\<rparr>))"

fun call_all :: "('f \<Rightarrow> 'f callee) \<Rightarrow> 'f option list \<Rightarrow> 'f callee" where
  "call_all call [] l = (l, None)"
| "call_all call (None # fs) l = call_all call fs l"
| "call_all call (Some f # fs) l =
     (case call f l of
        (l, Some e) \<Rightarrow> (l, Some e)
      | (l, None) \<Rightarrow> call_all call fs l)"

definition CallFunctors :: "('f \<Rightarrow> 'f callee) \<Rightarrow> 'f callee" where
  "CallFunctors call l =
     (if el_quit l then (l, None)
      else let functors = el_functors l;
               (l, e) = call_all call functors (l\<lparr>el_functors := [], el_calling := True\<rparr>)
           in (l\<lparr>el_calling := False\<rparr>, e))"

fun run_handlers :: "'f callee list \<Rightarrow> 'f callee" where
  "run_handlers [] l = (l, None)"
| "run_handlers (h # hs) l =
     (case h l of
        (l, Some e) \<Rightarrow> (l, Some e)
      | (l, None) \<Rightarrow> run_handlers hs l)"

text \<open>The handlers of the channels each call of \<open>Poll\<close> reports are the argument; when they are used up, the loop is blocked
  in \<open>Poll\<close>.\<close>

datatype loop_end = Blocked | Finished | Threw cerror

fun loop_rounds ::
  "('f \<Rightarrow> 'f callee) \<Rightarrow> 'f callee list list \<Rightarrow> 'f option event_loop \<Rightarrow> 'f option event_loop \<times> loop_end" where
  "loop_rounds call [] l = (if el_quit l then (l\<lparr>el_looping := False\<rparr>, Finished) else (l, Blocked))"
| "loop_rounds call (hs # rounds) l =
     (if el_quit l then (l\<lparr>el_looping := False\<rparr>, Finished)
      else case run_handlers hs l of
        (l, Some e) \<Rightarrow> (l, Threw e)
      | (l, None) \<Rightarrow>
          (case CallFunctors call l of
             (l, Some e) \<Rightarrow> (l, Threw e)
           | (l, None) \<Rightarrow> loop_rounds call rounds l))"

definition StartLoop ::
  "('f \<Rightarrow> 'f callee) \<Rightarrow> nat \<Rightarrow> 'f callee list list \<Rightarrow> 'f option event_loop \<Rightarrow>
   ('f option event_loop \<times> loop_end) res" where
  "StartLoop call tid rounds l =
     rbind (assertR (\<not> el_looping l)) (\<lambda>_.
     rbind (AssertInThread tid l) (\<lambda>_.
     Inr (loop_rounds call rounds (l\<lparr>el_looping := True\<rparr>))))"

section \<open>The demultiplexer of the loop\<close>

text \<open>A build with \<open>ENABLE_EPOLL\<close>: the constructor's argument selects \<open>Poller\<close> or \<open>Epoller\<close>.\<close>

datatype 'k loop_poller = UsePoller poller | UseEpoller "'k epoller"

definition new_loop_poller :: "bool \<Rightarrow> 'k \<Rightarrow> (nat \<Rightarrow> channel) \<Rightarrow> 'k loop_poller" where
  "new_loop_poller is_poller k cs =
     (if is_poller then UsePoller \<lparr>pl_chans = cs, pl_pollfds = [], pl_map = Map.empty\<rparr>
      else UseEpoller (Epoller k cs))"

fun EventLoop_UpdateChannel :: "'k epoll_ctl \<Rightarrow> 'k loop_poller \<Rightarrow> nat \<Rightarrow> 'k loop_poller res" where
  "EventLoop_UpdateChannel ctl (UsePoller p) c = rbind (Poller_UpdateChannel p c) (\<lambda>p. Inr (UsePoller p))"
| "EventLoop_UpdateChannel ctl (UseEpoller p) c = rbind (Epoller_UpdateChannel ctl p c) (\<lambda>p. Inr (UseEpoller p))"

fun EventLoop_RemoveChannel :: "'k epoll_ctl \<Rightarrow> 'k loop_poller \<Rightarrow> nat \<Rightarrow> 'k loop_poller res" where
  "EventLoop_RemoveChannel ctl (UsePoller p) c = rbind (Poller_RemoveChannel p c) (\<lambda>p. Inr (UsePoller p))"
| "EventLoop_RemoveChannel ctl (UseEpoller p) c = rbind (Epoller_RemoveChannel ctl p c) (\<lambda>p. Inr (UseEpoller p))"

fun SetEdgeTriggerMode :: "'k loop_poller \<Rightarrow> 'k loop_poller" where
  "SetEdgeTriggerMode (UsePoller p) = UsePoller p"
| "SetEdgeTriggerMode (UseEpoller p) = UseEpoller (SetEdgeTriggertMode p)"

fun IsEdgeTriggerMode :: "'k loop_poller \<Rightarrow> bool" where
  "IsEdgeTriggerMode (UsePoller p) = False"
| "IsEdgeTriggerMode (UseEpoller p) = ep_et_mode p"

lemma edge_trigger_needs_epoll:
  "IsEdgeTriggerMode (SetEdgeTriggerMode (new_loop_poller is_poller k cs)) \<longleftrightarrow> \<not> is_poller"
  by (simp add: new_loop_poller_def SetEdgeTriggertMode_def)

section \<open>Interleaved execution\<close>

text \<open>Where the loop thread is: before \<open>StartLoop\<close>; at the test of \<open>quit_\<close>; in \<open>Poll\<close>; handling events, with the
  event descriptor still to be read or not; calling the functors that are left; finished;
  left by an exception, which drops the functors that were still to be called.\<close>

datatype 'f loop_pc = BeforeStart | Check | AtPoll | Handling bool | Calling "'f list" | Stopped
  | Aborted "'f list"

text \<open>What another thread that has queued a functor or set \<open>quit_\<close> still has to do.\<close>

datatype rest_call = QueueRest nat | QuitRest nat

fun rest_tid :: "rest_call \<Rightarrow> nat" where
  "rest_tid (QueueRest tid) = tid"
| "rest_tid (QuitRest tid) = tid"

fun run_rest :: "rest_call \<Rightarrow> 'f event_loop \<Rightarrow> 'f event_loop" where
  "run_rest (QueueRest tid) l = QueueToLoop_rest tid l"
| "run_rest (QuitRest tid) l = Quit_rest tid l"

text \<open>\<open>es_rest\<close> are these calls; \<open>es_queued\<close> and \<open>es_ran\<close> are the functors queued and run so far; \<open>es_early\<close> says that the queue
  holds functors that the owner of the loop queued before it called \<open>StartLoop\<close>.\<close>

record 'f loop_system =
  es_loop :: "'f event_loop"
  es_pc :: "'f loop_pc"
  es_rest :: "rest_call list"
  es_early :: bool
  es_queued :: "'f list"
  es_ran :: "'f list"

definition init_system :: "'f loop_system" where
  "init_system = \<lparr>es_loop = EventLoop 0, es_pc = BeforeStart, es_rest = [], es_early = False,
     es_queued = [], es_ran = []\<rparr>"

inductive el_step :: "'f loop_system \<Rightarrow> 'f loop_system \<Rightarrow> bool" where
  early_queue: "es_pc s = BeforeStart \<Longrightarrow>
    el_step s (s\<lparr>es_loop := QueueToLoop (el_owner (es_loop s)) f (es_loop s), es_early := True, es_queued := es_queued s @ [f]\<rparr>)"
| early_quit: "es_pc s = BeforeStart \<Longrightarrow>
    el_step s (s\<lparr>es_loop := Quit (el_owner (es_loop s)) (es_loop s)\<rparr>)"
| start_loop: "es_pc s = BeforeStart \<Longrightarrow>
    el_step s (s\<lparr>es_loop := (es_loop s)\<lparr>el_looping := True\<rparr>, es_pc := Check\<rparr>)"
| enter_poll: "es_pc s = Check \<Longrightarrow> \<not> el_quit (es_loop s) \<Longrightarrow> el_step s (s\<lparr>es_pc := AtPoll\<rparr>)"
| stop_loop: "es_pc s = Check \<Longrightarrow> el_quit (es_loop s) \<Longrightarrow>
    el_step s (s\<lparr>es_loop := (es_loop s)\<lparr>el_looping := False\<rparr>, es_pc := Stopped\<rparr>)"
| poll_wakeup: "es_pc s = AtPoll \<Longrightarrow> 0 < el_eventfd (es_loop s) \<Longrightarrow> el_step s (s\<lparr>es_pc := Handling True\<rparr>)"
| poll_event: "es_pc s = AtPoll \<Longrightarrow> el_eventfd (es_loop s) = 0 \<Longrightarrow> el_step s (s\<lparr>es_pc := Handling False\<rparr>)"
| ev_read: "es_pc s = Handling True \<Longrightarrow>
    el_step s (s\<lparr>es_loop := EvRead (es_loop s), es_pc := Handling False\<rparr>)"
| handler_queue: "es_pc s = Handling b \<Longrightarrow>
    el_step s (s\<lparr>es_loop := QueueToLoop (el_owner (es_loop s)) f (es_loop s), es_queued := es_queued s @ [f]\<rparr>)"
| handler_quit: "es_pc s = Handling b \<Longrightarrow>
    el_step s (s\<lparr>es_loop := Quit (el_owner (es_loop s)) (es_loop s)\<rparr>)"
| skip_functors: "es_pc s = Handling False \<Longrightarrow> el_quit (es_loop s) \<Longrightarrow> el_step s (s\<lparr>es_pc := Check\<rparr>)"
| swap_functors: "es_pc s = Handling False \<Longrightarrow> \<not> el_quit (es_loop s) \<Longrightarrow>
    el_step s (s\<lparr>es_loop := (es_loop s)\<lparr>el_functors := [], el_calling := True\<rparr>,
                es_pc := Calling (el_functors (es_loop s)), es_early := False\<rparr>)"
| run_functor: "es_pc s = Calling (f # fs) \<Longrightarrow>
    el_step s (s\<lparr>es_pc := Calling fs, es_ran := es_ran s @ [f]\<rparr>)"
| functor_queue: "es_pc s = Calling fs \<Longrightarrow>
    el_step s (s\<lparr>es_loop := QueueToLoop (el_owner (es_loop s)) f (es_loop s), es_queued := es_queued s @ [f]\<rparr>)"
| functor_quit: "es_pc s = Calling fs \<Longrightarrow>
    el_step s (s\<lparr>es_loop := Quit (el_owner (es_loop s)) (es_loop s)\<rparr>)"
| functor_throws: "es_pc s = Calling fs \<Longrightarrow>
    el_step s (s\<lparr>es_loop := (es_loop s)\<lparr>el_calling := False\<rparr>, es_pc := Aborted fs\<rparr>)"
| functors_done: "es_pc s = Calling [] \<Longrightarrow>
    el_step s (s\<lparr>es_loop := (es_loop s)\<lparr>el_calling := False\<rparr>, es_pc := Check\<rparr>)"
| remote_push: "tid \<noteq> el_owner (es_loop s) \<Longrightarrow>
    el_step s (s\<lparr>es_loop := push_functor f (es_loop s), es_queued := es_queued s @ [f], es_rest := es_rest s @ [QueueRest tid]\<rparr>)"
| remote_quit: "tid \<noteq> el_owner (es_loop s) \<Longrightarrow> \<not> el_quit (es_loop s) \<Longrightarrow>
    el_step s (s\<lparr>es_loop := (es_loop s)\<lparr>el_quit := True\<rparr>, es_rest := es_rest s @ [QuitRest tid]\<rparr>)"
| remote_rest: "es_rest s = rs @ c # rs' \<Longrightarrow> el_step s (s\<lparr>es_loop := run_rest c (es_loop s), es_rest := rs @ rs'\<rparr>)"

inductive el_reach :: "'f loop_system \<Rightarrow> bool" where
  start: "el_reach init_system"
| step: "el_reach s \<Longrightarrow> el_step s s' \<Longrightarrow> el_reach s'"

section \<open>Invariant\<close>

fun pending_calls :: "'f loop_pc \<Rightarrow> 'f list" where
  "pending_calls (Calling fs) = fs"
| "pending_calls (Aborted fs) = fs"
| "pending_calls _ = []"

text \<open>Something will bring the loop out of \<open>Poll\<close>: the event descriptor is readable or another thread has not finished its call.\<close>

definition woken :: "'f loop_system \<Rightarrow> bool" where
  "woken s \<longleftrightarrow> 0 < el_eventfd (es_loop s) \<or> es_rest s \<noteq> []"

definition el_inv :: "'f loop_system \<Rightarrow> bool" where
  "el_inv s \<longleftrightarrow>
     es_ran s @ pending_calls (es_pc s) @ el_functors (es_loop s) = es_queued s \<and>
     (el_calling (es_loop s) \<longleftrightarrow> (\<exists>fs. es_pc s = Calling fs)) \<and>
     (\<forall>c \<in> set (es_rest s). rest_tid c \<noteq> el_owner (es_loop s)) \<and>
     (case es_pc s of
        BeforeStart \<Rightarrow> el_functors (es_loop s) \<noteq> [] \<longrightarrow> woken s \<or> es_early s
      | Check \<Rightarrow> el_functors (es_loop s) \<noteq> [] \<and> \<not> el_quit (es_loop s) \<longrightarrow> woken s \<or> es_early s
      | AtPoll \<Rightarrow> (el_functors (es_loop s) \<noteq> [] \<longrightarrow> woken s \<or> es_early s) \<and> (el_quit (es_loop s) \<longrightarrow> woken s)
      | Calling fs \<Rightarrow> el_functors (es_loop s) \<noteq> [] \<longrightarrow> woken s
      | _ \<Rightarrow> True)"

lemmas loop_ops = QueueToLoop_def QueueToLoop_rest_def Quit_rest_def push_functor_def Wakeup_def EvRead_def Quit_def IsLoopInThread_def Let_def

lemma run_rest_wakes: "rest_tid c \<noteq> el_owner l \<Longrightarrow> run_rest c l = Wakeup l"
  by (cases c) (simp_all add: QueueToLoop_rest_def Quit_rest_def IsLoopInThread_def)

lemma el_step_inv: "el_step s s' \<Longrightarrow> el_inv s \<Longrightarrow> el_inv s'"
proof (induction rule: el_step.induct)
  case (remote_rest s rs c rs')
  then have "run_rest c (es_loop s) = Wakeup (es_loop s)" by (intro run_rest_wakes) (auto simp: el_inv_def)
  then show ?case using remote_rest by (auto simp: el_inv_def woken_def Wakeup_def split: loop_pc.splits)
qed (auto simp: el_inv_def woken_def loop_ops split: loop_pc.splits if_splits)

lemma el_reach_inv: "el_reach s \<Longrightarrow> el_inv s"
proof (induction rule: el_reach.induct)
  case start
  show ?case by (simp add: el_inv_def init_system_def EventLoop_def)
next
  case (step s s')
  then show ?case by (blast intro: el_step_inv)
qed

section \<open>The loop thread on its own\<close>

text \<open>The next step of the loop thread when no handler and no functor changes the loop; \<open>None\<close> where it is blocked in
  \<open>Poll\<close> or has ended. Only the event descriptor ends a \<open>Poll\<close> here.\<close>

fun loop_next :: "'f loop_system \<Rightarrow> 'f loop_system option" where
  "loop_next s =
     (case es_pc s of
        BeforeStart \<Rightarrow> Some (s\<lparr>es_loop := (es_loop s)\<lparr>el_looping := True\<rparr>, es_pc := Check\<rparr>)
      | Check \<Rightarrow>
          (if el_quit (es_loop s)
           then Some (s\<lparr>es_loop := (es_loop s)\<lparr>el_looping := False\<rparr>, es_pc := Stopped\<rparr>)
           else Some (s\<lparr>es_pc := AtPoll\<rparr>))
      | AtPoll \<Rightarrow> (if 0 < el_eventfd (es_loop s) then Some (s\<lparr>es_pc := Handling True\<rparr>) else None)
      | Handling True \<Rightarrow> Some (s\<lparr>es_loop := EvRead (es_loop s), es_pc := Handling False\<rparr>)
      | Handling False \<Rightarrow>
          (if el_quit (es_loop s) then Some (s\<lparr>es_pc := Check\<rparr>)
           else Some (s\<lparr>es_loop := (es_loop s)\<lparr>el_functors := [], el_calling := True\<rparr>,
                        es_pc := Calling (el_functors (es_loop s)), es_early := False\<rparr>))
      | Calling [] \<Rightarrow> Some (s\<lparr>es_loop := (es_loop s)\<lparr>el_calling := False\<rparr>, es_pc := Check\<rparr>)
      | Calling (f # fs) \<Rightarrow> Some (s\<lparr>es_pc := Calling fs, es_ran := es_ran s @ [f]\<rparr>)
      | _ \<Rightarrow> None)"

declare loop_next.simps [simp del]

fun run_loop :: "nat \<Rightarrow> 'f loop_system \<Rightarrow> 'f loop_system option" where
  "run_loop 0 s = Some s"
| "run_loop (Suc n) s = Option.bind (loop_next s) (run_loop n)"

lemma loop_next_step: "loop_next s = Some s' \<Longrightarrow> el_step s s'"
  by (auto simp: loop_next.simps split: loop_pc.splits if_splits bool.splits list.splits intro: el_step.intros)

lemma run_loop_add: "run_loop (m + n) s = Option.bind (run_loop m s) (run_loop n)"
  by (induction m arbitrary: s) (auto simp: Option.bind_eq_Some_conv split: Option.bind_split)

lemma run_loop_calls:
  "es_pc s = Calling fs \<Longrightarrow>
   run_loop (length fs) s = Some (s\<lparr>es_pc := Calling [], es_ran := es_ran s @ fs\<rparr>)"
proof (induction fs arbitrary: s)
  case Nil
  then show ?case by (cases s) simp
next
  case (Cons f fs)
  have "loop_next s = Some (s\<lparr>es_pc := Calling fs, es_ran := es_ran s @ [f]\<rparr>)"
    using Cons.prems by (simp add: loop_next.simps)
  then show ?case using Cons.IH[of "s\<lparr>es_pc := Calling fs, es_ran := es_ran s @ [f]\<rparr>"] by simp
qed

lemma poll_to_calls:
  assumes "es_pc s = AtPoll" "\<not> el_quit (es_loop s)" "0 < el_eventfd (es_loop s)"
  shows "run_loop 3 s =
    Some (s\<lparr>es_loop := (es_loop s)\<lparr>el_eventfd := 0, el_functors := [], el_calling := True\<rparr>,
            es_pc := Calling (el_functors (es_loop s)), es_early := False\<rparr>)"
  using assms by (simp add: numeral_3_eq_3 loop_next.simps EvRead_def)

section \<open>Properties\<close>

text \<open>C11. No wake-up is lost and functors run once, in the order they were queued. In every state that the loop and any number of
  other threads reach, the functors run so far, those being called (or dropped, when one of them has thrown) and those in
  the queue are together the functors queued, in order. Whenever the loop is in \<open>Poll\<close> while \<open>quit_\<close> is set, or
  while functors are queued that the owner of the loop did not queue before \<open>StartLoop\<close>, the event descriptor is readable or a
  thread is still in its call of \<open>QueueToLoop\<close> or \<open>Quit\<close>; and finishing such a call makes it readable. Functors that the owner
  queued before \<open>StartLoop\<close> (\<open>es_early\<close>) are excepted.\<close>

theorem EventLoop_no_lost_wakeup:
  assumes "el_reach s"
  shows "es_ran s @ pending_calls (es_pc s) @ el_functors (es_loop s) = es_queued s \<and>
    (es_pc s = AtPoll \<and> (el_functors (es_loop s) \<noteq> [] \<and> \<not> es_early s \<or> el_quit (es_loop s)) \<longrightarrow>
       0 < el_eventfd (es_loop s) \<or> es_rest s \<noteq> []) \<and>
    (\<forall>c \<in> set (es_rest s). 0 < el_eventfd (run_rest c (es_loop s)))"
proof -
  have i: "el_inv s" by (rule el_reach_inv) fact
  then have "0 < el_eventfd (run_rest c (es_loop s))" if "c \<in> set (es_rest s)" for c
    using that run_rest_wakes [of c "es_loop s"] by (auto simp: el_inv_def Wakeup_def)
  with i show ?thesis by (auto simp: el_inv_def woken_def)
qed

definition demo_poll_state :: "nat loop_system" where
  "demo_poll_state =
     \<lparr>es_loop = \<lparr>el_owner = 0, el_looping = True, el_quit = False, el_calling = False, el_functors = [7],
                 el_eventfd = 1\<rparr>,
      es_pc = AtPoll, es_rest = [], es_early = False, es_queued = [7], es_ran = []\<rparr>"

lemma demo_poll_reach: "el_reach demo_poll_state"
proof -
  note r = el_reach.step
  have "el_reach (init_system\<lparr>es_loop := (es_loop init_system)\<lparr>el_looping := True\<rparr>, es_pc := Check\<rparr> :: nat loop_system)"
    (is "el_reach ?a") by (rule r[OF el_reach.start]) (rule el_step.start_loop, simp add: init_system_def)
  then have "el_reach (?a\<lparr>es_pc := AtPoll\<rparr>)" (is "el_reach ?b")
    by (rule r) (rule el_step.enter_poll, simp_all add: init_system_def EventLoop_def)
  then have "el_reach (?b\<lparr>es_loop := push_functor 7 (es_loop ?b), es_queued := es_queued ?b @ [7],
      es_rest := es_rest ?b @ [QueueRest 1]\<rparr>)" (is "el_reach ?c")
    by (rule r) (rule el_step.remote_push, simp add: init_system_def EventLoop_def)
  then have "el_reach (?c\<lparr>es_loop := run_rest (QueueRest 1) (es_loop ?c), es_rest := [] @ []\<rparr>)"
    by (rule r) (rule el_step.remote_rest, simp add: init_system_def)
  then show ?thesis
    by (simp add: demo_poll_state_def init_system_def EventLoop_def loop_ops)
qed

theorem EventLoop_no_lost_wakeup_witness:
  "el_reach demo_poll_state \<and> 0 < el_eventfd (es_loop demo_poll_state)"
  using EventLoop_no_lost_wakeup[OF demo_poll_reach] demo_poll_reach by (simp add: demo_poll_state_def)

text \<open>C27. Queued functors are run. Take a reachable state in which the loop is in \<open>Poll\<close>, functors are queued, none of them by the owner
  of the loop before \<open>StartLoop\<close>, all threads that queued one or called \<open>Quit\<close> have finished their call, and \<open>quit_\<close> is not set. The loop
  thread, when no functor it calls throws an exception, queues another functor or calls \<open>Quit\<close> and no other thread does, reaches by its
  own steps, without any other event, a state in which every functor queued so far has run, after three steps and one for each
  functor.\<close>

theorem EventLoop_runs_queued:
  assumes "el_reach s" "es_pc s = AtPoll" "el_functors (es_loop s) \<noteq> []" "\<not> es_early s" "\<not> el_quit (es_loop s)" "es_rest s = []"
  shows "\<exists>s'. run_loop (3 + length (el_functors (es_loop s))) s = Some s' \<and>
    es_ran s' = es_queued s \<and> el_functors (es_loop s') = []"
proof -
  have i: "el_inv s" by (rule el_reach_inv) fact
  then have ev: "0 < el_eventfd (es_loop s)" using assms(2-6) by (simp add: el_inv_def woken_def)
  have q: "es_ran s @ el_functors (es_loop s) = es_queued s" using i assms(2) by (simp add: el_inv_def)
  show ?thesis
    by (simp only: run_loop_add poll_to_calls[OF assms(2,5) ev] bind.bind_lunit) (simp add: run_loop_calls q)
qed

theorem EventLoop_runs_queued_witness:
  "\<exists>s'. run_loop 4 demo_poll_state = Some s' \<and> es_ran s' = [7] \<and> el_functors (es_loop s') = []"
  using EventLoop_runs_queued[OF demo_poll_reach] by (simp add: demo_poll_state_def)

text \<open>A functor the owner of the loop queues before \<open>StartLoop\<close> is not run until some other event happens: a state is reachable
  in which the loop is blocked in \<open>Poll\<close> with the functor in the queue, the event descriptor at zero and no thread
  about to write it.\<close>

theorem EventLoop_early_functor_blocks:
  fixes f :: 'f
  shows "\<exists>s. el_reach s \<and> es_pc s = AtPoll \<and> el_functors (es_loop s) = [f] \<and> el_eventfd (es_loop s) = 0 \<and>
     es_rest s = [] \<and> loop_next s = None"
proof -
  note r = el_reach.step
  let ?i = "init_system :: 'f loop_system"
  have "el_reach (?i\<lparr>es_loop := QueueToLoop (el_owner (es_loop ?i)) f (es_loop ?i), es_early := True,
      es_queued := es_queued ?i @ [f]\<rparr>)" (is "el_reach ?a")
    by (rule r[OF el_reach.start]) (rule el_step.early_queue, simp_all add: init_system_def)
  then have "el_reach (?a\<lparr>es_loop := (es_loop ?a)\<lparr>el_looping := True\<rparr>, es_pc := Check\<rparr>)" (is "el_reach ?b")
    by (rule r) (rule el_step.start_loop, simp add: init_system_def)
  then have "el_reach (?b\<lparr>es_pc := AtPoll\<rparr>)"
    by (rule r) (rule el_step.enter_poll, simp_all add: init_system_def EventLoop_def loop_ops)
  then show ?thesis
    by (intro exI conjI, assumption) (simp_all add: init_system_def EventLoop_def loop_ops loop_next.simps)
qed

subsection \<open>Exceptions\<close>

text \<open>No callback can change \<open>looping_\<close>: it is private and only \<open>StartLoop\<close> writes it.\<close>

definition keeps_looping :: "'f callee \<Rightarrow> bool" where
  "keeps_looping h \<longleftrightarrow> (\<forall>l. el_looping (fst (h l)) = el_looping l)"

lemma keeps_loopingD: "keeps_looping h \<Longrightarrow> h l = (l', e) \<Longrightarrow> el_looping l' = el_looping l"
  unfolding keeps_looping_def by (metis fst_conv)

lemma keeps_loopingI: "(\<And>l l' e. h l = (l', e) \<Longrightarrow> el_looping l' = el_looping l) \<Longrightarrow> keeps_looping h"
  unfolding keeps_looping_def by (metis prod.collapse)

lemma call_all_looping:
  assumes "\<And>f. keeps_looping (call f)"
  shows "keeps_looping (call_all call fs)"
proof (induction fs)
  case (Cons f fs)
  show ?case
    by (rule keeps_loopingI, cases f)
       (auto split: prod.splits option.splits dest: keeps_loopingD[OF Cons.IH] keeps_loopingD[OF assms])
qed (simp add: keeps_looping_def)

lemma run_handlers_looping: "\<forall>h \<in> set hs. keeps_looping h \<Longrightarrow> keeps_looping (run_handlers hs)"
proof (induction hs)
  case (Cons h hs)
  then have h: "keeps_looping h" and hs: "keeps_looping (run_handlers hs)" by simp_all
  show ?case
    by (rule keeps_loopingI) (auto split: prod.splits option.splits dest: keeps_loopingD[OF h] keeps_loopingD[OF hs])
qed (simp add: keeps_looping_def)

lemma CallFunctors_looping:
  assumes "\<And>f. keeps_looping (call f)"
  shows "keeps_looping (CallFunctors call)"
  by (rule keeps_loopingI)
     (auto simp: CallFunctors_def Let_def split: prod.splits if_splits
       dest: keeps_loopingD[OF call_all_looping[of call, OF assms]])

lemma loop_rounds_threw:
  assumes "\<And>f. keeps_looping (call f)"
  shows "\<forall>hs \<in> set rounds. \<forall>h \<in> set hs. keeps_looping h \<Longrightarrow> el_looping l \<Longrightarrow>
    loop_rounds call rounds l = (l', Threw e) \<Longrightarrow> el_looping l'"
proof (induction rounds arbitrary: l)
  case Nil
  then show ?case by (auto split: if_splits)
next
  case (Cons hs rounds)
  then have hs: "keeps_looping (run_handlers hs)" by (simp add: run_handlers_looping)
  note cf = CallFunctors_looping[of call, OF assms]
  show ?case
    using Cons.prems Cons.IH
    by (auto split: if_splits prod.splits option.splits dest: keeps_loopingD[OF hs] keeps_loopingD[OF cf])
qed

text \<open>A loop that a callback leaves by an exception cannot be started again: \<open>StartLoop\<close> does not reset \<open>looping_\<close> on that
  path, so the next \<open>StartLoop\<close> fails its assertion, whatever callbacks and events follow.\<close>

theorem EventLoop_not_restartable:
  assumes "\<And>f. keeps_looping (call f)" "\<forall>hs \<in> set rounds. \<forall>h \<in> set hs. keeps_looping h"
    "StartLoop call tid rounds l = Inr (l', Threw e)"
  shows "StartLoop call' tid' rounds' l' = Inl AssertFail"
proof -
  have "loop_rounds call rounds (l\<lparr>el_looping := True\<rparr>) = (l', Threw e)"
    using assms(3) by (simp add: StartLoop_def assertR_def rbind_def AssertInThread_def split: if_splits)
  then have "el_looping l'" by (rule loop_rounds_threw[of call, OF assms(1,2), rotated]) simp
  then show ?thesis by (simp add: StartLoop_def assertR_def rbind_def)
qed

definition demo_thrown_loop :: "nat option event_loop" where
  "demo_thrown_loop = \<lparr>el_owner = 0, el_looping = True, el_quit = False, el_calling = False, el_functors = [],
     el_eventfd = 0\<rparr>"

lemma demo_throwing_run:
  "StartLoop (\<lambda>_ l. (l, Some Exn)) 0 [[]] (QueueToLoop 0 (Some 7) (EventLoop 0)) = Inr (demo_thrown_loop, Threw Exn)"
  by (simp add: StartLoop_def AssertInThread_def CallFunctors_def loop_ops EventLoop_def demo_thrown_loop_def)

theorem EventLoop_not_restartable_witness:
  "StartLoop (\<lambda>_ l. (l, Some Exn)) 0 [[]] (QueueToLoop 0 (Some 7) (EventLoop 0)) = Inr (demo_thrown_loop, Threw Exn) \<and>
   StartLoop (\<lambda>_ l. (l, None)) 0 [] demo_thrown_loop = Inl AssertFail"
  using EventLoop_not_restartable[OF _ _ demo_throwing_run] demo_throwing_run
  by (simp add: keeps_looping_def)

end
