(* ===== verification/Reserved_Array.thy ===== *)
theory Reserved_Array
  imports Kanon_Prelude
begin

text \<open>
  Model of \<^verbatim>\<open>kanon/algo/reserved_array.h\<close> and \<^verbatim>\<open>libc_allocator_with_realloc.h\<close> at the element
  type the library instantiates, \<open>char\<close>: an array without a capacity, moved by
  \<open>realloc\<close>. The allocator is a parameter: which requests succeed, and what a new byte holds
  before it is written.
\<close>

section \<open>The C allocator\<close>

record allocator =
  mem_ok :: "usize \<Rightarrow> bool"
  mem_fresh :: "nat \<Rightarrow> byte"

text \<open>A request above \<open>PTRDIFF_MAX\<close> always fails.\<close>

definition mem_granted :: "allocator \<Rightarrow> usize \<Rightarrow> bool" where
  "mem_granted A n \<longleftrightarrow> mem_ok A n \<and> n \<le> 0x7FFFFFFFFFFFFFFF"

definition libc_malloc :: "allocator \<Rightarrow> usize \<Rightarrow> bytes option" where
  "libc_malloc A n =
     (if mem_granted A n then Some (map (mem_fresh A) [0..<unat n]) else None)"

text \<open>\<open>realloc(p, n)\<close>: the old bytes are kept up to the smaller size. For a null pointer it is
  \<open>malloc(n)\<close>; for size 0 it frees the block and returns a null pointer.\<close>

definition libc_realloc :: "allocator \<Rightarrow> bytes option \<Rightarrow> usize \<Rightarrow> bytes option" where
  "libc_realloc A p n =
     (case p of
        None \<Rightarrow> libc_malloc A n
      | Some xs \<Rightarrow>
          if n = 0 then None
          else if mem_granted A n
            then Some (take (unat n) xs @ map (mem_fresh A) [length xs..<unat n])
            else None)"

section \<open>The array\<close>

text \<open>\<open>data_\<close> and \<open>end_\<close>: a null pointer, or a block whose length is \<open>end_ - data_\<close>.\<close>

record reserved_array =
  ra_data :: "bytes option"

definition ra_bytes :: "reserved_array \<Rightarrow> bytes" where
  "ra_bytes a = (case ra_data a of None \<Rightarrow> [] | Some xs \<Rightarrow> xs)"

definition ra_wf :: "reserved_array \<Rightarrow> bool" where
  "ra_wf a \<longleftrightarrow> length (ra_bytes a) < 2 ^ 63"

definition ReservedArray :: reserved_array where
  "ReservedArray = \<lparr>ra_data = None\<rparr>"

definition ReservedArray_n :: "allocator \<Rightarrow> usize \<Rightarrow> reserved_array res" where
  "ReservedArray_n A n =
     (case libc_malloc A n of
        None \<Rightarrow> Inl BadAlloc
      | Some xs \<Rightarrow> Inr \<lparr>ra_data = Some xs\<rparr>)"

definition ra_size :: "reserved_array \<Rightarrow> usize" where
  "ra_size a = of_nat (length (ra_bytes a))"

definition ra_empty :: "reserved_array \<Rightarrow> bool" where
  "ra_empty a \<longleftrightarrow> ra_bytes a = []"

text \<open>The copy constructor does not look at the result of \<open>allocate\<close>.\<close>

definition ReservedArray_copy :: "allocator \<Rightarrow> reserved_array \<Rightarrow> reserved_array res" where
  "ReservedArray_copy A b =
     (case libc_malloc A (ra_size b) of
        None \<Rightarrow> if ra_empty b then Inr \<lparr>ra_data = None\<rparr> else Inl NullDeref
      | Some xs \<Rightarrow> Inr \<lparr>ra_data = Some (ra_bytes b)\<rparr>)"

definition ra_Reallocate :: "allocator \<Rightarrow> reserved_array \<Rightarrow> usize \<Rightarrow> reserved_array res" where
  "ra_Reallocate A a n =
     (case libc_realloc A (ra_data a) n of
        None \<Rightarrow> Inl BadAlloc
      | Some xs \<Rightarrow> Inr (a\<lparr>ra_data := Some xs\<rparr>))"

definition ra_Grow :: "allocator \<Rightarrow> reserved_array \<Rightarrow> usize \<Rightarrow> reserved_array res" where
  "ra_Grow A a n = (if n \<le> ra_size a then Inr a else ra_Reallocate A a n)"

definition ra_Shrink_impl :: "allocator \<Rightarrow> reserved_array \<Rightarrow> usize \<Rightarrow> reserved_array res" where
  "ra_Shrink_impl A a n =
     (case libc_realloc A (ra_data a) n of
        None \<Rightarrow> if n \<noteq> 0 then Inl BadAlloc else Inr (a\<lparr>ra_data := None\<rparr>)
      | Some xs \<Rightarrow> if n = 0 then Inr (a\<lparr>ra_data := None\<rparr>) else Inr (a\<lparr>ra_data := Some xs\<rparr>))"

definition ra_Shrink :: "allocator \<Rightarrow> reserved_array \<Rightarrow> usize \<Rightarrow> reserved_array res" where
  "ra_Shrink A a n = (if ra_size a \<le> n then Inr a else ra_Shrink_impl A a n)"

definition ra_index :: "reserved_array \<Rightarrow> usize \<Rightarrow> byte res" where
  "ra_index a i = rbind (assertR (i < ra_size a)) (\<lambda>_. Inr (ra_bytes a ! unat i))"

text \<open>Copy assignment between two different objects, and its two helpers.\<close>

definition ra_CopyAssignmentForSizeEqual :: "reserved_array \<Rightarrow> reserved_array \<Rightarrow> reserved_array" where
  "ra_CopyAssignmentForSizeEqual a b =
     a\<lparr>ra_data := map_option (\<lambda>_. ra_bytes b) (ra_data a)\<rparr>"

definition ra_CopyAssignmentForSizeNotEqual ::
  "allocator \<Rightarrow> reserved_array \<Rightarrow> reserved_array \<Rightarrow> reserved_array res" where
  "ra_CopyAssignmentForSizeNotEqual A a b =
     (case libc_realloc A (ra_data a) (ra_size b) of
        None \<Rightarrow> Inl BadAlloc
      | Some xs \<Rightarrow>
          if ra_size a < ra_size b
          then Inr (a\<lparr>ra_data := Some (put_at (length (ra_bytes a))
                        (drop (length (ra_bytes a)) (ra_bytes b))
                        (put_at 0 (take (length (ra_bytes a)) (ra_bytes b)) xs))\<rparr>)
          else Inr (a\<lparr>ra_data := Some (put_at 0 (ra_bytes b) xs)\<rparr>))"

definition ra_assign :: "allocator \<Rightarrow> reserved_array \<Rightarrow> reserved_array \<Rightarrow> reserved_array res" where
  "ra_assign A a b =
     (if ra_size a = ra_size b then Inr (ra_CopyAssignmentForSizeEqual a b)
      else ra_CopyAssignmentForSizeNotEqual A a b)"

definition ra_swap :: "reserved_array \<Rightarrow> reserved_array \<Rightarrow> reserved_array \<times> reserved_array" where
  "ra_swap a b = (a\<lparr>ra_data := ra_data b\<rparr>, b\<lparr>ra_data := ra_data a\<rparr>)"

text \<open>Move construction (the new object and the emptied source) and move assignment.\<close>

definition ReservedArray_move :: "reserved_array \<Rightarrow> reserved_array \<times> reserved_array" where
  "ReservedArray_move b = (\<lparr>ra_data = ra_data b\<rparr>, b\<lparr>ra_data := None\<rparr>)"

definition ra_move_assign :: "reserved_array \<Rightarrow> reserved_array \<Rightarrow> reserved_array \<times> reserved_array" where
  "ra_move_assign a b = ra_swap a b"

text \<open>Writing through \<open>data()\<close> at an offset.\<close>

definition ra_write :: "reserved_array \<Rightarrow> nat \<Rightarrow> bytes \<Rightarrow> reserved_array res" where
  "ra_write a i ys =
     (if i + length ys \<le> length (ra_bytes a)
      then Inr (a\<lparr>ra_data := map_option (put_at i ys) (ra_data a)\<rparr>) else Inl OutOfBounds)"

section \<open>Lemmas\<close>

lemma unat_ra_size: "ra_wf a \<Longrightarrow> unat (ra_size a) = length (ra_bytes a)"
  by (simp add: ra_wf_def ra_size_def idx_simps)

lemma mem_granted_less: "mem_granted A n \<Longrightarrow> unat n < 2 ^ 63"
  by (simp add: mem_granted_def word_le_nat_alt)

lemma libc_realloc_length:
  "libc_realloc A p n = Some ys \<Longrightarrow> length ys = unat n \<and> length ys < 2 ^ 63"
  using mem_granted_less [of A n]
  by (auto simp: libc_realloc_def libc_malloc_def min_def split: option.splits if_splits)

lemma ra_Grow_Inr:
  assumes "ra_Grow A a n = Inr a'" "ra_wf a"
  shows "ra_wf a'" and "length (ra_bytes a') = max (unat n) (length (ra_bytes a))"
    and "take (length (ra_bytes a)) (ra_bytes a') = ra_bytes a"
proof -
  have len: "unat (ra_size a) = length (ra_bytes a)" by (rule unat_ra_size [OF assms(2)])
  show "ra_wf a'"
    using assms by (auto simp: ra_Grow_def ra_Reallocate_def ra_wf_def ra_bytes_def
        dest: libc_realloc_length split: if_splits option.splits)
  show "length (ra_bytes a') = max (unat n) (length (ra_bytes a))"
    using assms len by (auto simp: ra_Grow_def ra_Reallocate_def ra_bytes_def word_le_nat_alt
        dest: libc_realloc_length split: if_splits option.splits)
  show "take (length (ra_bytes a)) (ra_bytes a') = ra_bytes a"
    using assms len by (auto simp: ra_Grow_def ra_Reallocate_def libc_realloc_def ra_bytes_def
        word_le_nat_alt split: if_splits option.splits)
qed

lemma ra_Grow_Inl: "ra_Grow A a n = Inl err \<Longrightarrow> err = BadAlloc"
  by (auto simp: ra_Grow_def ra_Reallocate_def split: if_splits option.splits)

lemma ra_Shrink_Inr:
  assumes "ra_Shrink A a n = Inr a'" "ra_wf a"
  shows "ra_wf a'" and "ra_bytes a' = take (unat n) (ra_bytes a)"
proof -
  have len: "unat (ra_size a) = length (ra_bytes a)" by (rule unat_ra_size [OF assms(2)])
  show "ra_bytes a' = take (unat n) (ra_bytes a)"
    using assms len by (auto simp: ra_Shrink_def ra_Shrink_impl_def libc_realloc_def
        libc_malloc_def ra_bytes_def word_le_nat_alt split: if_splits option.splits)
  then show "ra_wf a'" using assms(2) by (simp add: ra_wf_def)
qed

lemma ra_write_Inr:
  assumes "i + length ys \<le> length (ra_bytes a)"
  shows "\<exists>a'. ra_write a i ys = Inr a' \<and> ra_bytes a' = put_at i ys (ra_bytes a)"
  using assms by (auto simp: ra_write_def ra_bytes_def put_at_def split: option.splits)

end
