(* ===== verification/Byte_Order.thy ===== *)
theory Byte_Order
  imports Kanon_Prelude
begin

text \<open>
  Model of \<^verbatim>\<open>kanon/linux/core/util/endian_api.h\<close>: conversion of unsigned integers between host
  and network byte order. The byte order of the host is a parameter; an integer object in
  memory is the list of its bytes in address order.
\<close>

datatype endian = LittleEndian | BigEndian

section \<open>Integer objects in memory\<close>

definition mem_bytes :: "endian \<Rightarrow> nat \<Rightarrow> 'a::len word \<Rightarrow> bytes" where
  "mem_bytes e n x =
     (case e of LittleEndian \<Rightarrow> nat_bytes n (unat x) | BigEndian \<Rightarrow> rev (nat_bytes n (unat x)))"

definition mem_word :: "endian \<Rightarrow> bytes \<Rightarrow> 'a::len word" where
  "mem_word e bs =
     of_nat (bytes_nat (case e of LittleEndian \<Rightarrow> bs | BigEndian \<Rightarrow> rev bs))"

text \<open>\<open>bswap\<close>, the work \<open>htobeNN\<close> and \<open>beNNtoh\<close> do on a little-endian host.\<close>

definition bswap :: "nat \<Rightarrow> 'a::len word \<Rightarrow> 'a word" where
  "bswap n x = of_nat (bytes_nat (rev (nat_bytes n (unat x))))"

definition htobe :: "endian \<Rightarrow> nat \<Rightarrow> 'a::len word \<Rightarrow> 'a word" where
  "htobe e n x = (case e of LittleEndian \<Rightarrow> bswap n x | BigEndian \<Rightarrow> x)"

definition ToNetworkByteOrder8 :: "endian \<Rightarrow> 8 word \<Rightarrow> 8 word" where
  "ToNetworkByteOrder8 e x = x"

definition ToNetworkByteOrder16 :: "endian \<Rightarrow> 16 word \<Rightarrow> 16 word" where
  "ToNetworkByteOrder16 e x = htobe e 2 x"

definition ToNetworkByteOrder32 :: "endian \<Rightarrow> 32 word \<Rightarrow> 32 word" where
  "ToNetworkByteOrder32 e x = htobe e 4 x"

definition ToNetworkByteOrder64 :: "endian \<Rightarrow> 64 word \<Rightarrow> 64 word" where
  "ToNetworkByteOrder64 e x = htobe e 8 x"

definition ToHostByteOrder8 :: "endian \<Rightarrow> 8 word \<Rightarrow> 8 word" where
  "ToHostByteOrder8 e x = x"

definition ToHostByteOrder16 :: "endian \<Rightarrow> 16 word \<Rightarrow> 16 word" where
  "ToHostByteOrder16 e x = htobe e 2 x"

definition ToHostByteOrder32 :: "endian \<Rightarrow> 32 word \<Rightarrow> 32 word" where
  "ToHostByteOrder32 e x = htobe e 4 x"

definition ToHostByteOrder64 :: "endian \<Rightarrow> 64 word \<Rightarrow> 64 word" where
  "ToHostByteOrder64 e x = htobe e 8 x"

section \<open>The wire format\<close>

text \<open>Most significant byte first.\<close>

definition be_bytes :: "nat \<Rightarrow> 'a::len word \<Rightarrow> bytes" where
  "be_bytes n x = rev (nat_bytes n (unat x))"

definition be_word :: "bytes \<Rightarrow> 'a::len word" where
  "be_word bs = of_nat (bytes_nat (rev bs))"

lemma length_be_bytes [simp]: "length (be_bytes n x) = n"
  by (simp add: be_bytes_def)

lemma pow_256: "(256 :: nat) ^ n = 2 ^ (8 * n)"
  by (simp add: power_mult)

lemma unat_of_bytes_nat:
  assumes "LENGTH('a::len) = 8 * n" "length bs = n"
  shows "unat (of_nat (bytes_nat bs) :: 'a word) = bytes_nat bs"
  using bytes_nat_bound [of bs] assms by (simp add: unat_of_nat pow_256)

lemma nat_bytes_of_nat:
  assumes "LENGTH('a::len) = 8 * n" "length bs = n"
  shows "nat_bytes n (unat (of_nat (bytes_nat bs) :: 'a word)) = bs"
  using nat_bytes_bytes_nat [of bs] by (simp add: unat_of_bytes_nat [OF assms] assms(2))

lemma of_nat_nat_bytes:
  assumes "LENGTH('a::len) = 8 * n"
  shows "of_nat (bytes_nat (nat_bytes n (unat x))) = (x :: 'a word)"
proof -
  have "unat x < 2 ^ LENGTH('a)" by (rule unsigned_less)
  then show ?thesis using assms by (simp add: bytes_nat_nat_bytes pow_256)
qed

lemma be_word_be_bytes:
  "LENGTH('a::len) = 8 * n \<Longrightarrow> be_word (be_bytes n x) = (x :: 'a word)"
  by (simp add: be_word_def be_bytes_def of_nat_nat_bytes)

lemma be_bytes_be_word:
  "LENGTH('a::len) = 8 * n \<Longrightarrow> length bs = n \<Longrightarrow> be_bytes n (be_word bs :: 'a word) = bs"
  by (simp add: be_word_def be_bytes_def nat_bytes_of_nat)

lemma mem_bytes_htobe:
  assumes "LENGTH('a::len) = 8 * n"
  shows "mem_bytes e n (htobe e n x :: 'a word) = be_bytes n x"
  by (cases e)
     (simp_all add: mem_bytes_def htobe_def bswap_def be_bytes_def nat_bytes_of_nat assms)

lemma htobe_mem_word:
  assumes "LENGTH('a::len) = 8 * n" "length bs = n"
  shows "htobe e n (mem_word e bs :: 'a word) = be_word bs"
  by (cases e)
     (simp_all add: mem_word_def htobe_def bswap_def be_word_def nat_bytes_of_nat assms)

lemma htobe_htobe:
  assumes "LENGTH('a::len) = 8 * n"
  shows "htobe e n (htobe e n x :: 'a word) = x"
  using of_nat_nat_bytes [OF assms, of x]
  by (cases e) (simp_all add: htobe_def bswap_def nat_bytes_of_nat assms)

text \<open>The instances the buffers use.\<close>

lemmas wire_simps =
  ToNetworkByteOrder16_def ToNetworkByteOrder32_def ToNetworkByteOrder64_def
  ToHostByteOrder16_def ToHostByteOrder32_def ToHostByteOrder64_def
  mem_bytes_htobe htobe_htobe htobe_mem_word be_word_be_bytes be_bytes_be_word

end
