(* ===== verification/Byte_Queue.thy ===== *)
theory Byte_Queue
  imports Kanon_Prelude
begin

text \<open>
  The contract the network code expects from an input or an output buffer: bytes are
  appended at the end and consumed at the front. The buffers of \<^verbatim>\<open>kanon/buffer\<close>
  are interpretations; what a client may conclude is proved here once.
\<close>

datatype queue_op = QAppend bytes | QAdvance nat

text \<open>The abstract queue: a byte list.\<close>

fun queue_step :: "queue_op \<Rightarrow> bytes \<Rightarrow> bytes option" where
  "queue_step (QAppend xs) q = Some (q @ xs)"
| "queue_step (QAdvance n) q = (if n \<le> length q then Some (drop n q) else None)"

fun queue_run :: "queue_op list \<Rightarrow> bytes \<Rightarrow> bytes option" where
  "queue_run [] q = Some q"
| "queue_run (c # cs) q = Option.bind (queue_step c q) (queue_run cs)"

text \<open>The same operations on an implementation, given by its two functions.\<close>

fun impl_step ::
  "('s \<Rightarrow> bytes \<Rightarrow> 's res) \<Rightarrow> ('s \<Rightarrow> nat \<Rightarrow> 's res) \<Rightarrow> queue_op \<Rightarrow> 's \<Rightarrow> 's res" where
  "impl_step app adv (QAppend xs) s = app s xs"
| "impl_step app adv (QAdvance n) s = adv s n"

fun impl_run ::
  "('s \<Rightarrow> bytes \<Rightarrow> 's res) \<Rightarrow> ('s \<Rightarrow> nat \<Rightarrow> 's res) \<Rightarrow> queue_op list \<Rightarrow> 's \<Rightarrow> 's res" where
  "impl_run app adv [] s = Inr s"
| "impl_run app adv (c # cs) s = rbind (impl_step app adv c s) (impl_run app adv cs)"

text \<open>The appended blocks the implementation accepts.\<close>

fun fits :: "(bytes \<Rightarrow> bool) \<Rightarrow> queue_op \<Rightarrow> bool" where
  "fits admits (QAppend xs) = admits xs"
| "fits admits (QAdvance n) = True"

locale byte_queue =
  fixes inv :: "'s \<Rightarrow> bool"
    and content :: "'s \<Rightarrow> bytes"
    and append :: "'s \<Rightarrow> bytes \<Rightarrow> 's res"
    and advance :: "'s \<Rightarrow> nat \<Rightarrow> 's res"
    and admits :: "bytes \<Rightarrow> bool"
    and allowed :: "cerror \<Rightarrow> bool"
  assumes append_Inr:
      "inv s \<Longrightarrow> admits xs \<Longrightarrow> append s xs = Inr s' \<Longrightarrow> inv s' \<and> content s' = content s @ xs"
    and append_Inl:
      "inv s \<Longrightarrow> admits xs \<Longrightarrow> append s xs = Inl err \<Longrightarrow> allowed err"
    and advance_Inr:
      "inv s \<Longrightarrow> n \<le> length (content s) \<Longrightarrow>
       \<exists>s'. advance s n = Inr s' \<and> inv s' \<and> content s' = drop n (content s)"
begin

lemma step_refines:
  assumes "inv s" "fits admits c" "queue_step c (content s) = Some q"
  shows "(\<exists>s'. impl_step append advance c s = Inr s' \<and> inv s' \<and> content s' = q) \<or>
         (\<exists>err. impl_step append advance c s = Inl err \<and> allowed err)"
proof (cases c)
  case (QAppend xs)
  then show ?thesis
    using assms append_Inr [OF assms(1), of xs] append_Inl [OF assms(1), of xs]
    by (cases "append s xs") auto
next
  case (QAdvance n)
  then show ?thesis
    using assms advance_Inr [OF assms(1), of n] by (auto split: if_splits)
qed

text \<open>Every run of operations that the list queue accepts ends in the same contents, unless an
  append stops with one of the allowed errors (no memory).\<close>

lemma run_refines:
  assumes "inv s" "\<forall>c\<in>set cs. fits admits c" "queue_run cs (content s) = Some q"
  shows "(\<exists>s'. impl_run append advance cs s = Inr s' \<and> inv s' \<and> content s' = q) \<or>
         (\<exists>err. impl_run append advance cs s = Inl err \<and> allowed err)"
  using assms
proof (induction cs arbitrary: s)
  case (Cons c cs)
  then obtain q1 where q1: "queue_step c (content s) = Some q1" "queue_run cs q1 = Some q"
    by (auto simp: bind_eq_Some_conv)
  from step_refines [OF Cons.prems(1) _ q1(1)] Cons.prems(2) show ?case
    using Cons.IH q1(2) Cons.prems(2) by fastforce
qed simp

end

text \<open>A queue that checks the count of an advance.\<close>

locale checked_byte_queue = byte_queue inv content append advance admits allowed
  for inv :: "'s \<Rightarrow> bool" and content append advance admits allowed +
  assumes advance_Inl:
    "inv s \<Longrightarrow> length (content s) < n \<Longrightarrow> n < 2 ^ 63 \<Longrightarrow> advance s n = Inl AssertFail"
begin

lemma advance_overrun:
  "inv s \<Longrightarrow> n < 2 ^ 63 \<Longrightarrow> queue_step (QAdvance n) (content s) = None \<Longrightarrow>
   impl_step append advance (QAdvance n) s = Inl AssertFail"
  using advance_Inl by (auto split: if_splits)

end

end
