(* ===== verification/String_View.thy ===== *)
theory String_View
  imports Kanon_Prelude
begin

text \<open>
  Model of \<^verbatim>\<open>kanon/string/string_view.h\<close> and \<^verbatim>\<open>string_view.cc\<close>: a view is a pointer and a
  length. The pointer is represented by the bytes that can be read from it to the end of
  the object it points into; the loops run over 64-bit indices with the
  wrap-around of \<open>size_t\<close>, and a read past the end of the object is an error value.
\<close>

section \<open>The C functions the views rest on\<close>

fun memcmp :: "bytes \<Rightarrow> bytes \<Rightarrow> nat \<Rightarrow> int res" where
  "memcmp as bs 0 = Inr 0"
| "memcmp (a # as) (b # bs) (Suc n) =
     (if a < b then Inr (- 1) else if b < a then Inr 1 else memcmp as bs n)"
| "memcmp as bs (Suc n) = Inl OutOfBounds"

fun strncmp :: "bytes \<Rightarrow> bytes \<Rightarrow> nat \<Rightarrow> int res" where
  "strncmp as bs 0 = Inr 0"
| "strncmp (a # as) (b # bs) (Suc n) =
     (if a < b then Inr (- 1) else if b < a then Inr 1
      else if a = 0 then Inr 0 else strncmp as bs n)"
| "strncmp as bs (Suc n) = Inl OutOfBounds"

definition ctoupper :: "byte \<Rightarrow> byte" where
  "ctoupper c = (if 97 \<le> c \<and> c \<le> 122 then c - 32 else c)"

definition ctolower :: "byte \<Rightarrow> byte" where
  "ctolower c = (if 65 \<le> c \<and> c \<le> 90 then c + 32 else c)"

text \<open>\<open>StrNCaseCompare\<close> is \<open>strncasecmp\<close> on Linux.\<close>

fun StrNCaseCompare :: "bytes \<Rightarrow> bytes \<Rightarrow> nat \<Rightarrow> int res" where
  "StrNCaseCompare as bs 0 = Inr 0"
| "StrNCaseCompare (a # as) (b # bs) (Suc n) =
     (if ctolower a < ctolower b then Inr (- 1)
      else if ctolower b < ctolower a then Inr 1
      else if a = 0 then Inr 0 else StrNCaseCompare as bs n)"
| "StrNCaseCompare as bs (Suc n) = Inl OutOfBounds"

section \<open>Loops over indices\<close>

abbreviation (input) npos :: usize where
  "npos \<equiv> usize_max"

text \<open>\<open>for (i = i0; i < n; ++i) if (P i) return i; return npos;\<close>\<close>

function for_up :: "(usize \<Rightarrow> bool res) \<Rightarrow> usize \<Rightarrow> usize \<Rightarrow> usize res" where
  "for_up P i n =
     (if i < n then rbind (P i) (\<lambda>b. if b then Inr i else for_up P (i + 1) n)
      else Inr npos)"
  by pat_completeness auto
termination
  by (relation "measure (\<lambda>(P, i, n). unat n - unat i)")
     (auto simp: idx_simps word_less_nat_alt)

text \<open>\<open>for (;; --i) { if (P i) return i; if (i == 0) break; } return npos;\<close>\<close>

function for_down :: "(usize \<Rightarrow> bool res) \<Rightarrow> usize \<Rightarrow> usize res" where
  "for_down P i =
     rbind (P i) (\<lambda>b. if b then Inr i else if i = 0 then Inr npos else for_down P (i - 1))"
  by pat_completeness auto
termination
  by (relation "measure (\<lambda>(P, i). unat i)") (auto simp: idx_simps unat_gt_0)

text \<open>\<open>for (; i > 0; --i) if (P i) return i; return npos;\<close>\<close>

function for_down1 :: "(usize \<Rightarrow> bool res) \<Rightarrow> usize \<Rightarrow> usize res" where
  "for_down1 P i =
     (if 0 < i then rbind (P i) (\<lambda>b. if b then Inr i else for_down1 P (i - 1))
      else Inr npos)"
  by pat_completeness auto
termination
  by (relation "measure (\<lambda>(P, i). unat i)")
     (auto simp: idx_simps unat_gt_0 word_neq_0_conv)

declare for_up.simps [simp del] for_down.simps [simp del] for_down1.simps [simp del]

section \<open>Views\<close>

record string_view =
  sv_data :: bytes
  sv_len :: usize

definition sv_ok :: "string_view \<Rightarrow> bool" where
  "sv_ok v \<longleftrightarrow> unat (sv_len v) \<le> length (sv_data v) \<and> length (sv_data v) < 2 ^ 63"

definition sv_str :: "string_view \<Rightarrow> bytes" where
  "sv_str v = take (unat (sv_len v)) (sv_data v)"

definition StringView :: "bytes \<Rightarrow> usize \<Rightarrow> string_view" where
  "StringView p len = \<lparr>sv_data = p, sv_len = len\<rparr>"

definition StringView_empty :: string_view where
  "StringView_empty = \<lparr>sv_data = [0], sv_len = 0\<rparr>"

text \<open>From a C string: \<open>strlen\<close> needs the terminating null character.\<close>

definition StringView_cstr :: "bytes \<Rightarrow> string_view res" where
  "StringView_cstr p =
     (if 0 \<in> set p then Inr (StringView p (of_nat (length (takeWhile (\<lambda>c. c \<noteq> 0) p))))
      else Inl OutOfBounds)"

text \<open>From a \<open>std::string\<close> (whose buffer ends in a null character).\<close>

definition StringView_string :: "bytes \<Rightarrow> string_view" where
  "StringView_string s = StringView (s @ [0]) (of_nat (length s))"

definition sv_reset :: "string_view \<Rightarrow> string_view" where
  "sv_reset v = StringView_empty"

definition sv_set :: "string_view \<Rightarrow> bytes \<Rightarrow> usize \<Rightarrow> string_view" where
  "sv_set v p n = v\<lparr>sv_data := p, sv_len := n\<rparr>"

definition sv_empty :: "string_view \<Rightarrow> bool" where
  "sv_empty v \<longleftrightarrow> sv_len v = 0"

definition sv_index :: "string_view \<Rightarrow> usize \<Rightarrow> byte res" where
  "sv_index v n =
     (if unat n < length (sv_data v) then Inr (sv_data v ! unat n) else Inl OutOfBounds)"

definition sv_at :: "string_view \<Rightarrow> usize \<Rightarrow> byte res" where
  "sv_at v n = (if sv_len v \<le> n then Inl Exn else sv_index v n)"

definition sv_front :: "string_view \<Rightarrow> byte res" where
  "sv_front v = sv_index v 0"

definition sv_back :: "string_view \<Rightarrow> byte res" where
  "sv_back v = sv_index v (sv_len v - 1)"

definition sv_swap :: "string_view \<Rightarrow> string_view \<Rightarrow> string_view \<times> string_view" where
  "sv_swap v w = (w, v)"

definition sv_remove_prefix :: "string_view \<Rightarrow> usize \<Rightarrow> string_view" where
  "sv_remove_prefix v n =
     v\<lparr>sv_data := drop (unat n) (sv_data v), sv_len := sv_len v - n\<rparr>"

definition sv_remove_suffix :: "string_view \<Rightarrow> usize \<Rightarrow> string_view" where
  "sv_remove_suffix v n = v\<lparr>sv_len := sv_len v - n\<rparr>"

text \<open>The bytes stored to \<open>dst\<close> and the returned count.\<close>

definition sv_copy :: "string_view \<Rightarrow> usize \<Rightarrow> usize \<Rightarrow> (bytes \<times> usize) res" where
  "sv_copy v count pos =
     (if sv_len v \<le> pos then Inl Exn
      else if length (sv_data v) < unat pos + unat count then Inl OutOfBounds
      else Inr (seg (unat pos) (unat pos + unat count) (sv_data v), count))"

definition sv_substr :: "string_view \<Rightarrow> usize \<Rightarrow> usize \<Rightarrow> string_view" where
  "sv_substr v pos count =
     StringView (drop (unat pos) (sv_data v)) (min count (sv_len v - pos))"

definition sv_substr_range :: "string_view \<Rightarrow> usize \<Rightarrow> usize \<Rightarrow> string_view" where
  "sv_substr_range v b e = sv_substr v b (e - b)"

subsection \<open>Searching\<close>

definition sv_find :: "string_view \<Rightarrow> string_view \<Rightarrow> usize \<Rightarrow> usize res" where
  "sv_find s v pos =
     rbind (assertR (pos \<le> sv_len s)) (\<lambda>_.
       if sv_len v \<le> sv_len s then
         for_up (\<lambda>i. rbind (strncmp (drop (unat i) (sv_data s)) (sv_data v) (unat (sv_len v)))
                       (\<lambda>r. Inr (r = 0)))
           pos (sv_len s - sv_len v + 1)
       else Inr npos)"

definition sv_find_char :: "string_view \<Rightarrow> byte \<Rightarrow> usize \<Rightarrow> usize res" where
  "sv_find_char s c pos =
     for_up (\<lambda>i. rbind (sv_index s i) (\<lambda>d. Inr (c = d))) pos (sv_len s)"

definition sv_rfind :: "string_view \<Rightarrow> string_view \<Rightarrow> usize \<Rightarrow> usize res" where
  "sv_rfind s v pos =
     (if \<not> sv_empty v then
        for_down (\<lambda>len. rbind (sv_index s len) (\<lambda>d. rbind (sv_front v) (\<lambda>f.
            if d = f \<and> sv_len v \<le> sv_len s - len then
              rbind (memcmp (drop (unat len) (sv_data s)) (sv_data v) (unat (sv_len v)))
                (\<lambda>r. Inr (r = 0))
            else Inr False)))
          (min (sv_len s - 1) pos)
      else Inr npos)"

definition sv_rfind_char :: "string_view \<Rightarrow> byte \<Rightarrow> usize \<Rightarrow> usize res" where
  "sv_rfind_char s c pos =
     for_down (\<lambda>len. rbind (sv_index s len) (\<lambda>d. Inr (d = c))) (min (sv_len s - 1) pos)"

definition sv_contains :: "string_view \<Rightarrow> string_view \<Rightarrow> bool res" where
  "sv_contains s v = rbind (sv_find s v 0) (\<lambda>i. Inr (i \<noteq> npos))"

definition sv_starts_with :: "string_view \<Rightarrow> string_view \<Rightarrow> bool res" where
  "sv_starts_with s v =
     (if sv_len v \<le> sv_len s then
        rbind (memcmp (sv_data s) (sv_data v) (unat (sv_len v))) (\<lambda>r. Inr (r = 0))
      else Inr False)"

definition sv_starts_with_char :: "string_view \<Rightarrow> byte \<Rightarrow> bool res" where
  "sv_starts_with_char s c =
     (if 1 \<le> sv_len s then rbind (sv_index s 0) (\<lambda>d. Inr (d = c)) else Inr False)"

definition sv_ends_with :: "string_view \<Rightarrow> string_view \<Rightarrow> bool res" where
  "sv_ends_with s v =
     (if sv_len v \<le> sv_len s then
        rbind (memcmp (drop (unat (sv_len s - sv_len v)) (sv_data s)) (sv_data v)
          (unat (sv_len v))) (\<lambda>r. Inr (r = 0))
      else Inr False)"

definition sv_ends_with_char :: "string_view \<Rightarrow> byte \<Rightarrow> bool res" where
  "sv_ends_with_char s c =
     (if 1 \<le> sv_len s then rbind (sv_index s (sv_len s - 1)) (\<lambda>d. Inr (d = c)) else Inr False)"

definition charInRange :: "byte \<Rightarrow> string_view \<Rightarrow> bool" where
  "charInRange c v \<longleftrightarrow> c \<in> set (sv_str v)"

definition sv_find_first_of :: "string_view \<Rightarrow> string_view \<Rightarrow> usize \<Rightarrow> usize res" where
  "sv_find_first_of s v pos =
     for_up (\<lambda>i. rbind (sv_index s i) (\<lambda>d. Inr (charInRange d v))) pos (sv_len s)"

definition sv_find_first_of_char :: "string_view \<Rightarrow> byte \<Rightarrow> usize \<Rightarrow> usize res" where
  "sv_find_first_of_char s c pos =
     for_up (\<lambda>i. rbind (sv_index s i) (\<lambda>d. Inr (d = c))) pos (sv_len s)"

text \<open>\<open>find_last_of(StringView)\<close> never changes its index; not returning is \<open>None\<close>.\<close>

partial_function (option) find_last_of_loop ::
  "string_view \<Rightarrow> string_view \<Rightarrow> usize \<Rightarrow> usize res option" where
  "find_last_of_loop s v i =
     (if 0 < i then
        (case sv_index s i of
           Inl e \<Rightarrow> Some (Inl e)
         | Inr d \<Rightarrow> if charInRange d v then Some (Inr i) else find_last_of_loop s v i)
      else Some (Inr npos))"

definition sv_find_last_of :: "string_view \<Rightarrow> string_view \<Rightarrow> usize \<Rightarrow> usize res option" where
  "sv_find_last_of s v pos =
     (if sv_len s = 0 then Some (Inr npos)
      else find_last_of_loop s v (min (sv_len s - 1) pos))"

definition sv_find_last_of_char :: "string_view \<Rightarrow> byte \<Rightarrow> usize \<Rightarrow> usize res" where
  "sv_find_last_of_char s c pos =
     (if sv_len s = 0 then Inr npos
      else rbind (for_down1 (\<lambda>i. rbind (sv_index s i) (\<lambda>d. Inr (d = c)))
                    (min (sv_len s - 1) pos))
             (\<lambda>i. if i = npos then Inr npos else Inr pos))"

definition sv_find_first_not_of :: "string_view \<Rightarrow> string_view \<Rightarrow> usize \<Rightarrow> usize res" where
  "sv_find_first_not_of s v pos =
     for_up (\<lambda>i. rbind (sv_index s i) (\<lambda>d. Inr (\<not> charInRange d v))) pos (sv_len s)"

definition sv_find_first_not_of_char :: "string_view \<Rightarrow> byte \<Rightarrow> usize \<Rightarrow> usize res" where
  "sv_find_first_not_of_char s c pos =
     for_up (\<lambda>i. rbind (sv_index s i) (\<lambda>d. Inr (d \<noteq> c))) pos (sv_len s)"

definition sv_find_last_not_of :: "string_view \<Rightarrow> string_view \<Rightarrow> usize \<Rightarrow> usize res" where
  "sv_find_last_not_of s v pos =
     (if sv_len s = 0 then Inr npos
      else for_down1 (\<lambda>i. rbind (sv_index s i) (\<lambda>d. Inr (\<not> charInRange d v)))
             (min (sv_len s - 1) pos))"

definition sv_find_last_not_of_char :: "string_view \<Rightarrow> byte \<Rightarrow> usize \<Rightarrow> usize res" where
  "sv_find_last_not_of_char s c pos =
     (if sv_len s = 0 then Inr npos
      else for_down1 (\<lambda>i. rbind (sv_index s i) (\<lambda>d. Inr (d = c))) (min (sv_len s - 1) pos))"

subsection \<open>Comparing\<close>

definition sv_caseCompare :: "string_view \<Rightarrow> string_view \<Rightarrow> int res" where
  "sv_caseCompare s v =
     rbind (StrNCaseCompare (sv_data s) (sv_data v)
              (unat (if sv_len s < sv_len v then sv_len s else sv_len v)))
       (\<lambda>r. if r = 0 then
              (if sv_len s < sv_len v then Inr (- 1)
               else if sv_len v < sv_len s then Inr 1 else Inr r)
            else Inr r)"

text \<open>The characters are promoted to \<open>int\<close> as signed values.\<close>

definition sv_caseCompare_char :: "string_view \<Rightarrow> byte \<Rightarrow> int res" where
  "sv_caseCompare_char s c =
     rbind (sv_index s 0) (\<lambda>d.
       let d0 = sint (ctoupper d); c0 = sint (ctoupper c) in
       if sv_len s < 1 \<or> d0 < c0 then Inr (- 1)
       else if c0 < d0 then Inr 1
       else Inr (if d0 = sint c \<and> sv_len s = 1 then 0 else 1))"

definition sv_compare :: "string_view \<Rightarrow> string_view \<Rightarrow> int res" where
  "sv_compare s v =
     rbind (memcmp (sv_data s) (sv_data v)
              (unat (if sv_len s < sv_len v then sv_len s else sv_len v)))
       (\<lambda>r. if r = 0 then
              (if sv_len s < sv_len v then Inr (- 1)
               else if sv_len v < sv_len s then Inr 1 else Inr r)
            else Inr r)"

definition sv_compare_char :: "string_view \<Rightarrow> byte \<Rightarrow> int res" where
  "sv_compare_char s c =
     (if sv_len s < 1 then Inr (- 1)
      else rbind (sv_index s 0) (\<lambda>d.
        if sint d < sint c then Inr (- 1)
        else if sint c < sint d then Inr 1
        else Inr (if d = c \<and> sv_len s = 1 then 0 else 1)))"

definition sv_eq :: "string_view \<Rightarrow> string_view \<Rightarrow> bool res" where
  "sv_eq s v =
     (if sv_len s = sv_len v then
        rbind (memcmp (sv_data s) (sv_data v) (unat (sv_len s))) (\<lambda>r. Inr (r = 0))
      else Inr False)"

definition sv_neq :: "string_view \<Rightarrow> string_view \<Rightarrow> bool res" where
  "sv_neq s v = rbind (sv_eq s v) (\<lambda>b. Inr (\<not> b))"

definition sv_less :: "string_view \<Rightarrow> string_view \<Rightarrow> bool res" where
  "sv_less s v = rbind (sv_compare s v) (\<lambda>r. Inr (r < 0))"

definition sv_greater :: "string_view \<Rightarrow> string_view \<Rightarrow> bool res" where
  "sv_greater s v = sv_less v s"

definition sv_ge :: "string_view \<Rightarrow> string_view \<Rightarrow> bool res" where
  "sv_ge s v = rbind (sv_less s v) (\<lambda>b. Inr (\<not> b))"

definition sv_le :: "string_view \<Rightarrow> string_view \<Rightarrow> bool res" where
  "sv_le s v = rbind (sv_greater s v) (\<lambda>b. Inr (\<not> b))"

subsection \<open>Splitting and converting\<close>

partial_function (option) split_loop ::
  "string_view \<Rightarrow> string_view \<Rightarrow> usize \<Rightarrow> usize \<Rightarrow> bytes list \<Rightarrow> bytes list res option" where
  "split_loop s sp b e ret =
     (let e = (if e = npos then sv_len s else e);
          ret = ret @ [sv_str (sv_substr s b (e - b))] in
      if e = sv_len s then Some (Inr ret)
      else let b = e + sv_len sp in
        (case sv_find s sp b of
           Inl err \<Rightarrow> Some (Inl err)
         | Inr e \<Rightarrow> split_loop s sp b e ret))"

definition sv_split :: "string_view \<Rightarrow> string_view \<Rightarrow> bytes list res option" where
  "sv_split s sp =
     (case sv_find s sp 0 of
        Inl err \<Rightarrow> Some (Inl err)
      | Inr e \<Rightarrow> split_loop s sp 0 e [])"

definition sv_ToString :: "string_view \<Rightarrow> bytes" where
  "sv_ToString v = sv_str v"

definition sv_ToUpperString :: "string_view \<Rightarrow> bytes" where
  "sv_ToUpperString v = map ctoupper (sv_str v)"

definition sv_ToLowerString :: "string_view \<Rightarrow> bytes" where
  "sv_ToLowerString v = map ctolower (sv_str v)"

declare split_loop.simps [code] find_last_of_loop.simps [code]

section \<open>The loops against list search\<close>

declare upt_Suc [simp del]

lemma find_upt_Some_iff:
  "find Q [a..<b] = Some k \<longleftrightarrow> a \<le> k \<and> k < b \<and> Q k \<and> (\<forall>j. a \<le> j \<and> j < k \<longrightarrow> \<not> Q j)"
proof (induction "b - a" arbitrary: a)
  case 0
  then show ?case by auto
next
  case (Suc d)
  then have "a < b" by simp
  then have *: "[a..<b] = a # [Suc a..<b]" by (rule upt_conv_Cons)
  have IH: "find Q [Suc a..<b] = Some k \<longleftrightarrow>
    Suc a \<le> k \<and> k < b \<and> Q k \<and> (\<forall>j. Suc a \<le> j \<and> j < k \<longrightarrow> \<not> Q j)"
    using Suc by simp
  show ?case
    unfolding * using IH \<open>a < b\<close>
    by (cases "Q a") (auto simp: Suc_le_eq intro: le_neq_implies_less)
qed

lemma find_upt_cut:
  assumes "\<And>k. m \<le> k \<Longrightarrow> \<not> Q k" "m \<le> n"
  shows "find Q [a..<n] = find Q [a..<m]"
proof -
  have "find Q [a..<n] = Some k \<longleftrightarrow> find Q [a..<m] = Some k" for k
    using assms by (auto simp: find_upt_Some_iff not_less intro: leI)
  then show ?thesis by (metis not_Some_eq)
qed

lemma find_rev_upt_Some_iff:
  "find Q (rev [0..<n]) = Some k \<longleftrightarrow> k < n \<and> Q k \<and> (\<forall>j. k < j \<and> j < n \<longrightarrow> \<not> Q j)"
  by (induction n) (auto simp: less_Suc_eq upt_Suc)

text \<open>What a loop that cannot fail returns, in terms of the library's \<^const>\<open>find\<close>.\<close>

definition idx_of :: "nat option \<Rightarrow> usize" where
  "idx_of r = (case r of None \<Rightarrow> npos | Some k \<Rightarrow> of_nat k)"

lemma for_up_find:
  assumes "\<And>i. unat i < unat n \<Longrightarrow> P i = Inr (Q (unat i))"
  shows "for_up P i n = Inr (idx_of (find Q [unat i..<unat n]))"
  using assms
proof (induction P i n rule: for_up.induct)
  case (1 P i n)
  show ?case
  proof (cases "i < n")
    case True
    then have i: "unat i < unat n" by (simp add: word_less_nat_alt)
    then have *: "[unat i..<unat n] = unat i # [Suc (unat i)..<unat n]"
      by (rule upt_conv_Cons)
    have "P i = Inr (Q (unat i))" using 1(2) i .
    moreover have "for_up P (i + 1) n = Inr (idx_of (find Q [Suc (unat i)..<unat n]))"
      if "\<not> Q (unat i)"
      using 1(1) [OF True, of False] 1(2) unat_suc_usize [OF True] by simp
    ultimately show ?thesis
      using True by (simp add: for_up.simps [of P i n] * idx_of_def)
  qed (simp add: for_up.simps [of P i n] idx_of_def word_less_nat_alt)
qed

lemma for_down_find:
  assumes "\<And>j. unat j \<le> unat i \<Longrightarrow> P j = Inr (Q (unat j))"
  shows "for_down P i = Inr (idx_of (find Q (rev [0..<Suc (unat i)])))"
  using assms
proof (induction P i rule: for_down.induct)
  case (1 P i)
  have P: "P i = Inr (Q (unat i))" using 1(2) by simp
  show ?case
  proof (cases "i = 0")
    case True
    then show ?thesis using P by (subst for_down.simps) (simp add: idx_of_def upt_Suc)
  next
    case False
    then have i: "unat i = Suc (unat (i - 1))"
      by (simp add: unat_pred_usize unat_gt_0)
    have "for_down P (i - 1) = Inr (idx_of (find Q (rev [0..<Suc (unat (i - 1))])))"
      using 1(1) [of False] 1(2) False i by simp
    then show ?thesis
      using P False by (simp add: for_down.simps [of P i] idx_of_def i upt_Suc)
  qed
qed

section \<open>What the operations return\<close>

text \<open>An occurrence of \<open>p\<close> at position \<open>k\<close> of \<open>t\<close>.\<close>

definition occurs_at :: "'a list \<Rightarrow> nat \<Rightarrow> 'a list \<Rightarrow> bool" where
  "occurs_at p k t \<longleftrightarrow> k + length p \<le> length t \<and> seg k (k + length p) t = p"

lemma memcmp_total:
  "n \<le> length as \<Longrightarrow> n \<le> length bs \<Longrightarrow>
   \<exists>r. memcmp as bs n = Inr r \<and> (r = 0 \<longleftrightarrow> take n as = take n bs)"
proof (induction as bs n rule: memcmp.induct)
  case (2 a as b bs n)
  then show ?case by (cases "a = b") auto
qed auto

lemma strncmp_total:
  "n \<le> length as \<Longrightarrow> n \<le> length bs \<Longrightarrow> 0 \<notin> set (take n bs) \<Longrightarrow>
   \<exists>r. strncmp as bs n = Inr r \<and> (r = 0 \<longleftrightarrow> take n as = take n bs)"
proof (induction as bs n rule: strncmp.induct)
  case (2 a as b bs n)
  then show ?case by (cases "a = b") auto
qed auto

lemma sv_str_length [simp]: "sv_ok v \<Longrightarrow> length (sv_str v) = unat (sv_len v)"
  by (simp add: sv_ok_def sv_str_def)

lemma sv_len_bound: "sv_ok v \<Longrightarrow> unat (sv_len v) < 2 ^ 63"
  by (simp add: sv_ok_def)

lemma sv_index_in:
  "sv_ok v \<Longrightarrow> unat i < unat (sv_len v) \<Longrightarrow> sv_index v i = Inr (sv_str v ! unat i)"
  by (simp add: sv_ok_def sv_str_def sv_index_def)

lemma occurs_at_view:
  assumes "sv_ok s" "sv_ok v" "k + unat (sv_len v) \<le> unat (sv_len s)"
  shows "occurs_at (sv_str v) k (sv_str s) \<longleftrightarrow>
    take (unat (sv_len v)) (drop k (sv_data s)) = take (unat (sv_len v)) (sv_data v)"
  using assms by (auto simp: occurs_at_def seg_def sv_str_def sv_ok_def drop_take min_def)

lemma sv_find_eq:
  assumes s: "sv_ok s" and v: "sv_ok v" and nul: "0 \<notin> set (sv_str v)"
    and pos: "pos \<le> sv_len s"
  shows "sv_find s v pos =
    Inr (idx_of (find (\<lambda>k. occurs_at (sv_str v) k (sv_str s)) [unat pos..<Suc (unat (sv_len s))]))"
proof (cases "sv_len v \<le> sv_len s")
  case True
  let ?n = "sv_len s - sv_len v + 1"
  let ?Q = "\<lambda>k. occurs_at (sv_str v) k (sv_str s)"
  have n: "unat ?n = unat (sv_len s) - unat (sv_len v) + 1"
    using True sv_len_bound [OF s] by (simp add: unat_add_usize unat_sub_usize)
  have body: "rbind (strncmp (drop (unat i) (sv_data s)) (sv_data v) (unat (sv_len v)))
      (\<lambda>r. Inr (r = 0)) = Inr (?Q (unat i))" if "unat i < unat ?n" for i
  proof -
    have i: "unat i + unat (sv_len v) \<le> unat (sv_len s)"
      using that n True by (simp add: word_le_nat_alt)
    have "\<exists>r. strncmp (drop (unat i) (sv_data s)) (sv_data v) (unat (sv_len v)) = Inr r \<and>
      (r = 0 \<longleftrightarrow> take (unat (sv_len v)) (drop (unat i) (sv_data s))
                 = take (unat (sv_len v)) (sv_data v))"
      using s v i nul by (intro strncmp_total) (auto simp: sv_ok_def sv_str_def)
    then show ?thesis using occurs_at_view [OF s v i] by auto
  qed
  have cut: "find ?Q [unat pos..<Suc (unat (sv_len s))] = find ?Q [unat pos..<unat ?n]"
    using s v True by (intro find_upt_cut) (auto simp: n occurs_at_def word_le_nat_alt)
  show ?thesis
    using True pos by (simp add: sv_find_def for_up_find [where Q = ?Q, OF body] cut)
next
  case False
  then have "\<not> occurs_at (sv_str v) k (sv_str s)" for k
    using s v by (simp add: occurs_at_def word_le_nat_alt)
  then have "find (\<lambda>k. occurs_at (sv_str v) k (sv_str s)) ks = None" for ks
    by (simp add: find_None_iff)
  then show ?thesis using False pos by (simp add: sv_find_def idx_of_def)
qed

lemma idx_of_Some:
  assumes "k < 2 ^ 63"
  shows "unat (idx_of (Some k)) = k" "idx_of (Some k) \<noteq> npos"
proof -
  show 1: "unat (idx_of (Some k)) = k"
    using assms by (simp add: idx_of_def unat_of_nat)
  show "idx_of (Some k) \<noteq> npos"
  proof
    assume "idx_of (Some k) = npos"
    then have "unat (idx_of (Some k)) = 2 ^ 64 - 1" by (simp only: unat_usize_max)
    then show False using 1 assms by simp
  qed
qed

lemma idx_of_cases:
  assumes "\<And>k. r = Some k \<Longrightarrow> k < 2 ^ 63"
  obtains "r = None" "idx_of r = npos"
    | k where "r = Some k" "unat (idx_of r) = k" "idx_of r \<noteq> npos"
  using assms idx_of_Some by (cases r) (auto simp: idx_of_def)

lemma sv_find_first:
  assumes "sv_ok s" "sv_ok v" "0 \<notin> set (sv_str v)" "pos \<le> sv_len s"
  shows "\<exists>k. sv_find s v pos = Inr k \<and>
    (if k = - 1 then \<forall>j \<ge> unat pos. \<not> occurs_at (sv_str v) j (sv_str s)
     else pos \<le> k \<and> occurs_at (sv_str v) (unat k) (sv_str s) \<and>
       (\<forall>j. unat pos \<le> j \<and> j < unat k \<longrightarrow> \<not> occurs_at (sv_str v) j (sv_str s)))"
proof -
  let ?Q = "\<lambda>k. occurs_at (sv_str v) k (sv_str s)"
  let ?r = "find ?Q [unat pos..<Suc (unat (sv_len s))]"
  have bound: "k < 2 ^ 63" if "?r = Some k" for k
    using that sv_len_bound [OF assms(1)] unfolding find_upt_Some_iff by simp
  have none: "\<not> ?Q j" if "?r = None" "unat pos \<le> j" for j
    using that assms(1) by (force simp: find_None_iff occurs_at_def)
  show ?thesis
  proof (rule idx_of_cases [OF bound])
    assume "?r = None" "idx_of ?r = npos"
    then show ?thesis using sv_find_eq [OF assms] none by (auto)
  next
    fix k assume k: "?r = Some k" "unat (idx_of ?r) = k" "idx_of ?r \<noteq> npos"
    then show ?thesis
      using sv_find_eq [OF assms] unfolding find_upt_Some_iff
      by (auto simp: word_le_nat_alt)
  qed
qed

text \<open>\<open>StringView::find\<close> returns the first occurrence at or after the start position, and
  \<open>npos\<close> exactly when there is none, for every needle without a null character.\<close>

theorem sv_find_first_occurrence:
  assumes "sv_ok s" "sv_ok v" "0 \<notin> set (sv_str v)" "pos \<le> sv_len s"
  shows "\<exists>k. sv_find s v pos = Inr k \<and>
    (if k = - 1 then \<forall>j \<ge> unat pos. \<not> occurs_at (sv_str v) j (sv_str s)
     else pos \<le> k \<and> occurs_at (sv_str v) (unat k) (sv_str s) \<and>
       (\<forall>j. unat pos \<le> j \<and> j < unat k \<longrightarrow> \<not> occurs_at (sv_str v) j (sv_str s)))"
  using assms by (rule sv_find_first)

theorem sv_find_first_occurrence_witness:
  "let s = StringView_string [97, 13, 98, 13, 10, 99]; v = StringView_string [13, 10] in
   sv_ok s \<and> sv_ok v \<and> 0 \<notin> set (sv_str v) \<and> 1 \<le> sv_len s \<and> sv_find s v 1 = Inr 3 \<and>
   (\<exists>k. sv_find s v 1 = Inr k \<and>
    (if k = - 1 then \<forall>j \<ge> unat (1 :: usize). \<not> occurs_at (sv_str v) j (sv_str s)
     else 1 \<le> k \<and> occurs_at (sv_str v) (unat k) (sv_str s) \<and>
       (\<forall>j. unat (1 :: usize) \<le> j \<and> j < unat k \<longrightarrow> \<not> occurs_at (sv_str v) j (sv_str s))))"
proof -
  let ?s = "StringView_string [97, 13, 98, 13, 10, 99]" and ?v = "StringView_string [13, 10]"
  have h: "sv_ok ?s" "sv_ok ?v" "0 \<notin> set (sv_str ?v)" "1 \<le> sv_len ?s"
    by (simp_all add: sv_ok_def sv_str_def StringView_string_def StringView_def)
  moreover have "sv_find ?s ?v 1 = Inr 3" by code_simp
  ultimately show ?thesis using sv_find_first_occurrence [OF h] by simp
qed

lemma sv_rfind_eq:
  assumes s: "sv_ok s" "sv_len s \<noteq> 0" and v: "sv_ok v" "sv_len v \<noteq> 0"
  shows "sv_rfind s v pos = Inr (idx_of (find (\<lambda>k. occurs_at (sv_str v) k (sv_str s))
    (rev [0..<Suc (min (unat (sv_len s) - 1) (unat pos))])))"
proof -
  let ?Q = "\<lambda>k. occurs_at (sv_str v) k (sv_str s)"
  let ?n = "unat (sv_len v)"
  have len: "unat (min (sv_len s - 1) pos) = min (unat (sv_len s) - 1) (unat pos)"
    using s(2) by (simp add: min_def word_le_nat_alt unat_pred_usize)
  have pos_len: "0 < unat (sv_len s)" using s(2) by (simp add: unat_gt_0)
  have front: "sv_front v = Inr (sv_str v ! 0)"
    using v by (simp add: sv_front_def sv_index_in unat_gt_0)
  have body: "rbind (sv_index s i) (\<lambda>d. rbind (sv_front v) (\<lambda>f.
        if d = f \<and> sv_len v \<le> sv_len s - i then
          rbind (memcmp (drop (unat i) (sv_data s)) (sv_data v) ?n) (\<lambda>r. Inr (r = 0))
        else Inr False)) = Inr (?Q (unat i))"
    if "unat i \<le> unat (min (sv_len s - 1) pos)" for i
  proof -
    have i: "unat i < unat (sv_len s)"
      using that pos_len unfolding len by linarith
    have fits: "sv_len v \<le> sv_len s - i \<longleftrightarrow> unat i + ?n \<le> unat (sv_len s)"
      using i by (auto simp: word_le_nat_alt unat_sub_usize)
    have first: "sv_str s ! unat i = sv_str v ! 0" if "?Q (unat i)"
    proof -
      have "sv_str v ! 0 = seg (unat i) (unat i + ?n) (sv_str s) ! 0"
        using that v(1) by (simp add: occurs_at_def)
      then show ?thesis using v s i by (simp add: seg_def unat_gt_0)
    qed
    show ?thesis
    proof (cases "sv_str s ! unat i = sv_str v ! 0 \<and> sv_len v \<le> sv_len s - i")
      case True
      then have fit: "unat i + ?n \<le> unat (sv_len s)" using fits by simp
      have "\<exists>r. memcmp (drop (unat i) (sv_data s)) (sv_data v) ?n = Inr r \<and>
        (r = 0 \<longleftrightarrow> take ?n (drop (unat i) (sv_data s)) = take ?n (sv_data v))"
        using s(1) v(1) fit by (intro memcmp_total) (auto simp: sv_ok_def)
      then show ?thesis
        using True occurs_at_view [OF s(1) v(1) fit] sv_index_in [OF s(1) i] front by auto
    next
      case False
      then have "\<not> ?Q (unat i)" using first fits s v by (auto simp: occurs_at_def)
      then show ?thesis using False sv_index_in [OF s(1) i] front by auto
    qed
  qed
  show ?thesis
    unfolding sv_rfind_def sv_empty_def
    by (subst for_down_find [where Q = ?Q, OF body]) (simp_all add: len v(2))
qed

text \<open>\<open>StringView::rfind\<close> on non-empty views returns the last occurrence that starts at or
  before the given position, and \<open>npos\<close> exactly when there is none.\<close>

theorem sv_rfind_last_occurrence:
  assumes "sv_ok s" "sv_len s \<noteq> 0" "sv_ok v" "sv_len v \<noteq> 0"
  shows "\<exists>k. sv_rfind s v pos = Inr k \<and>
    (if k = - 1 then \<forall>j \<le> unat pos. \<not> occurs_at (sv_str v) j (sv_str s)
     else k \<le> pos \<and> occurs_at (sv_str v) (unat k) (sv_str s) \<and>
       (\<forall>j. unat k < j \<and> j \<le> unat pos \<longrightarrow> \<not> occurs_at (sv_str v) j (sv_str s)))"
proof -
  let ?Q = "\<lambda>k. occurs_at (sv_str v) k (sv_str s)"
  let ?m = "min (unat (sv_len s) - 1) (unat pos)"
  let ?r = "find ?Q (rev [0..<Suc ?m])"
  have sup: "j < unat (sv_len s)" if "?Q j" for j
    using that assms by (auto simp: occurs_at_def unat_gt_0 dest: add_leD1
      intro: order.strict_trans2 [of _ "j + unat (sv_len v)"])
  have bound: "k < 2 ^ 63" if "?r = Some k" for k
    using that sup sv_len_bound [OF assms(1)] unfolding find_rev_upt_Some_iff by fastforce
  show ?thesis
  proof (rule idx_of_cases [OF bound])
    assume "?r = None" "idx_of ?r = npos"
    moreover have "\<not> ?Q j" if "j \<le> unat pos" for j
      using \<open>?r = None\<close> that sup [of j] by (force simp: find_None_iff)
    ultimately show ?thesis using sv_rfind_eq [OF assms] by auto
  next
    fix k assume k: "?r = Some k" "unat (idx_of ?r) = k" "idx_of ?r \<noteq> npos"
    then have "k \<le> ?m" "?Q k" and max: "\<forall>j. k < j \<and> j < Suc ?m \<longrightarrow> \<not> ?Q j"
      unfolding find_rev_upt_Some_iff by auto
    moreover have "\<not> ?Q j" if "k < j" "j \<le> unat pos" for j
      using that max sup [of j] by auto
    ultimately show ?thesis
      using k sv_rfind_eq [OF assms] by (auto simp: word_le_nat_alt)
  qed
qed

theorem sv_rfind_last_occurrence_witness:
  "let s = StringView_string [97, 98, 97, 98, 99]; v = StringView_string [97, 98] in
   sv_ok s \<and> sv_len s \<noteq> 0 \<and> sv_ok v \<and> sv_len v \<noteq> 0 \<and> sv_rfind s v (- 1) = Inr 2 \<and>
   (\<exists>k. sv_rfind s v (- 1) = Inr k \<and>
    (if k = - 1 then \<forall>j \<le> unat (- 1 :: usize). \<not> occurs_at (sv_str v) j (sv_str s)
     else k \<le> - 1 \<and> occurs_at (sv_str v) (unat k) (sv_str s) \<and>
       (\<forall>j. unat k < j \<and> j \<le> unat (- 1 :: usize) \<longrightarrow>
         \<not> occurs_at (sv_str v) j (sv_str s))))"
proof -
  let ?s = "StringView_string [97, 98, 97, 98, 99]" and ?v = "StringView_string [97, 98]"
  have h: "sv_ok ?s" "sv_len ?s \<noteq> 0" "sv_ok ?v" "sv_len ?v \<noteq> 0"
    by (simp_all add: sv_ok_def sv_str_def StringView_string_def StringView_def)
  moreover have "sv_rfind ?s ?v (- 1) = Inr 2" by code_simp
  ultimately show ?thesis using sv_rfind_last_occurrence [OF h, of "- 1"] by (simp only: Let_def) simp
qed

subsection \<open>Comparison is the lexicographic order\<close>

abbreviation byte_lex :: "(bytes \<times> bytes) set" where
  "byte_lex \<equiv> lexord {(a, b). a < b}"

definition lexcmp :: "bytes \<Rightarrow> bytes \<Rightarrow> int" where
  "lexcmp xs ys = (if xs = ys then 0 else if (xs, ys) \<in> byte_lex then - 1 else 1)"

lemma lexcmp_simps [simp]:
  "lexcmp [] [] = 0"
  "lexcmp [] (y # ys) = - 1"
  "lexcmp (x # xs) [] = 1"
  "lexcmp (x # xs) (y # ys) = (if x < y then - 1 else if y < x then 1 else lexcmp xs ys)"
  by (auto simp: lexcmp_def)

text \<open>The decision on the lengths once the common part is equal.\<close>

definition by_length :: "nat \<Rightarrow> nat \<Rightarrow> int \<Rightarrow> int" where
  "by_length m n r = (if r = 0 then (if m < n then - 1 else if n < m then 1 else r) else r)"

lemma memcmp_lexcmp:
  assumes "m \<le> length as" "n \<le> length bs"
  shows "rbind (memcmp as bs (min m n)) (\<lambda>r. Inr (by_length m n r))
    = Inr (lexcmp (take m as) (take n bs))"
  using assms
proof (induction as arbitrary: bs m n)
  case Nil
  then show ?case by (cases n; cases bs) (auto simp: by_length_def)
next
  case (Cons a as)
  show ?case
  proof (cases "m = 0 \<or> n = 0")
    case True
    with Cons.prems show ?thesis
      by (cases m; cases n; cases bs) (auto simp: by_length_def)
  next
    case False
    then obtain m' n' where mn: "m = Suc m'" "n = Suc n'" by (meson not0_implies_Suc)
    with Cons.prems obtain b bs' where bs: "bs = b # bs'" by (cases bs) auto
    have "by_length (Suc m') (Suc n') = by_length m' n'"
      by (simp add: fun_eq_iff by_length_def)
    then show ?thesis
      using Cons.IH [of m' n' bs'] Cons.prems
      by (auto simp: mn bs by_length_def)
  qed
qed

lemma StrNCaseCompare_lexcmp:
  assumes "m \<le> length as" "n \<le> length bs" "0 \<notin> set (take m as)"
  shows "rbind (StrNCaseCompare as bs (min m n)) (\<lambda>r. Inr (by_length m n r))
    = Inr (lexcmp (map ctolower (take m as)) (map ctolower (take n bs)))"
  using assms
proof (induction as arbitrary: bs m n)
  case Nil
  then show ?case by (cases n; cases bs) (auto simp: by_length_def)
next
  case (Cons a as)
  show ?case
  proof (cases "m = 0 \<or> n = 0")
    case True
    with Cons.prems show ?thesis
      by (cases m; cases n; cases bs) (auto simp: by_length_def)
  next
    case False
    then obtain m' n' where mn: "m = Suc m'" "n = Suc n'" by (meson not0_implies_Suc)
    with Cons.prems obtain b bs' where bs: "bs = b # bs'" by (cases bs) auto
    have "by_length (Suc m') (Suc n') = by_length m' n'"
      by (simp add: fun_eq_iff by_length_def)
    then show ?thesis
      using Cons.IH [of m' n' bs'] Cons.prems
      by (auto simp: mn bs by_length_def)
  qed
qed

lemma by_length_view:
  "(if r = 0 then (if sv_len s < sv_len v then Inr (- 1)
      else if sv_len v < sv_len s then Inr 1 else Inr r) else Inr r)
   = Inr (by_length (unat (sv_len s)) (unat (sv_len v)) r)"
  by (simp add: by_length_def word_less_nat_alt)

lemma min_len_view:
  "unat (if sv_len s < sv_len v then sv_len s else sv_len v)
   = min (unat (sv_len s)) (unat (sv_len v))"
  by (simp add: word_less_nat_alt)

lemma sv_compare_lexcmp:
  "sv_ok s \<Longrightarrow> sv_ok v \<Longrightarrow> sv_compare s v = Inr (lexcmp (sv_str s) (sv_str v))"
  unfolding sv_compare_def by_length_view min_len_view
  by (simp add: memcmp_lexcmp sv_ok_def sv_str_def)

lemma sv_caseCompare_lexcmp:
  "sv_ok s \<Longrightarrow> sv_ok v \<Longrightarrow> 0 \<notin> set (sv_str s) \<Longrightarrow>
   sv_caseCompare s v = Inr (lexcmp (sv_ToLowerString s) (sv_ToLowerString v))"
  unfolding sv_caseCompare_def by_length_view min_len_view
  by (simp add: StrNCaseCompare_lexcmp sv_ok_def sv_str_def sv_ToLowerString_def)

lemma sv_eq_str:
  assumes "sv_ok s" "sv_ok v"
  shows "sv_eq s v = Inr (sv_str s = sv_str v)"
proof (cases "sv_len s = sv_len v")
  case True
  then have "\<exists>r. memcmp (sv_data s) (sv_data v) (unat (sv_len s)) = Inr r \<and>
      (r = 0 \<longleftrightarrow> sv_str s = sv_str v)"
    using assms memcmp_total [of "unat (sv_len s)" "sv_data s" "sv_data v"]
    by (simp add: sv_ok_def sv_str_def)
  then show ?thesis using True by (auto simp: sv_eq_def)
next
  case False
  then have "length (sv_str s) \<noteq> length (sv_str v)" using assms by (simp add: word_unat_eq_iff)
  then show ?thesis using False by (auto simp: sv_eq_def)
qed

text \<open>The comparison operators of views implement one total order: \<open><\<close> is the
  lexicographic order on the viewed bytes (as unsigned characters), \<open>==\<close> is equality of the
  viewed bytes, and \<open>>\<close>, \<open>>=\<close>, \<open><=\<close>, \<open>!=\<close> are the derived relations.\<close>

theorem sv_comparison_total_order:
  assumes "sv_ok s" "sv_ok v"
  shows "sv_less s v = Inr ((sv_str s, sv_str v) \<in> lexord {(a, b). a < b}) \<and>
    sv_eq s v = Inr (sv_str s = sv_str v) \<and>
    sv_neq s v = Inr (sv_str s \<noteq> sv_str v) \<and>
    sv_greater s v = Inr ((sv_str v, sv_str s) \<in> lexord {(a, b). a < b}) \<and>
    sv_le s v = Inr (sv_str s = sv_str v \<or> (sv_str s, sv_str v) \<in> lexord {(a, b). a < b}) \<and>
    sv_ge s v = Inr (sv_str s = sv_str v \<or> (sv_str v, sv_str s) \<in> lexord {(a, b). a < b})"
proof -
  have irr: "(xs, xs) \<notin> byte_lex" for xs by (rule lexord_irreflexive) auto
  have tot: "(xs, ys) \<in> byte_lex \<or> xs = ys \<or> (ys, xs) \<in> byte_lex" for xs ys
    by (rule lexord_linear) auto
  have tr: "trans {(a, b :: byte). a < b}" by (rule transI) auto
  have asym: "\<not> ((xs, ys) \<in> byte_lex \<and> (ys, xs) \<in> byte_lex)" for xs ys
    using lexord_trans [of xs ys "{(a, b). a < b}" xs] irr tr by blast
  have less: "sv_less a b = Inr ((sv_str a, sv_str b) \<in> byte_lex)" if "sv_ok a" "sv_ok b" for a b
    using that irr by (auto simp: sv_less_def sv_compare_lexcmp lexcmp_def)
  show ?thesis
    using assms irr tot [of "sv_str s" "sv_str v"] asym [of "sv_str s" "sv_str v"]
    by (auto simp: sv_le_def sv_ge_def sv_greater_def less sv_eq_str sv_neq_def)
qed

theorem sv_comparison_total_order_witness:
  "let s = StringView_string [97, 200]; v = StringView_string [97, 98, 99] in
   sv_ok s \<and> sv_ok v \<and> sv_less s v = Inr False \<and> sv_greater s v = Inr True \<and>
   sv_eq s v = Inr (sv_str s = sv_str v)"
proof -
  let ?s = "StringView_string [97, 200]" and ?v = "StringView_string [97, 98, 99]"
  have h: "sv_ok ?s" "sv_ok ?v"
    by (simp_all add: sv_ok_def StringView_string_def StringView_def)
  show ?thesis
    using h sv_comparison_total_order [OF h]
    by (simp add: sv_str_def StringView_string_def StringView_def)
qed

subsection \<open>Splitting\<close>

fun join :: "'a list \<Rightarrow> 'a list list \<Rightarrow> 'a list" where
  "join sep [] = []"
| "join sep [x] = x"
| "join sep (x # y # ys) = x @ sep @ join sep (y # ys)"

lemma join_Cons: "ys \<noteq> [] \<Longrightarrow> join sep (x # ys) = x @ sep @ join sep ys"
  by (cases ys) simp_all

definition infix_free :: "'a list \<Rightarrow> 'a list \<Rightarrow> bool" where
  "infix_free p t \<longleftrightarrow> (\<forall>k. \<not> occurs_at p k t)"

lemma occurs_at_seg:
  assumes "occurs_at p k (seg b e t)" "b \<le> e" "e \<le> length t"
  shows "occurs_at p (b + k) t" and "b + k + length p \<le> e"
proof -
  have k: "k + length p \<le> e - b" and p: "seg k (k + length p) (seg b e t) = p"
    using assms by (auto simp: occurs_at_def)
  then show "b + k + length p \<le> e" using assms(2) by simp
  then show "occurs_at p (b + k) t"
    using p assms by (simp add: occurs_at_def seg_seg add.assoc)
qed

lemma sv_str_substr:
  assumes "sv_ok s" "b \<le> e" "e \<le> sv_len s"
  shows "sv_str (sv_substr s b (e - b)) = seg (unat b) (unat e) (sv_str s)"
proof -
  have "min (e - b) (sv_len s - b) = e - b"
    using assms order.trans [OF assms(2,3)]
    by (simp add: min_def word_le_nat_alt unat_sub_usize diff_le_mono)
  then show ?thesis
    using assms by (simp add: sv_substr_def StringView_def sv_str_def seg_def drop_take
        unat_sub_usize word_le_nat_alt min_def)
qed

lemma split_loop_correct:
  assumes s: "sv_ok s" and p: "sv_ok p" "sv_len p \<noteq> 0" "0 \<notin> set (sv_str p)"
    and b: "b \<le> sv_len s" and e: "sv_find s p b = Inr e"
  shows "\<exists>ps. ps \<noteq> [] \<and> split_loop s p b e ret = Some (Inr (ret @ ps)) \<and>
    join (sv_str p) ps = drop (unat b) (sv_str s) \<and> (\<forall>x\<in>set ps. infix_free (sv_str p) x)"
  using b e
proof (induction "unat (sv_len s) - unat b" arbitrary: b e ret rule: less_induct)
  case less
  let ?t = "sv_str s" and ?p = "sv_str p" and ?L = "sv_len s"
  obtain e0 where e0: "sv_find s p b = Inr e0" and
    split: "if e0 = - 1 then \<forall>j \<ge> unat b. \<not> occurs_at ?p j ?t
     else b \<le> e0 \<and> occurs_at ?p (unat e0) ?t \<and>
       (\<forall>j. unat b \<le> j \<and> j < unat e0 \<longrightarrow> \<not> occurs_at ?p j ?t)"
    using sv_find_first [OF s p(1,3) less.prems(1)] by blast
  have e0e: "e0 = e" using e0 less.prems(2) by simp
  show ?case
  proof (cases "e = - 1")
    case True
    have "sv_str (sv_substr s b (?L - b)) = drop (unat b) ?t"
      using sv_str_substr [OF s less.prems(1) order.refl] s by (simp add: seg_def)
    moreover have "infix_free ?p (drop (unat b) ?t)"
      using split True e0e less.prems(1) s occurs_at_seg [of ?p _ "unat b" "unat ?L" ?t]
      by (fastforce simp: infix_free_def seg_def word_le_nat_alt)
    ultimately show ?thesis
      using True by (intro exI [of _ "[drop (unat b) ?t]"]) (simp add: split_loop.simps)
  next
    case False
    then have be: "b \<le> e" and occ: "occurs_at ?p (unat e) ?t"
      and min: "\<forall>j. unat b \<le> j \<and> j < unat e \<longrightarrow> \<not> occurs_at ?p j ?t"
      using split e0e by auto
    have lp: "0 < unat (sv_len p)" using p(2) by (simp add: unat_gt_0)
    have fit: "unat e + unat (sv_len p) \<le> unat ?L" using occ s p by (simp add: occurs_at_def)
    then have eL: "e \<noteq> ?L" "e \<le> ?L" using lp by (auto simp: word_le_nat_alt)
    let ?b = "e + sv_len p"
    have ub: "unat ?b = unat e + unat (sv_len p)"
      using fit sv_len_bound [OF s] by (intro unat_add_usize) simp
    have bL: "?b \<le> ?L" using fit ub by (simp add: word_le_nat_alt)
    obtain e' where e': "sv_find s p ?b = Inr e'"
      using sv_find_first [OF s p(1,3) bL] by blast
    let ?x = "sv_str (sv_substr s b (e - b))"
    have x: "?x = seg (unat b) (unat e) ?t" by (rule sv_str_substr [OF s be eL(2)])
    have "unat ?L - unat ?b < unat ?L - unat b"
      using ub lp fit be by (simp add: word_le_nat_alt)
    from less.hyps [OF this bL e', of "ret @ [?x]"] obtain ps where ps: "ps \<noteq> []"
      "split_loop s p ?b e' (ret @ [?x]) = Some (Inr ((ret @ [?x]) @ ps))"
      "join ?p ps = drop (unat ?b) ?t" "\<forall>x\<in>set ps. infix_free ?p x" by blast
    have "drop (unat b) ?t = ?x @ ?p @ drop (unat ?b) ?t"
    proof -
      have "drop (unat b) ?t = seg (unat b) (unat ?L) ?t" using s by (simp add: seg_def)
      also have "\<dots> = seg (unat b) (unat e) ?t @ seg (unat e) (unat ?b) ?t @ seg (unat ?b) (unat ?L) ?t"
        using be ub fit
        by (subst seg_split [of _ "unat e"], simp_all add: word_le_nat_alt)
           (rule seg_split, simp_all)
      finally show ?thesis using occ s p(1) by (simp add: x ub occurs_at_def seg_def)
    qed
    moreover have "infix_free ?p ?x"
      unfolding x infix_free_def
      using min be eL(2) s lp occurs_at_seg [of ?p _ "unat b" "unat e" ?t] p(1)
      by (fastforce simp: word_le_nat_alt)
    ultimately show ?thesis
      using ps e' False eL(1)
      by (intro exI [of _ "?x # ps"]) (simp add: split_loop.simps [of s p b] Let_def join_Cons)
  qed
qed

text \<open>C34. Splitting at a non-empty separator without null characters returns without an error; no
  piece contains the separator, and joining the pieces with the separator gives the split text back. Both views
  are valid.\<close>

theorem sv_split_join:
  assumes "sv_ok s" "sv_ok p" "sv_len p \<noteq> 0" "0 \<notin> set (sv_str p)"
  shows "\<exists>ps. sv_split s p = Some (Inr ps) \<and> join (sv_str p) ps = sv_str s \<and>
    (\<forall>x\<in>set ps. infix_free (sv_str p) x)"
proof -
  obtain e where e: "sv_find s p 0 = Inr e"
    using sv_find_first [OF assms(1,2,4), of 0] by auto
  with split_loop_correct [OF assms(1-4) _ e, of "[]"] show ?thesis
    by (auto simp: sv_split_def)
qed

theorem sv_split_join_witness:
  "let s = StringView_string [97, 44, 98, 44]; p = StringView_string [44] in
   sv_ok s \<and> sv_ok p \<and> sv_len p \<noteq> 0 \<and> 0 \<notin> set (sv_str p) \<and>
   sv_split s p = Some (Inr [[97], [98], []]) \<and>
   (\<exists>ps. sv_split s p = Some (Inr ps) \<and> join (sv_str p) ps = sv_str s \<and>
    (\<forall>x\<in>set ps. infix_free (sv_str p) x))"
proof -
  let ?s = "StringView_string [97, 44, 98, 44]" and ?p = "StringView_string [44]"
  have h: "sv_ok ?s" "sv_ok ?p" "sv_len ?p \<noteq> 0" "0 \<notin> set (sv_str ?p)"
    by (simp_all add: sv_ok_def sv_str_def StringView_string_def StringView_def)
  moreover have "sv_split ?s ?p = Some (Inr [[97], [98], []])" by code_simp
  ultimately show ?thesis using sv_split_join [OF h] by simp
qed

subsection \<open>Where the searches go wrong\<close>

text \<open>The reverse searches compute \<open>len_ - 1\<close> before looking at the length: on an empty view
  they read at the wrapped index.\<close>

lemma sv_rfind_char_empty:
  assumes "sv_ok s" "sv_len s = 0" "length (sv_data s) \<le> unat pos"
  shows "sv_rfind_char s c pos = Inl OutOfBounds"
proof -
  have "min (- 1) pos = pos" by (auto simp: min_def word_order.extremum_unique)
  then show ?thesis
    using assms by (subst sv_rfind_char_def, subst for_down.simps) (simp add: sv_index_def)
qed

lemma find_last_of_diverges:
  assumes "i < sv_len s" "0 < i" "sv_ok s" "\<not> charInRange (sv_str s ! unat i) v"
  shows "find_last_of_loop s v i = None"
proof -
  have idx: "sv_index s i = Inr (sv_str s ! unat i)"
    using assms by (intro sv_index_in) (simp_all add: word_less_nat_alt)
  have "\<not> (s = s \<and> v = v \<and> i = i)" if "find_last_of_loop s v i = Some y" for y
    by (rule find_last_of_loop.raw_induct
        [where P = "\<lambda>a b j y. \<not> (a = s \<and> b = v \<and> j = i)", OF _ that])
      (use idx assms(2,4) in \<open>fastforce split: if_splits\<close>)
  then show ?thesis by (cases "find_last_of_loop s v i") auto
qed

text \<open>\<open>find_last_of(StringView)\<close> never decrements its index, so it fails to return whenever
  the character it starts from (not at index 0) is not in the set, although the set may well
  occur earlier in the view.\<close>

theorem sv_find_last_of_hangs:
  assumes "sv_ok s" "1 < sv_len s"
    and "\<not> charInRange (sv_str s ! (unat (sv_len s) - 1)) v"
  shows "sv_find_last_of s v (- 1) = None"
proof -
  have "min (sv_len s - 1) (- 1) = sv_len s - 1" by (simp add: min_def)
  moreover have "unat (sv_len s - 1) = unat (sv_len s) - 1"
    using assms(2) by (intro unat_pred_usize) auto
  moreover have "sv_len s - 1 < sv_len s" "0 < sv_len s - 1"
    using assms(2) calculation(2) by (simp_all add: word_less_nat_alt)
  ultimately show ?thesis
    using assms find_last_of_diverges [of "sv_len s - 1" s v] by (auto simp: sv_find_last_of_def)
qed

theorem sv_find_last_of_hangs_witness:
  "let s = StringView_string [97, 98, 99]; v = StringView_string [98] in
   sv_ok s \<and> 1 < sv_len s \<and> \<not> charInRange (sv_str s ! (unat (sv_len s) - 1)) v \<and>
   sv_find_last_of s v (- 1) = None"
proof -
  let ?s = "StringView_string [97, 98, 99]" and ?v = "StringView_string [98]"
  have h: "sv_ok ?s" "1 < sv_len ?s" "\<not> charInRange (sv_str ?s ! (unat (sv_len ?s) - 1)) ?v"
    by (simp_all add: sv_ok_def sv_str_def charInRange_def StringView_string_def StringView_def)
  then show ?thesis using sv_find_last_of_hangs [OF h] by simp
qed

end
