(* ===== verification/Buffer.thy ===== *)
theory Buffer
  imports Reserved_Array Byte_Order Byte_Queue String_View
begin

text \<open>
  Model of \<^verbatim>\<open>kanon/buffer/buffer.h\<close>, \<^verbatim>\<open>buffer.cc\<close> and \<^verbatim>\<open>kanon/linux/net/buffer.cc\<close>: the
  contiguous input buffer with a prepend region, a readable region and a writable region,
  described by two 64-bit indices into a \<open>ReservedArray\<close>.
\<close>

section \<open>State\<close>

abbreviation (input) BUFFER_INIT_SIZE :: usize where
  "BUFFER_INIT_SIZE \<equiv> 1024"

abbreviation (input) BUFFER_PREFIX_SIZE :: usize where
  "BUFFER_PREFIX_SIZE \<equiv> 8"

record buffer =
  b_read_index :: usize
  b_write_index :: usize
  b_data :: reserved_array

definition GetPrependableSize :: "buffer \<Rightarrow> usize" where
  "GetPrependableSize b = b_read_index b"

definition HasReadable :: "buffer \<Rightarrow> bool" where
  "HasReadable b \<longleftrightarrow> b_read_index b \<noteq> b_write_index b"

definition GetReadableSize :: "buffer \<Rightarrow> usize" where
  "GetReadableSize b = b_write_index b - b_read_index b"

definition GetCapacity :: "buffer \<Rightarrow> usize" where
  "GetCapacity b = ra_size (b_data b)"

definition GetWritableSize :: "buffer \<Rightarrow> usize" where
  "GetWritableSize b = ra_size (b_data b) - b_write_index b"

text \<open>The view of the readable region: what can be read from \<open>GetReadBegin()\<close>, and the readable
  size.\<close>

definition GetReadBegin :: "buffer \<Rightarrow> bytes" where
  "GetReadBegin b = drop (unat (b_read_index b)) (ra_bytes (b_data b))"

definition ToStringView :: "buffer \<Rightarrow> string_view" where
  "ToStringView b = StringView (GetReadBegin b) (GetReadableSize b)"

section \<open>Operations\<close>

definition Buffer :: "allocator \<Rightarrow> usize \<Rightarrow> buffer res" where
  "Buffer A init_size =
     rbind (ra_Grow A ReservedArray (BUFFER_PREFIX_SIZE + init_size)) (\<lambda>d.
       let b = \<lparr>b_read_index = BUFFER_PREFIX_SIZE, b_write_index = BUFFER_PREFIX_SIZE, b_data = d\<rparr> in
       rbind (assertR (GetReadableSize b = 0)) (\<lambda>_. Inr b))"

text \<open>\<open>std::copy(offset(first), offset(last), offset(to))\<close> inside one array: the bytes are read
  before they are overwritten (\<open>memmove\<close>).\<close>

definition copy_within :: "reserved_array \<Rightarrow> usize \<Rightarrow> usize \<Rightarrow> usize \<Rightarrow> reserved_array res" where
  "copy_within a first lst to =
     (if unat lst \<le> length (ra_bytes a)
      then ra_write a (unat to) (seg (unat first) (unat lst) (ra_bytes a))
      else Inl OutOfBounds)"

definition ReserveWriteSpace :: "allocator \<Rightarrow> buffer \<Rightarrow> usize \<Rightarrow> buffer res" where
  "ReserveWriteSpace A b len = noexcept
     (if len \<le> GetWritableSize b then Inr b
      else rbind
        (if GetPrependableSize b - BUFFER_PREFIX_SIZE + GetWritableSize b < len then
           rbind (ra_Grow A (b_data b) (b_write_index b + len)) (\<lambda>d. Inr (b\<lparr>b_data := d\<rparr>))
         else
           let readable = GetReadableSize b in
           rbind (copy_within (b_data b) (b_read_index b) (b_write_index b) BUFFER_PREFIX_SIZE)
             (\<lambda>d. let b' = b\<lparr>b_data := d, b_read_index := BUFFER_PREFIX_SIZE,
                              b_write_index := BUFFER_PREFIX_SIZE + readable\<rparr> in
                rbind (assertR (readable = GetReadableSize b')) (\<lambda>_. Inr b')))
        (\<lambda>b. rbind (assertR (len \<le> GetWritableSize b)) (\<lambda>_. Inr b)))"

definition Append :: "allocator \<Rightarrow> buffer \<Rightarrow> bytes \<Rightarrow> buffer res" where
  "Append A b str =
     rbind (ReserveWriteSpace A b (of_nat (length str))) (\<lambda>b.
       rbind (ra_write (b_data b) (unat (b_write_index b)) str) (\<lambda>d.
         Inr (b\<lparr>b_data := d, b_write_index := b_write_index b + of_nat (length str)\<rparr>)))"

definition Append8 :: "allocator \<Rightarrow> endian \<Rightarrow> buffer \<Rightarrow> 8 word \<Rightarrow> buffer res" where
  "Append8 A e b i = Append A b (mem_bytes e 1 i)"

definition Append16 :: "allocator \<Rightarrow> endian \<Rightarrow> buffer \<Rightarrow> 16 word \<Rightarrow> buffer res" where
  "Append16 A e b i = (let ni = ToNetworkByteOrder16 e i in Append A b (mem_bytes e 2 ni))"

definition Append32 :: "allocator \<Rightarrow> endian \<Rightarrow> buffer \<Rightarrow> 32 word \<Rightarrow> buffer res" where
  "Append32 A e b i = (let ni = ToNetworkByteOrder32 e i in Append A b (mem_bytes e 4 ni))"

definition Append64 :: "allocator \<Rightarrow> endian \<Rightarrow> buffer \<Rightarrow> 64 word \<Rightarrow> buffer res" where
  "Append64 A e b i = (let ni = ToNetworkByteOrder64 e i in Append A b (mem_bytes e 8 ni))"

definition Prepend :: "buffer \<Rightarrow> bytes \<Rightarrow> buffer res" where
  "Prepend b str =
     rbind (assertR (BUFFER_PREFIX_SIZE \<le> b_read_index b)) (\<lambda>_.
     rbind (assertR (of_nat (length str) \<le> b_read_index b)) (\<lambda>_.
       let b = b\<lparr>b_read_index := b_read_index b - of_nat (length str)\<rparr> in
       rbind (ra_write (b_data b) (unat (b_read_index b)) str) (\<lambda>d. Inr (b\<lparr>b_data := d\<rparr>))))"

definition Prepend8 :: "endian \<Rightarrow> buffer \<Rightarrow> 8 word \<Rightarrow> buffer res" where
  "Prepend8 e b i = Prepend b (mem_bytes e 1 i)"

definition Prepend16 :: "endian \<Rightarrow> buffer \<Rightarrow> 16 word \<Rightarrow> buffer res" where
  "Prepend16 e b i = (let ni = ToNetworkByteOrder16 e i in Prepend b (mem_bytes e 2 ni))"

definition Prepend32 :: "endian \<Rightarrow> buffer \<Rightarrow> 32 word \<Rightarrow> buffer res" where
  "Prepend32 e b i = (let ni = ToNetworkByteOrder32 e i in Prepend b (mem_bytes e 4 ni))"

definition Prepend64 :: "endian \<Rightarrow> buffer \<Rightarrow> 64 word \<Rightarrow> buffer res" where
  "Prepend64 e b i = (let ni = ToNetworkByteOrder64 e i in Prepend b (mem_bytes e 8 ni))"

text \<open>\<open>memcpy(&i, GetReadBegin(), n)\<close>.\<close>

definition peek :: "buffer \<Rightarrow> nat \<Rightarrow> bytes res" where
  "peek b n =
     (if n \<le> length (GetReadBegin b) then Inr (take n (GetReadBegin b)) else Inl OutOfBounds)"

definition GetReadBegin8 :: "endian \<Rightarrow> buffer \<Rightarrow> 8 word res" where
  "GetReadBegin8 e b = rbind (peek b 1) (\<lambda>bs. Inr (mem_word e bs))"

definition GetReadBegin16 :: "endian \<Rightarrow> buffer \<Rightarrow> 16 word res" where
  "GetReadBegin16 e b = rbind (peek b 2) (\<lambda>bs. Inr (ToHostByteOrder16 e (mem_word e bs)))"

definition GetReadBegin32 :: "endian \<Rightarrow> buffer \<Rightarrow> 32 word res" where
  "GetReadBegin32 e b = rbind (peek b 4) (\<lambda>bs. Inr (ToHostByteOrder32 e (mem_word e bs)))"

definition GetReadBegin64 :: "endian \<Rightarrow> buffer \<Rightarrow> 64 word res" where
  "GetReadBegin64 e b = rbind (peek b 8) (\<lambda>bs. Inr (ToHostByteOrder64 e (mem_word e bs)))"

definition AdvanceRead :: "buffer \<Rightarrow> usize \<Rightarrow> buffer res" where
  "AdvanceRead b n =
     rbind (assertR (n \<le> GetReadableSize b)) (\<lambda>_.
       if n = GetReadableSize b
       then Inr (b\<lparr>b_read_index := BUFFER_PREFIX_SIZE, b_write_index := BUFFER_PREFIX_SIZE\<rparr>)
       else Inr (b\<lparr>b_read_index := b_read_index b + n\<rparr>))"

definition AdvanceAll :: "buffer \<Rightarrow> buffer res" where
  "AdvanceAll b = AdvanceRead b (GetReadableSize b)"

definition AdvanceRead8 :: "buffer \<Rightarrow> buffer res" where
  "AdvanceRead8 b = AdvanceRead b 1"

definition AdvanceRead16 :: "buffer \<Rightarrow> buffer res" where
  "AdvanceRead16 b = AdvanceRead b 2"

definition AdvanceRead32 :: "buffer \<Rightarrow> buffer res" where
  "AdvanceRead32 b = AdvanceRead b 4"

definition AdvanceRead64 :: "buffer \<Rightarrow> buffer res" where
  "AdvanceRead64 b = AdvanceRead b 8"

definition Read8 :: "endian \<Rightarrow> buffer \<Rightarrow> (8 word \<times> buffer) res" where
  "Read8 e b = rbind (GetReadBegin8 e b) (\<lambda>r. rbind (AdvanceRead8 b) (\<lambda>b. Inr (r, b)))"

definition Read16 :: "endian \<Rightarrow> buffer \<Rightarrow> (16 word \<times> buffer) res" where
  "Read16 e b = rbind (GetReadBegin16 e b) (\<lambda>r. rbind (AdvanceRead16 b) (\<lambda>b. Inr (r, b)))"

definition Read32 :: "endian \<Rightarrow> buffer \<Rightarrow> (32 word \<times> buffer) res" where
  "Read32 e b = rbind (GetReadBegin32 e b) (\<lambda>r. rbind (AdvanceRead32 b) (\<lambda>b. Inr (r, b)))"

definition Read64 :: "endian \<Rightarrow> buffer \<Rightarrow> (64 word \<times> buffer) res" where
  "Read64 e b = rbind (GetReadBegin64 e b) (\<lambda>r. rbind (AdvanceRead64 b) (\<lambda>b. Inr (r, b)))"

definition AdvanceWrite :: "buffer \<Rightarrow> usize \<Rightarrow> buffer res" where
  "AdvanceWrite b n =
     rbind (assertR (n \<le> GetWritableSize b)) (\<lambda>_.
       Inr (b\<lparr>b_write_index := b_write_index b + n\<rparr>))"

definition SetWriteIndex :: "buffer \<Rightarrow> usize \<Rightarrow> buffer res" where
  "SetWriteIndex b n =
     rbind (assertR (b_read_index b \<le> n \<and> n \<le> GetCapacity b)) (\<lambda>_.
       Inr (b\<lparr>b_write_index := n\<rparr>))"

definition RetrieveAsString :: "buffer \<Rightarrow> usize \<Rightarrow> (bytes \<times> buffer) res" where
  "RetrieveAsString b len =
     rbind (assertR (len \<le> GetReadableSize b)) (\<lambda>_.
     rbind (peek b (unat len)) (\<lambda>str.
     rbind (AdvanceRead b len) (\<lambda>b. Inr (str, b))))"

definition RetrieveAllAsString :: "buffer \<Rightarrow> (bytes \<times> buffer) res" where
  "RetrieveAllAsString b = RetrieveAsString b (GetReadableSize b)"

definition RetrieveAsVector :: "buffer \<Rightarrow> usize \<Rightarrow> (bytes \<times> buffer) res" where
  "RetrieveAsVector b len =
     rbind (assertR (len \<le> GetReadableSize b)) (\<lambda>_.
     rbind (peek b (unat len)) (\<lambda>arr.
     rbind (AdvanceRead b len) (\<lambda>b. Inr (arr, b))))"

definition RetrieveAllAsVector :: "buffer \<Rightarrow> (bytes \<times> buffer) res" where
  "RetrieveAllAsVector b = RetrieveAsVector b (GetReadableSize b)"

text \<open>\<open>FindCrLf(StringView&)\<close> and \<open>FindLf(StringView&)\<close>: the found line, or \<open>None\<close> for
  \<open>false\<close>. The string versions also consume the line.\<close>

definition find_line :: "bytes \<Rightarrow> buffer \<Rightarrow> string_view option res" where
  "find_line delim b =
     (let tmp = ToStringView b in
      rbind (StringView_cstr (delim @ [0])) (\<lambda>d.
      rbind (sv_find tmp d 0) (\<lambda>idx.
        Inr (if idx = - 1 then None else Some (sv_substr tmp 0 idx)))))"

definition FindCrLf :: "buffer \<Rightarrow> string_view option res" where
  "FindCrLf b = find_line [13, 10] b"

definition FindLf :: "buffer \<Rightarrow> string_view option res" where
  "FindLf b = find_line [10] b"

definition take_line :: "string_view option res \<Rightarrow> buffer \<Rightarrow> (bytes option \<times> buffer) res" where
  "take_line found b =
     rbind found (\<lambda>r. case r of
         None \<Rightarrow> Inr (None, b)
       | Some tmp \<Rightarrow> rbind (AdvanceRead b (sv_len tmp)) (\<lambda>b. Inr (Some (sv_ToString tmp), b)))"

definition FindCrLf_string :: "buffer \<Rightarrow> (bytes option \<times> buffer) res" where
  "FindCrLf_string b = take_line (FindCrLf b) b"

definition FindLf_string :: "buffer \<Rightarrow> (bytes option \<times> buffer) res" where
  "FindLf_string b = take_line (FindLf b) b"

definition Shrink :: "allocator \<Rightarrow> buffer \<Rightarrow> usize \<Rightarrow> buffer res" where
  "Shrink A b n =
     rbind (if b_read_index b \<noteq> BUFFER_PREFIX_SIZE
            then copy_within (b_data b) (b_read_index b) (b_write_index b) BUFFER_PREFIX_SIZE
            else Inr (b_data b)) (\<lambda>d.
     rbind (if b_read_index b = b_write_index b
            then assertR (b_read_index b = BUFFER_PREFIX_SIZE) else Inr ()) (\<lambda>_.
     rbind (ra_Shrink A d (GetReadableSize b + n)) (\<lambda>d. Inr (b\<lparr>b_data := d\<rparr>))))"

definition Buffer_swap :: "buffer \<Rightarrow> buffer \<Rightarrow> buffer \<times> buffer" where
  "Buffer_swap a b =
     (let ds = ra_swap (b_data a) (b_data b) in
      (a\<lparr>b_write_index := b_write_index b, b_read_index := b_read_index b, b_data := fst ds\<rparr>,
       b\<lparr>b_write_index := b_write_index a, b_read_index := b_read_index a, b_data := snd ds\<rparr>))"

text \<open>Reading from a file descriptor. The outcome of \<open>readv\<close> is a parameter: the error number,
  or the bytes scattered over the writable region and the stack buffer.\<close>

datatype io_result = IoError int | IoBytes bytes

definition readv_limit :: "buffer \<Rightarrow> nat" where
  "readv_limit b =
     unat (GetWritableSize b) + (if unat (GetWritableSize b) < 65536 then 65536 else 0)"

definition BufferReadFromFd ::
  "allocator \<Rightarrow> io_result \<Rightarrow> buffer \<Rightarrow> (usize \<times> int option \<times> buffer) res" where
  "BufferReadFromFd A r b =
     (let cache_writable_size = GetWritableSize b in
      case r of
        IoError err \<Rightarrow> Inr (- 1, Some err, b)
      | IoBytes xs \<Rightarrow>
          let readen_bytes = of_nat (length xs);
              here = take (unat cache_writable_size) xs in
          rbind (ra_write (b_data b) (unat (b_write_index b)) here) (\<lambda>d.
          let b = b\<lparr>b_data := d\<rparr> in
          if readen_bytes \<le> cache_writable_size then
            rbind (AdvanceWrite b readen_bytes) (\<lambda>b. Inr (readen_bytes, None, b))
          else
            rbind (SetWriteIndex b (GetCapacity b)) (\<lambda>b.
            rbind (Append A b (drop (unat cache_writable_size) xs)) (\<lambda>b.
              Inr (readen_bytes, None, b)))))"

section \<open>Invariant and contents\<close>

definition buf_ok :: "buffer \<Rightarrow> bool" where
  "buf_ok b \<longleftrightarrow> ra_wf (b_data b) \<and> b_read_index b \<le> b_write_index b \<and>
     unat (b_write_index b) \<le> length (ra_bytes (b_data b)) \<and> 8 \<le> length (ra_bytes (b_data b))"

text \<open>The prefix is still free: nothing has been prepended since the last reset.\<close>

definition buf_std :: "buffer \<Rightarrow> bool" where
  "buf_std b \<longleftrightarrow> buf_ok b \<and> 8 \<le> b_read_index b"

definition buf_content :: "buffer \<Rightarrow> bytes" where
  "buf_content b = seg (unat (b_read_index b)) (unat (b_write_index b)) (ra_bytes (b_data b))"

named_theorems buf_simps \<open>sizes and contents of a well-formed buffer\<close>

lemma buf_okD:
  assumes "buf_ok b"
  shows "unat (b_read_index b) \<le> unat (b_write_index b)"
    and "unat (b_write_index b) \<le> length (ra_bytes (b_data b))"
    and "8 \<le> length (ra_bytes (b_data b))"
    and "length (ra_bytes (b_data b)) < 2 ^ 63"
    and "ra_wf (b_data b)"
  using assms by (simp_all add: buf_ok_def word_le_nat_alt ra_wf_def)

lemma unat_GetReadableSize [buf_simps]:
  "buf_ok b \<Longrightarrow> unat (GetReadableSize b) = unat (b_write_index b) - unat (b_read_index b)"
  by (simp add: GetReadableSize_def buf_ok_def unat_sub_usize)

lemma unat_GetWritableSize [buf_simps]:
  "buf_ok b \<Longrightarrow>
   unat (GetWritableSize b) = length (ra_bytes (b_data b)) - unat (b_write_index b)"
  by (simp add: GetWritableSize_def buf_ok_def unat_ra_size unat_sub_usize word_le_nat_alt)

lemma length_buf_content [buf_simps]:
  "buf_ok b \<Longrightarrow> length (buf_content b) = unat (GetReadableSize b)"
  by (simp add: buf_content_def buf_okD unat_GetReadableSize)

lemma buf_content_eq_take:
  "buf_ok b \<Longrightarrow> buf_content b = take (unat (GetReadableSize b)) (GetReadBegin b)"
  by (simp add: buf_content_def seg_def GetReadBegin_def unat_GetReadableSize)

lemma HasReadable_iff: "buf_ok b \<Longrightarrow> HasReadable b \<longleftrightarrow> buf_content b \<noteq> []"
  using length_buf_content [of b] buf_okD(1) [of b]
  by (auto simp: HasReadable_def unat_GetReadableSize word_unat_eq_iff simp flip: length_0_conv)

subsection \<open>Construction\<close>

lemma Buffer_ok:
  assumes "Buffer A n = Inr b" "unat n < 2 ^ 63"
  shows "buf_std b" and "buf_content b = []" and "unat (GetWritableSize b) = unat n"
proof -
  obtain d where d: "ra_Grow A ReservedArray (8 + n) = Inr d"
    and b: "b = \<lparr>b_read_index = 8, b_write_index = 8, b_data = d\<rparr>"
    using assms(1) by (auto simp: Buffer_def Let_def)
  have n: "unat (8 + n) = 8 + unat n"
    using assms(2) by (simp add: unat_add_usize)
  have wf: "ra_wf ReservedArray" "ra_bytes ReservedArray = []"
    by (simp_all add: ra_wf_def ReservedArray_def ra_bytes_def)
  have "ra_wf d" "length (ra_bytes d) = 8 + unat n"
    using ra_Grow_Inr [OF d wf(1)] wf(2) n by simp_all
  then have ok: "buf_ok b" by (simp add: b buf_ok_def)
  then show "buf_std b" by (simp add: buf_std_def b)
  show "buf_content b = []" by (simp add: b buf_content_def)
  show "unat (GetWritableSize b) = unat n"
    using ok \<open>length (ra_bytes d) = _\<close> by (simp add: unat_GetWritableSize b)
qed

subsection \<open>Reserving space\<close>

text \<open>The test for the move branch, \<open>len > GetPrependableSize() - 8 + GetWritableSize()\<close>, in
  arithmetic without wrap-around. With fewer than 8 bytes of prepend and
  writable space together the sum wraps and the test is false.\<close>

lemma reserve_test:
  assumes "buf_ok b" "unat len < 2 ^ 63"
  shows "GetPrependableSize b - 8 + GetWritableSize b < len \<longleftrightarrow>
    8 \<le> unat (b_read_index b) + unat (GetWritableSize b) \<and>
    unat (b_read_index b) + unat (GetWritableSize b) < unat len + 8"
proof -
  let ?P = "unat (b_read_index b)" and ?W = "unat (GetWritableSize b)"
  have bound: "?P + ?W < 2 ^ 63"
    using buf_okD [OF assms(1)] by (simp add: unat_GetWritableSize [OF assms(1)])
  have sub: "unat (b_read_index b - 8) = (if 8 \<le> ?P then ?P - 8 else ?P + 2 ^ 64 - 8)"
    by (simp add: unat_sub_if')
  have "unat (GetPrependableSize b - 8 + GetWritableSize b) =
      (unat (b_read_index b - 8) + ?W) mod 2 ^ 64"
    by (simp add: GetPrependableSize_def unat_word_ariths)
  also have "\<dots> = (if 8 \<le> ?P + ?W then ?P + ?W - 8 else ?P + ?W + 2 ^ 64 - 8)"
  proof (cases "8 \<le> ?P")
    case True
    then show ?thesis using bound by (simp add: sub)
  next
    case False
    show ?thesis
    proof (cases "8 \<le> ?P + ?W")
      case True
      then have "?P + 2 ^ 64 - 8 + ?W = (?P + ?W - 8) + 2 ^ 64" by simp
      then have "(?P + 2 ^ 64 - 8 + ?W) mod 2 ^ 64 = ?P + ?W - 8"
        using bound by (simp only: mod_add_self2) simp
      then show ?thesis using True False by (simp only: sub if_True if_False)
    next
      case F: False
      then have "?P + 2 ^ 64 - 8 + ?W = ?P + ?W + 2 ^ 64 - 8" "?P + ?W + 2 ^ 64 - 8 < 2 ^ 64"
        by simp_all
      then show ?thesis using F False by (simp add: sub)
    qed
  qed
  finally show ?thesis
    using assms(2) by (auto simp: word_less_nat_alt split: if_splits)
qed

lemma copy_within_ok:
  assumes "unat f \<le> unat l" "unat l \<le> length (ra_bytes a)"
    and "unat t + (unat l - unat f) \<le> length (ra_bytes a)" "ra_wf a"
  shows "\<exists>a'. copy_within a f l t = Inr a' \<and> ra_wf a' \<and>
    ra_bytes a' = put_at (unat t) (seg (unat f) (unat l) (ra_bytes a)) (ra_bytes a)"
proof -
  have len: "length (seg (unat f) (unat l) (ra_bytes a)) = unat l - unat f" using assms by simp
  then obtain a' where a': "ra_write a (unat t) (seg (unat f) (unat l) (ra_bytes a)) = Inr a'"
      "ra_bytes a' = put_at (unat t) (seg (unat f) (unat l) (ra_bytes a)) (ra_bytes a)"
    using ra_write_Inr [of "unat t" "seg (unat f) (unat l) (ra_bytes a)" a] assms(3) by auto
  then show ?thesis
    using assms len by (auto simp: copy_within_def ra_wf_def)
qed

text \<open>Room that the code can find: enough writable space, or at least 8 bytes of prepend and
  writable space together.\<close>

definition can_reserve :: "buffer \<Rightarrow> usize \<Rightarrow> bool" where
  "can_reserve b len \<longleftrightarrow>
     len \<le> GetWritableSize b \<or> 8 \<le> unat (b_read_index b) + unat (GetWritableSize b)"

definition reserved :: "buffer \<Rightarrow> usize \<Rightarrow> buffer \<Rightarrow> bool" where
  "reserved b len b' \<longleftrightarrow> buf_ok b' \<and> buf_content b' = buf_content b \<and>
     len \<le> GetWritableSize b' \<and> (buf_std b \<longrightarrow> buf_std b')"

lemma reserve_grow:
  assumes b: "buf_ok b" and len: "unat len < 2 ^ 63" and full: "\<not> len \<le> GetWritableSize b"
    and d: "ra_Grow A (b_data b) (b_write_index b + len) = Inr d"
  shows "reserved b len (b\<lparr>b_data := d\<rparr>)"
proof -
  note D = buf_okD [OF b]
  have w: "unat (b_write_index b + len) = unat (b_write_index b) + unat len"
    using D len by (intro unat_add_usize) simp
  have more: "length (ra_bytes (b_data b)) < unat (b_write_index b) + unat len"
    using full D by (simp add: word_le_nat_alt unat_GetWritableSize [OF b])
  have d1: "ra_wf d" "length (ra_bytes d) = unat (b_write_index b) + unat len"
    "take (length (ra_bytes (b_data b))) (ra_bytes d) = ra_bytes (b_data b)"
    using ra_Grow_Inr [OF d D(5)] more w by simp_all
  let ?b = "b\<lparr>b_data := d\<rparr>"
  have ok: "buf_ok ?b"
    using b d1 more D by (simp add: buf_ok_def)
  have "buf_content ?b = buf_content b"
    using d1(3) D(2) seg_take [OF D(2), of "unat (b_read_index b)" "ra_bytes d"]
    by (simp add: buf_content_def)
  moreover have "len \<le> GetWritableSize ?b"
    by (simp add: word_le_nat_alt unat_GetWritableSize [OF ok] d1)
  ultimately show ?thesis using ok by (simp add: reserved_def buf_std_def)
qed

lemma reserve_move:
  assumes b: "buf_ok b" and len: "unat len < 2 ^ 63"
    and room: "unat len + 8 \<le> unat (b_read_index b) + unat (GetWritableSize b)"
  shows "\<exists>d. copy_within (b_data b) (b_read_index b) (b_write_index b) 8 = Inr d \<and>
    reserved b len
      (b\<lparr>b_data := d, b_read_index := 8, b_write_index := 8 + GetReadableSize b\<rparr>)"
proof -
  note D = buf_okD [OF b]
  let ?R = "unat (GetReadableSize b)" and ?n = "length (ra_bytes (b_data b))"
  have fit: "8 + ?R + unat len \<le> ?n"
    using room D by (simp add: unat_GetWritableSize [OF b] unat_GetReadableSize [OF b])
  have fit8: "unat (8 :: usize) + (unat (b_write_index b) - unat (b_read_index b)) \<le> ?n"
    using fit by (simp add: unat_GetReadableSize [OF b])
  obtain d where d: "copy_within (b_data b) (b_read_index b) (b_write_index b) 8 = Inr d"
      "ra_wf d" "ra_bytes d = put_at 8 (buf_content b) (ra_bytes (b_data b))"
    using copy_within_ok [OF D(1,2) fit8 D(5)] by (auto simp: buf_content_def)
  let ?b = "b\<lparr>b_data := d, b_read_index := 8, b_write_index := 8 + GetReadableSize b\<rparr>"
  have lc: "length (buf_content b) = ?R" by (rule length_buf_content [OF b])
  have n: "length (ra_bytes d) = ?n" using d(3) lc fit by simp
  have w: "unat (8 + GetReadableSize b) = 8 + ?R"
    using fit D by (subst unat_add_usize) simp_all
  have ok: "buf_ok ?b"
    using d(2) n w fit by (simp add: buf_ok_def word_le_nat_alt)
  have "buf_content ?b = buf_content b"
    using seg_put_at_self [of 8 "buf_content b" "ra_bytes (b_data b)"] fit lc d(3) w
    by (simp add: buf_content_def)
  moreover have "len \<le> GetWritableSize ?b"
    using fit by (simp add: word_le_nat_alt unat_GetWritableSize [OF ok] n w)
  ultimately have "reserved b len ?b" using ok by (simp add: reserved_def buf_std_def)
  with d(1) show ?thesis by blast
qed

lemma ReserveWriteSpace_cases:
  assumes b: "buf_ok b" and len: "unat len < 2 ^ 63" and room: "can_reserve b len"
  shows "ReserveWriteSpace A b len = Inl Terminate \<or>
    (\<exists>b'. ReserveWriteSpace A b len = Inr b' \<and> reserved b len b')"
proof (cases "len \<le> GetWritableSize b")
  case True
  then have "reserved b len b" using b by (simp add: reserved_def)
  then show ?thesis using True by (simp add: ReserveWriteSpace_def)
next
  case full: False
  show ?thesis
  proof (cases "GetPrependableSize b - 8 + GetWritableSize b < len")
    case True
    show ?thesis
    proof (cases "ra_Grow A (b_data b) (b_write_index b + len)")
      case (Inl err)
      then show ?thesis
        using full True ra_Grow_Inl [OF Inl] by (simp add: ReserveWriteSpace_def)
    next
      case (Inr d)
      from reserve_grow [OF b len full Inr] show ?thesis
        using full True Inr by (simp add: ReserveWriteSpace_def reserved_def)
    qed
  next
    case False
    then have "unat len + 8 \<le> unat (b_read_index b) + unat (GetWritableSize b)"
      using reserve_test [OF b len] room full by (auto simp: can_reserve_def)
    from reserve_move [OF b len this] obtain d where
      d: "copy_within (b_data b) (b_read_index b) (b_write_index b) 8 = Inr d" and
      r: "reserved b len
        (b\<lparr>b_data := d, b_read_index := 8, b_write_index := 8 + GetReadableSize b\<rparr>)" by blast
    show ?thesis
      using full False d r
      by (simp add: ReserveWriteSpace_def Let_def reserved_def GetReadableSize_def)
  qed
qed

text \<open>Without that room the move branch is taken by wrap-around and writes past the array.\<close>

lemma ReserveWriteSpace_overflow:
  assumes b: "buf_ok b" and len: "unat len < 2 ^ 63" and room: "\<not> can_reserve b len"
  shows "ReserveWriteSpace A b len = Inl OutOfBounds"
proof -
  note D = buf_okD [OF b]
  have full: "\<not> len \<le> GetWritableSize b"
    and few: "unat (b_read_index b) + unat (GetWritableSize b) < 8"
    using room by (simp_all add: can_reserve_def)
  have "\<not> GetPrependableSize b - 8 + GetWritableSize b < len"
    using reserve_test [OF b len] few by simp
  moreover have "copy_within (b_data b) (b_read_index b) (b_write_index b) 8 = Inl OutOfBounds"
    using few D by (simp add: copy_within_def ra_write_def unat_GetWritableSize [OF b])
  ultimately show ?thesis
    using full by (simp add: ReserveWriteSpace_def)
qed

subsection \<open>The operations on the contents\<close>

lemma Append_cases:
  assumes b: "buf_ok b" and len: "length str < 2 ^ 63"
    and room: "can_reserve b (of_nat (length str))"
  shows "Append A b str = Inl Terminate \<or>
    (\<exists>b'. Append A b str = Inr b' \<and> buf_ok b' \<and> (buf_std b \<longrightarrow> buf_std b') \<and>
       buf_content b' = buf_content b @ str)"
proof -
  let ?len = "of_nat (length str) :: usize"
  have ul: "unat ?len = length str" using len by (simp add: idx_simps)
  consider "ReserveWriteSpace A b ?len = Inl Terminate"
    | b1 where "ReserveWriteSpace A b ?len = Inr b1" "reserved b ?len b1"
    using ReserveWriteSpace_cases [OF b _ room] len ul by auto
  then show ?thesis
  proof cases
    case 1
    then show ?thesis by (simp add: Append_def)
  next
    case 2
    then have ok: "buf_ok b1" and c: "buf_content b1 = buf_content b"
      and std: "buf_std b \<longrightarrow> buf_std b1" and w: "length str \<le> unat (GetWritableSize b1)"
      using ul by (auto simp: reserved_def word_le_nat_alt)
    note D = buf_okD [OF ok]
    have fit: "unat (b_write_index b1) + length str \<le> length (ra_bytes (b_data b1))"
      using w D by (simp add: unat_GetWritableSize [OF ok])
    then obtain d where d: "ra_write (b_data b1) (unat (b_write_index b1)) str = Inr d"
        "ra_bytes d = put_at (unat (b_write_index b1)) str (ra_bytes (b_data b1))"
      using ra_write_Inr by blast
    have uw: "unat (b_write_index b1 + ?len) = unat (b_write_index b1) + length str"
      using fit D ul by (subst unat_add_usize) simp_all
    let ?b = "b1\<lparr>b_data := d, b_write_index := b_write_index b1 + ?len\<rparr>"
    have okb: "buf_ok ?b"
      using D fit d(2) uw by (simp add: buf_ok_def ra_wf_def word_le_nat_alt)
    moreover have "buf_content ?b = buf_content b @ str"
      using seg_put_at_extend [OF D(1) fit] c uw d(2) by (simp add: buf_content_def)
    ultimately show ?thesis
      using 2 d(1) std by (auto simp: Append_def buf_std_def)
  qed
qed

lemma buf_std_can_reserve: "buf_std b \<Longrightarrow> can_reserve b len"
  by (auto simp: buf_std_def can_reserve_def word_le_nat_alt)

lemma AdvanceRead_ok:
  assumes b: "buf_ok b" and n: "unat n \<le> length (buf_content b)"
  shows "\<exists>b'. AdvanceRead b n = Inr b' \<and> buf_ok b' \<and> (buf_std b \<longrightarrow> buf_std b') \<and>
    buf_content b' = drop (unat n) (buf_content b)"
proof -
  note D = buf_okD [OF b]
  have le: "n \<le> GetReadableSize b"
    using n by (simp add: length_buf_content [OF b] word_le_nat_alt)
  show ?thesis
  proof (cases "n = GetReadableSize b")
    case True
    then show ?thesis
      using D le length_buf_content [OF b]
      by (simp add: AdvanceRead_def buf_ok_def buf_std_def buf_content_def)
  next
    case False
    have r: "unat (b_read_index b) + unat n \<le> unat (b_write_index b)"
      using n D by (simp add: length_buf_content [OF b] unat_GetReadableSize [OF b])
    then have ur: "unat (b_read_index b + n) = unat (b_read_index b) + unat n"
      using D by (intro unat_add_usize) simp
    show ?thesis
      using False le r ur D
      by (auto simp: AdvanceRead_def buf_ok_def buf_std_def buf_content_def seg_drop word_le_nat_alt)
  qed
qed

lemma AdvanceRead_fail:
  "buf_ok b \<Longrightarrow> length (buf_content b) < unat n \<Longrightarrow> AdvanceRead b n = Inl AssertFail"
  by (simp add: AdvanceRead_def length_buf_content word_le_nat_alt)

lemma Prepend_ok:
  assumes b: "buf_std b" and len: "of_nat (length str) \<le> b_read_index b" "length str < 2 ^ 63"
  shows "\<exists>b'. Prepend b str = Inr b' \<and> buf_ok b' \<and> buf_content b' = str @ buf_content b"
proof -
  have ok: "buf_ok b" and r8: "8 \<le> b_read_index b" using b by (simp_all add: buf_std_def)
  note D = buf_okD [OF ok]
  let ?r = "b_read_index b - of_nat (length str)"
  have ul: "unat (of_nat (length str) :: usize) = length str" using len by (simp add: idx_simps)
  have ur: "unat ?r + length str = unat (b_read_index b)"
    using len(1) ul by (simp add: unat_sub_usize word_le_nat_alt)
  have fit: "unat ?r + length str \<le> length (ra_bytes (b_data b))" using ur D by simp
  then obtain d where d: "ra_write (b_data b) (unat ?r) str = Inr d"
      "ra_bytes d = put_at (unat ?r) str (ra_bytes (b_data b))"
    using ra_write_Inr by blast
  let ?b = "b\<lparr>b_read_index := ?r, b_data := d\<rparr>"
  have "buf_ok ?b"
    using D ur d(2) fit by (simp add: buf_ok_def ra_wf_def word_le_nat_alt)
  moreover have "buf_content ?b = str @ buf_content b"
  proof -
    have "seg (unat ?r) (unat (b_write_index b)) (ra_bytes d)
      = seg (unat ?r) (unat ?r + length str) (ra_bytes d)
        @ seg (unat ?r + length str) (unat (b_write_index b)) (ra_bytes d)"
      using ur D by (intro seg_split) simp_all
    then show ?thesis
      using seg_put_at_self [OF fit] seg_put_at_after [OF order.refl fit] d(2) ur
      by (simp add: buf_content_def)
  qed
  ultimately show ?thesis
    using r8 len d(1) by (auto simp: Prepend_def Let_def)
qed

lemma peek_ok:
  assumes "buf_ok b" "n \<le> length (buf_content b)"
  shows "peek b n = Inr (take n (buf_content b))"
proof -
  have "n \<le> unat (GetReadableSize b)" using assms by (simp add: length_buf_content)
  moreover have "unat (GetReadableSize b) \<le> length (GetReadBegin b)"
    using buf_okD [OF assms(1)] by (simp add: GetReadBegin_def unat_GetReadableSize [OF assms(1)])
  ultimately show ?thesis
    by (simp add: peek_def buf_content_eq_take [OF assms(1)] min_def)
qed

section \<open>The buffer as a byte queue\<close>

text \<open>\<open>AdvanceRead\<close> with its count as a natural number.\<close>

abbreviation (input) buf_advance :: "buffer \<Rightarrow> nat \<Rightarrow> buffer res" where
  "buf_advance b n \<equiv> AdvanceRead b (of_nat n)"

interpretation buf_queue: checked_byte_queue buf_std buf_content "Append A" buf_advance
    "\<lambda>xs. length xs < 2 ^ 63" "\<lambda>e. e = Terminate"
  for A
proof
  fix b b' :: buffer and str n err
  assume std: "buf_std b"
  then have ok: "buf_ok b" by (simp add: buf_std_def)
  have small: "length (buf_content b) < 2 ^ 63"
    using buf_okD [OF ok] by (simp add: length_buf_content [OF ok] unat_GetReadableSize [OF ok])
  note app = Append_cases [OF ok _ buf_std_can_reserve [OF std], of str A]
  show "buf_std b' \<and> buf_content b' = buf_content b @ str"
    if "length str < 2 ^ 63" "Append A b str = Inr b'"
    using app that std by auto
  show "err = Terminate" if "length str < 2 ^ 63" "Append A b str = Inl err"
    using app that by auto
  show "\<exists>s'. buf_advance b n = Inr s' \<and> buf_std s' \<and> buf_content s' = drop n (buf_content b)"
    if "n \<le> length (buf_content b)"
    using AdvanceRead_ok [OF ok, of "of_nat n"] that small std by (auto simp: unat_of_nat_usize)
  show "buf_advance b n = Inl AssertFail" if "length (buf_content b) < n" "n < 2 ^ 63"
    using AdvanceRead_fail [OF ok, of "of_nat n"] that by (simp add: unat_of_nat_usize)
qed

text \<open>C2. Every sequence of appends and reads on a \<open>Buffer\<close> whose prefix is free behaves like the
  same sequence on a plain byte list, whatever moves and reallocations happen inside: it ends in
  a well-formed buffer with the list's contents, or the program is terminated because memory
  ran out while growing.\<close>

theorem Buffer_refines_byte_list:
  assumes "buf_std b" "\<forall>c\<in>set cs. fits (\<lambda>xs. length xs < 2 ^ 63) c" "queue_run cs (buf_content b) = Some q"
  shows "(\<exists>b'. impl_run (Append A) (\<lambda>b n. AdvanceRead b (of_nat n)) cs b = Inr b' \<and>
            buf_std b' \<and> buf_content b' = q) \<or>
         impl_run (Append A) (\<lambda>b n. AdvanceRead b (of_nat n)) cs b = Inl Terminate"
  using buf_queue.run_refines [OF assms, of A] by auto

text \<open>A buffer of 4 writable bytes on an allocator that never fails.\<close>

definition demo_alloc :: allocator where
  "demo_alloc = \<lparr>mem_ok = (\<lambda>_. True), mem_fresh = (\<lambda>_. 0)\<rparr>"

definition demo_buffer :: buffer where
  "demo_buffer = \<lparr>b_read_index = 8, b_write_index = 8, b_data = \<lparr>ra_data = Some (replicate 12 0)\<rparr>\<rparr>"

lemma demo_buffer_std: "buf_std demo_buffer" "buf_content demo_buffer = []"
  by (simp_all add: demo_buffer_def buf_std_def buf_ok_def ra_wf_def ra_bytes_def buf_content_def)

theorem Buffer_refines_byte_list_witness:
  "let cs = [QAppend [1, 2, 3], QAdvance 2, QAppend [4, 5, 6], QAdvance 1] in
   buf_std demo_buffer \<and> (\<forall>c\<in>set cs. fits (\<lambda>xs. length xs < 2 ^ 63) c) \<and>
   queue_run cs (buf_content demo_buffer) = Some [4, 5, 6] \<and>
   (\<exists>b'. impl_run (Append demo_alloc) (\<lambda>b n. AdvanceRead b (of_nat n)) cs demo_buffer = Inr b' \<and>
      buf_std b' \<and> buf_content b' = [4, 5, 6])"
proof -
  let ?cs = "[QAppend [1, 2, 3], QAdvance 2, QAppend [4, 5, 6], QAdvance 1]"
  have h: "buf_std demo_buffer" "\<forall>c\<in>set ?cs. fits (\<lambda>xs. length xs < 2 ^ 63) c"
    "queue_run ?cs (buf_content demo_buffer) = Some [4, 5, 6]"
    by (simp_all add: demo_buffer_std)
  moreover have "impl_run (Append demo_alloc) (\<lambda>b n. AdvanceRead b (of_nat n)) ?cs demo_buffer
      \<noteq> Inl Terminate"
    by code_simp
  ultimately show ?thesis using Buffer_refines_byte_list [OF h, of demo_alloc] by auto
qed

lemma ra_Grow_refused:
  assumes "ra_wf a" "length (ra_bytes a) < unat n"
  shows "(\<exists>d. ra_Grow A a n = Inr d) \<longleftrightarrow> mem_granted A n"
proof -
  have "\<not> n \<le> ra_size a" "n \<noteq> 0" using assms by (auto simp: word_le_nat_alt unat_ra_size)
  then show ?thesis by (auto simp: ra_Grow_def ra_Reallocate_def libc_realloc_def libc_malloc_def split: option.splits)
qed

text \<open>C18. The outcome of \<open>ReserveWriteSpace\<close> for less than 2^63 bytes on every well-formed buffer. With enough writable space nothing
  happens. Otherwise, when the prepend and the writable region together have less than 8 bytes, which is possible once something has
  been prepended, it writes past the end of the array: the unsigned expression
  \<open>GetPrependableSize() - BUFFER_PREFIX_SIZE + GetWritableSize()\<close> wraps around. Otherwise, when the two regions without the 8
  bytes are too small, it enlarges the array to the write index plus the requested length and keeps both indices, or terminates
  exactly when this much memory is refused; and when they are large enough it moves the contents to index 8 of the same array. When it
  returns, the buffer is well-formed, its contents are the same and the space is there.\<close>

theorem ReserveWriteSpace_outcome:
  assumes "buf_ok b" "unat len < 2 ^ 63"
  defines "spare \<equiv> unat (b_read_index b) + unat (GetWritableSize b)"
  shows "if len \<le> GetWritableSize b then ReserveWriteSpace A b len = Inr b
    else if spare < 8 then ReserveWriteSpace A b len = Inl OutOfBounds
    else if spare < unat len + 8 \<and> \<not> mem_granted A (b_write_index b + len) then ReserveWriteSpace A b len = Inl Terminate
    else \<exists>b'. ReserveWriteSpace A b len = Inr b' \<and> buf_ok b' \<and> buf_content b' = buf_content b \<and> len \<le> GetWritableSize b' \<and>
      (if spare < unat len + 8
       then b_read_index b' = b_read_index b \<and> length (ra_bytes (b_data b')) = unat (b_write_index b) + unat len
       else b_read_index b' = 8 \<and> length (ra_bytes (b_data b')) = length (ra_bytes (b_data b)))"
proof -
  note D = buf_okD [OF assms(1)]
  consider "len \<le> GetWritableSize b" | "\<not> len \<le> GetWritableSize b" "spare < 8"
    | "\<not> len \<le> GetWritableSize b" "8 \<le> spare" "spare < unat len + 8" | "\<not> len \<le> GetWritableSize b" "unat len + 8 \<le> spare"
    by linarith
  then show ?thesis
  proof cases
    case 1
    then show ?thesis by (simp add: ReserveWriteSpace_def)
  next
    case 2
    then show ?thesis using ReserveWriteSpace_overflow [OF assms(1,2), of A] by (simp add: can_reserve_def spare_def)
  next
    case 3
    have t: "GetPrependableSize b - 8 + GetWritableSize b < len"
      using reserve_test [OF assms(1,2)] 3 by (auto simp: spare_def)
    have w: "unat (b_write_index b + len) = unat (b_write_index b) + unat len" using D assms(2) by (intro unat_add_usize) simp
    have more: "length (ra_bytes (b_data b)) < unat (b_write_index b + len)"
      using 3(1) D by (simp add: w word_le_nat_alt unat_GetWritableSize [OF assms(1)])
    show ?thesis
    proof (cases "ra_Grow A (b_data b) (b_write_index b + len)")
      case (Inl err)
      then have "\<not> mem_granted A (b_write_index b + len)" using ra_Grow_refused [OF D(5) more, of A] by simp
      then show ?thesis using 3 t Inl ra_Grow_Inl [OF Inl] by (simp add: ReserveWriteSpace_def)
    next
      case (Inr d)
      then have "mem_granted A (b_write_index b + len)" using ra_Grow_refused [OF D(5) more, of A] by simp
      then show ?thesis
        using 3 t Inr reserve_grow [OF assms(1,2) 3(1) Inr] ra_Grow_Inr(2) [OF Inr D(5)] more w
        by (simp add: ReserveWriteSpace_def reserved_def)
    qed
  next
    case 4
    then have t: "\<not> GetPrependableSize b - 8 + GetWritableSize b < len"
      using reserve_test [OF assms(1,2)] by (auto simp: spare_def)
    from reserve_move [OF assms(1,2) 4(2) [unfolded spare_def]] obtain d where
      d: "copy_within (b_data b) (b_read_index b) (b_write_index b) 8 = Inr d" and
      r: "reserved b len (b\<lparr>b_data := d, b_read_index := 8, b_write_index := 8 + GetReadableSize b\<rparr>)" by blast
    have "length (ra_bytes d) = length (ra_bytes (b_data b))"
      using d by (auto simp: copy_within_def ra_write_def ra_bytes_def split: if_splits option.splits)
    then show ?thesis using 4 t d r by (simp add: ReserveWriteSpace_def Let_def reserved_def GetReadableSize_def)
  qed
qed

text \<open>A full buffer after a 4-byte length header has been prepended.\<close>

definition demo_full :: buffer where
  "demo_full = \<lparr>b_read_index = 4, b_write_index = 12, b_data = \<lparr>ra_data = Some (replicate 12 0)\<rparr>\<rparr>"

theorem ReserveWriteSpace_outcome_witness:
  "buf_ok demo_full \<and> unat (1 :: usize) < 2 ^ 63 \<and>
   GetWritableSize demo_full < 1 \<and> unat (b_read_index demo_full) + unat (GetWritableSize demo_full) < 8 \<and>
   ReserveWriteSpace demo_alloc demo_full 1 = Inl OutOfBounds"
proof -
  have h: "buf_ok demo_full" "unat (1 :: usize) < 2 ^ 63"
    by (simp_all add: demo_full_def buf_ok_def ra_wf_def ra_bytes_def)
  moreover have "GetWritableSize demo_full < 1"
    "unat (b_read_index demo_full) + unat (GetWritableSize demo_full) < 8"
    by (simp_all add: demo_full_def GetWritableSize_def ra_size_def ra_bytes_def)
  ultimately show ?thesis
    using ReserveWriteSpace_outcome [OF h, of demo_alloc] by (simp add: not_le)
qed

section \<open>Integers on the wire\<close>

lemma mem_bytes_8: "mem_bytes e 1 (i :: 8 word) = be_bytes 1 i"
  by (cases e) (simp_all add: mem_bytes_def be_bytes_def)

lemma mem_word_8: "length bs = 1 \<Longrightarrow> (mem_word e bs :: 8 word) = be_word bs"
  by (cases e; cases bs) (simp_all add: mem_word_def be_word_def)

lemma append_int_simps:
  "Append8 A e b i8 = Append A b (be_bytes 1 i8)"
  "Append16 A e b i16 = Append A b (be_bytes 2 i16)"
  "Append32 A e b i32 = Append A b (be_bytes 4 i32)"
  "Append64 A e b i64 = Append A b (be_bytes 8 i64)"
  "Prepend8 e b i8 = Prepend b (be_bytes 1 i8)"
  "Prepend16 e b i16 = Prepend b (be_bytes 2 i16)"
  "Prepend32 e b i32 = Prepend b (be_bytes 4 i32)"
  "Prepend64 e b i64 = Prepend b (be_bytes 8 i64)"
  by (simp_all add: Append8_def Append16_def Append32_def Append64_def Prepend8_def
      Prepend16_def Prepend32_def Prepend64_def mem_bytes_8 wire_simps
      del: One_nat_def)

lemma read_prefix:
  assumes "buf_ok b" "buf_content b = xs @ rest" "length xs < 2 ^ 63"
  shows "\<exists>b'. peek b (length xs) = Inr xs \<and> AdvanceRead b (of_nat (length xs)) = Inr b' \<and>
    buf_ok b' \<and> (buf_std b \<longrightarrow> buf_std b') \<and> buf_content b' = rest"
  using peek_ok [OF assms(1), of "length xs"] AdvanceRead_ok [OF assms(1), of "of_nat (length xs)"]
    assms(2,3) by (auto simp: unat_of_nat_usize)

lemma Read64_ok:
  assumes "buf_ok b" "buf_content b = be_bytes 8 i @ rest"
  shows "\<exists>b'. Read64 e b = Inr (i, b') \<and> buf_ok b' \<and> buf_content b' = rest"
  using read_prefix [OF assms]
  by (auto simp: Read64_def GetReadBegin64_def AdvanceRead64_def wire_simps)

lemma Read32_ok:
  assumes "buf_ok b" "buf_content b = be_bytes 4 i @ rest"
  shows "\<exists>b'. Read32 e b = Inr (i, b') \<and> buf_ok b' \<and> buf_content b' = rest"
  using read_prefix [OF assms]
  by (auto simp: Read32_def GetReadBegin32_def AdvanceRead32_def wire_simps)

lemma Read16_ok:
  assumes "buf_ok b" "buf_content b = be_bytes 2 i @ rest"
  shows "\<exists>b'. Read16 e b = Inr (i, b') \<and> buf_ok b' \<and> buf_content b' = rest"
  using read_prefix [OF assms]
  by (auto simp: Read16_def GetReadBegin16_def AdvanceRead16_def wire_simps)

lemma Read8_ok:
  assumes "buf_ok b" "buf_content b = be_bytes 1 i @ rest"
  shows "\<exists>b'. Read8 e b = Inr (i, b') \<and> buf_ok b' \<and> buf_content b' = rest"
  using read_prefix [OF assms]
  by (auto simp: Read8_def GetReadBegin8_def AdvanceRead8_def mem_word_8 be_word_be_bytes
      simp del: One_nat_def)

lemma Append_Inr:
  assumes "buf_std b" "Append A b xs = Inr b'" "length xs < 2 ^ 63"
  shows "buf_std b' \<and> buf_content b' = buf_content b @ xs"
  using buf_queue.append_Inr [OF assms(1,3,2)] .

text \<open>Integers written by \<open>Append64/32/16/8\<close> on one host are read back unchanged, in order, by
  \<open>Read64/32/16/8\<close> on any host, whatever the byte orders of the two hosts.\<close>

theorem Buffer_integers_roundtrip:
  assumes "buf_std b" "buf_content b = []"
    and "Append64 A e b x = Inr b1" "Append32 A e b1 y = Inr b2"
    and "Append16 A e b2 z = Inr b3" "Append8 A e b3 w = Inr b4"
  shows "\<exists>c1 c2 c3 c4. Read64 e' b4 = Inr (x, c1) \<and> Read32 e' c1 = Inr (y, c2) \<and>
    Read16 e' c2 = Inr (z, c3) \<and> Read8 e' c3 = Inr (w, c4) \<and> buf_content c4 = []"
proof -
  have s1: "buf_std b1 \<and> buf_content b1 = be_bytes 8 x"
    using Append_Inr [OF assms(1)] assms(2,3) by (simp add: append_int_simps)
  then have s2: "buf_std b2 \<and> buf_content b2 = be_bytes 8 x @ be_bytes 4 y"
    using Append_Inr [of b1] assms(4) by (simp add: append_int_simps)
  then have s3: "buf_std b3 \<and> buf_content b3 = be_bytes 8 x @ be_bytes 4 y @ be_bytes 2 z"
    using Append_Inr [of b2] assms(5) by (simp add: append_int_simps)
  then have s4: "buf_std b4" and
    "buf_content b4 = be_bytes 8 x @ be_bytes 4 y @ be_bytes 2 z @ be_bytes 1 w @ []"
    using Append_Inr [of b3] assms(6) by (simp_all add: append_int_simps)
  then obtain c1 where c1: "Read64 e' b4 = Inr (x, c1)" "buf_ok c1"
      "buf_content c1 = be_bytes 4 y @ be_bytes 2 z @ be_bytes 1 w @ []"
    using Read64_ok [of b4] by (auto simp: buf_std_def)
  from Read32_ok [OF c1(2,3), of e'] obtain c2 where c2: "Read32 e' c1 = Inr (y, c2)" "buf_ok c2"
      "buf_content c2 = be_bytes 2 z @ be_bytes 1 w @ []" by blast
  from Read16_ok [OF c2(2,3), of e'] obtain c3 where c3: "Read16 e' c2 = Inr (z, c3)" "buf_ok c3"
      "buf_content c3 = be_bytes 1 w @ []" by blast
  from Read8_ok [OF c3(2,3), of e'] c1 c2 c3 show ?thesis by blast
qed

theorem Buffer_integers_roundtrip_witness:
  "\<exists>b1 b2 b3 b4. buf_std demo_buffer \<and> buf_content demo_buffer = [] \<and>
     Append64 demo_alloc LittleEndian demo_buffer 1000000 = Inr b1 \<and>
     Append32 demo_alloc LittleEndian b1 305419896 = Inr b2 \<and>
     Append16 demo_alloc LittleEndian b2 513 = Inr b3 \<and>
     Append8 demo_alloc LittleEndian b3 7 = Inr b4 \<and>
     (\<exists>c1 c2 c3 c4. Read64 BigEndian b4 = Inr (1000000, c1) \<and>
       Read32 BigEndian c1 = Inr (305419896, c2) \<and> Read16 BigEndian c2 = Inr (513, c3) \<and>
       Read8 BigEndian c3 = Inr (7, c4) \<and> buf_content c4 = [])"
proof -
  have be: "be_bytes 8 (1000000 :: 64 word) = [0, 0, 0, 0, 0, 15, 66, 64]"
    "be_bytes 4 (305419896 :: 32 word) = [18, 52, 86, 120]"
    "be_bytes 2 (513 :: 16 word) = [2, 1]" "be_bytes 1 (7 :: 8 word) = [7]"
    by (simp_all add: be_bytes_def)
  have "rbind (Append64 demo_alloc LittleEndian demo_buffer 1000000) (\<lambda>b.
    rbind (Append32 demo_alloc LittleEndian b 305419896) (\<lambda>b.
    rbind (Append16 demo_alloc LittleEndian b 513) (\<lambda>b.
    rbind (Append8 demo_alloc LittleEndian b 7) (\<lambda>b. Inr ())))) = Inr ()"
    unfolding append_int_simps be by code_simp
  then obtain b1 b2 b3 b4 where
    h: "Append64 demo_alloc LittleEndian demo_buffer 1000000 = Inr b1"
    "Append32 demo_alloc LittleEndian b1 305419896 = Inr b2"
    "Append16 demo_alloc LittleEndian b2 513 = Inr b3"
    "Append8 demo_alloc LittleEndian b3 7 = Inr b4" by (elim rbind_InrE) blast
  with Buffer_integers_roundtrip [OF demo_buffer_std h, of BigEndian] demo_buffer_std
  show ?thesis by blast
qed

section \<open>Lines\<close>

lemma ToStringView_ok:
  assumes "buf_ok b"
  shows "sv_ok (ToStringView b)" and "sv_str (ToStringView b) = buf_content b"
    and "sv_len (ToStringView b) = GetReadableSize b"
proof -
  note D = buf_okD [OF assms]
  show "sv_ok (ToStringView b)"
    using D by (simp add: sv_ok_def ToStringView_def StringView_def GetReadBegin_def
        unat_GetReadableSize [OF assms] diff_le_mono less_imp_diff_less)
  show "sv_str (ToStringView b) = buf_content b"
    using assms by (simp add: sv_str_def ToStringView_def StringView_def buf_content_eq_take)
  show "sv_len (ToStringView b) = GetReadableSize b"
    by (simp add: ToStringView_def StringView_def)
qed

lemma cstr_literal:
  assumes "0 \<notin> set p" "length p < 2 ^ 62"
  obtains v where "StringView_cstr (p @ [0]) = Inr v" "sv_ok v" "sv_str v = p"
    "unat (sv_len v) = length p"
proof
  let ?v = "StringView (p @ [0]) (of_nat (length p))"
  have "takeWhile (\<lambda>c. c \<noteq> 0) (p @ [0]) = p"
    using assms(1) by (subst takeWhile_append2) auto
  then show "StringView_cstr (p @ [0]) = Inr ?v" by (simp add: StringView_cstr_def)
  show "unat (sv_len ?v) = length p"
    using assms(2) by (simp add: StringView_def unat_of_nat_usize)
  then show "sv_ok ?v" "sv_str ?v = p"
    using assms(2) by (simp_all add: sv_ok_def sv_str_def StringView_def)
qed

text \<open>The first line of a text, up to a delimiter.\<close>

definition first_line :: "bytes \<Rightarrow> bytes \<Rightarrow> bytes \<Rightarrow> bool" where
  "first_line delim t l \<longleftrightarrow> (\<exists>rest. t = l @ delim @ rest) \<and>
     (\<forall>k < length l. \<not> occurs_at delim k t)"

lemma find_line_ok:
  assumes b: "buf_ok b" and d: "0 \<notin> set delim" "length delim < 2 ^ 62" "delim \<noteq> []"
  shows "(find_line delim b = Inr None \<and> infix_free delim (buf_content b)) \<or>
    (\<exists>v. find_line delim b = Inr (Some v) \<and> first_line delim (buf_content b) (sv_str v) \<and>
       unat (sv_len v) = length (sv_str v))"
proof -
  let ?s = "ToStringView b" and ?t = "buf_content b"
  note S = ToStringView_ok [OF b]
  from cstr_literal [OF d(1,2)] obtain v where
    v: "StringView_cstr (delim @ [0]) = Inr v" "sv_ok v" "sv_str v = delim" by blast
  obtain k where k: "sv_find ?s v 0 = Inr k"
    and ks: "if k = - 1 then \<forall>j \<ge> unat (0 :: usize). \<not> occurs_at delim j ?t
      else 0 \<le> k \<and> occurs_at delim (unat k) ?t \<and>
        (\<forall>j. unat (0 :: usize) \<le> j \<and> j < unat k \<longrightarrow> \<not> occurs_at delim j ?t)"
    using sv_find_first [OF S(1) v(2), of 0, unfolded v(3) S(2)] d(1) by auto
  show ?thesis
  proof (cases "k = - 1")
    case True
    then show ?thesis using ks k v(1) by (simp add: find_line_def Let_def infix_free_def)
  next
    case False
    then have occ: "occurs_at delim (unat k) ?t" and
      mn: "\<forall>j. j < unat k \<longrightarrow> \<not> occurs_at delim j ?t" using ks by auto
    have fit: "unat k + length delim \<le> length ?t" using occ by (simp add: occurs_at_def)
    let ?l = "take (unat k) ?t"
    have kl: "k \<le> GetReadableSize b"
      using fit by (simp add: word_le_nat_alt length_buf_content [OF b])
    have l: "sv_str (sv_substr ?s 0 k) = ?l"
      using sv_str_substr [of ?s 0 k] S kl by (simp add: seg_def)
    have len: "sv_len (sv_substr ?s 0 k) = k"
      using kl S(3) by (simp add: sv_substr_def StringView_def min_def)
    have "?t = ?l @ delim @ drop (unat k + length delim) ?t"
      using occ by (simp add: occurs_at_def seg_def)
        (metis append_take_drop_id drop_drop add.commute)
    then have "first_line delim ?t ?l" using mn fit by (auto simp: first_line_def)
    then show ?thesis
      using False k v(1) l len fit by (auto simp: find_line_def Let_def)
  qed
qed

lemma take_line_ok:
  assumes b: "buf_ok b" and d: "0 \<notin> set delim" "length delim < 2 ^ 62" "delim \<noteq> []"
  shows "(take_line (find_line delim b) b = Inr (None, b) \<and> infix_free delim (buf_content b)) \<or>
    (\<exists>l b'. take_line (find_line delim b) b = Inr (Some l, b') \<and>
       first_line delim (buf_content b) l \<and> buf_ok b' \<and>
       buf_content b = l @ buf_content b' \<and> (\<exists>rest. buf_content b' = delim @ rest))"
proof -
  from find_line_ok [OF assms] consider
      (none) "find_line delim b = Inr None" "infix_free delim (buf_content b)"
    | (some) v where "find_line delim b = Inr (Some v)"
        "first_line delim (buf_content b) (sv_str v)" "unat (sv_len v) = length (sv_str v)"
    by blast
  then show ?thesis
  proof cases
    case none
    then show ?thesis by (simp add: take_line_def)
  next
    case some
    then obtain rest where t: "buf_content b = sv_str v @ delim @ rest"
      by (auto simp: first_line_def)
    obtain b' where b': "AdvanceRead b (sv_len v) = Inr b'" "buf_ok b'"
        "buf_content b' = drop (unat (sv_len v)) (buf_content b)"
      using AdvanceRead_ok [OF b, of "sv_len v"] some(3) t by auto
    show ?thesis
      using some b' t by (auto simp: take_line_def sv_ToString_def)
  qed
qed

text \<open>\<open>FindCrLf(std::string&)\<close> returns exactly the first line, the text before the first
  \<open>"\r\n"\<close>, and consumes it but not the delimiter: the contents afterwards start with \<open>"\r\n"\<close>, so a
  second call finds an empty line and consumes nothing.\<close>

theorem FindCrLf_string_leaves_delimiter:
  assumes "buf_ok b" "FindCrLf_string b = Inr (Some l, b')"
  shows "first_line [13, 10] (buf_content b) l \<and> buf_content b = l @ buf_content b' \<and>
    (\<exists>rest. buf_content b' = [13, 10] @ rest) \<and>
    (\<exists>b''. FindCrLf_string b' = Inr (Some [], b'') \<and> buf_content b'' = buf_content b')"
proof -
  have d: "0 \<notin> set [13, 10 :: byte]" "length [13, 10 :: byte] < 2 ^ 62" "[13, 10 :: byte] \<noteq> []"
    by simp_all
  have first: "first_line [13, 10] (buf_content b) l" and ok: "buf_ok b'"
    and cut: "buf_content b = l @ buf_content b'" and rest: "\<exists>rest. buf_content b' = [13, 10] @ rest"
    using take_line_ok [OF assms(1) d] assms(2) by (auto simp: FindCrLf_string_def FindCrLf_def)
  have occ: "occurs_at [13, 10] 0 (buf_content b')"
    using rest by (auto simp: occurs_at_def seg_def)
  then have "\<not> infix_free [13, 10] (buf_content b')" by (auto simp: infix_free_def)
  moreover have "l' = []" if "first_line [13, 10] (buf_content b') l'" for l'
    using that occ by (auto simp: first_line_def)
  ultimately have "\<exists>b''. FindCrLf_string b' = Inr (Some [], b'') \<and> buf_content b'' = buf_content b'"
    using take_line_ok [OF ok d] by (fastforce simp: FindCrLf_string_def FindCrLf_def)
  with first cut rest show ?thesis by blast
qed

definition demo_lines :: buffer where
  "demo_lines = \<lparr>b_read_index = 8, b_write_index = 13,
     b_data = \<lparr>ra_data = Some (replicate 8 0 @ [97, 98, 13, 10, 99])\<rparr>\<rparr>"

theorem FindCrLf_string_leaves_delimiter_witness:
  "\<exists>b'. buf_ok demo_lines \<and> FindCrLf_string demo_lines = Inr (Some [97, 98], b') \<and>
     buf_content b' = [13, 10, 99] \<and>
     first_line [13, 10] (buf_content demo_lines) [97, 98] \<and>
     (\<exists>b''. FindCrLf_string b' = Inr (Some [], b'') \<and> buf_content b'' = buf_content b')"
proof -
  let ?b = "demo_lines\<lparr>b_read_index := 10\<rparr>"
  have ok: "buf_ok demo_lines"
    by (simp add: demo_lines_def buf_ok_def ra_wf_def ra_bytes_def)
  moreover have run: "FindCrLf_string demo_lines = Inr (Some [97, 98], ?b)" by code_simp
  moreover have "buf_content ?b = [13, 10, 99]" by code_simp
  ultimately show ?thesis using FindCrLf_string_leaves_delimiter [OF ok run] by blast
qed

section \<open>Reading from a descriptor\<close>

lemma readv_fits:
  assumes "buf_ok b" "\<not> length xs \<le> unat (GetWritableSize b)" "length xs \<le> readv_limit b"
  shows "length xs < 2 ^ 63"
  using assms(2,3) by (auto simp: readv_limit_def split: if_splits)

text \<open>\<open>BufferReadFromFd\<close> with a free prefix appends exactly the bytes the kernel delivered, in
  order, whether they fit the writable region or spill into the stack buffer, and reports
  their number; on an error the buffer is unchanged. No assertion can fail.\<close>

theorem BufferReadFromFd_appends:
  assumes std: "buf_std b" and xs: "length xs \<le> readv_limit b"
  shows "BufferReadFromFd A (IoBytes xs) b = Inl Terminate \<or>
    (\<exists>b'. BufferReadFromFd A (IoBytes xs) b = Inr (of_nat (length xs), None, b') \<and>
       buf_std b' \<and> buf_content b' = buf_content b @ xs)"
proof -
  have ok: "buf_ok b" and r8: "8 \<le> b_read_index b" using std by (simp_all add: buf_std_def)
  note D = buf_okD [OF ok]
  let ?W = "unat (GetWritableSize b)" and ?w = "unat (b_write_index b)"
  let ?here = "take ?W xs"
  have W: "?w + ?W = length (ra_bytes (b_data b))"
    using D by (simp add: unat_GetWritableSize [OF ok])
  have fit: "?w + length ?here \<le> length (ra_bytes (b_data b))" using W by simp
  obtain d where d: "ra_write (b_data b) ?w ?here = Inr d"
      "ra_bytes d = put_at ?w ?here (ra_bytes (b_data b))"
    using ra_write_Inr [OF fit] by blast
  have dlen: "length (ra_bytes d) = length (ra_bytes (b_data b))" using d(2) fit by simp
  have cont: "seg (unat (b_read_index b)) (?w + length ?here) (ra_bytes d)
      = buf_content b @ ?here"
    using seg_put_at_extend [OF D(1) fit] d(2) by (simp add: buf_content_def)
  let ?b = "b\<lparr>b_data := d\<rparr>"
  have okb: "buf_ok ?b" using ok dlen by (simp add: buf_ok_def ra_wf_def)
  have Wb: "GetWritableSize ?b = GetWritableSize b"
    by (simp add: GetWritableSize_def ra_size_def dlen)
  have small: "length xs < 2 ^ 64"
    using xs D by (auto simp: readv_limit_def unat_GetWritableSize [OF ok] split: if_splits)
  have un: "unat (of_nat (length xs) :: usize) = length xs"
    by (rule unat_of_nat_usize [OF small])
  show ?thesis
  proof (cases "length xs \<le> ?W")
    case True
    let ?b1 = "?b\<lparr>b_write_index := b_write_index b + of_nat (length xs)\<rparr>"
    have uw: "unat (b_write_index b + of_nat (length xs)) = ?w + length xs"
      using True W D un by (subst unat_add_usize) simp_all
    have le: "(of_nat (length xs) :: usize) \<le> GetWritableSize b"
      using True un by (simp add: word_le_nat_alt)
    have "buf_ok ?b1" using okb uw True W D dlen by (simp add: buf_ok_def word_le_nat_alt)
    moreover have "buf_content ?b1 = buf_content b @ xs"
      using cont True uw by (simp add: buf_content_def)
    ultimately show ?thesis
      using d(1) le Wb r8 by (auto simp: BufferReadFromFd_def Let_def AdvanceWrite_def buf_std_def)
  next
    case False
    let ?c = "GetCapacity ?b" and ?rest = "drop ?W xs"
    let ?b1 = "?b\<lparr>b_write_index := ?c\<rparr>"
    have uc: "unat ?c = ?w + ?W"
      using unat_ra_size [of d] dlen W D by (simp add: GetCapacity_def ra_wf_def)
    have rc: "b_read_index ?b \<le> ?c" using uc D by (simp add: word_le_nat_alt)
    have gt: "\<not> (of_nat (length xs) :: usize) \<le> GetWritableSize b"
      using False un by (simp add: word_le_nat_alt)
    have ok1: "buf_std ?b1"
      using okb rc uc W dlen D r8 by (simp add: buf_std_def buf_ok_def word_le_nat_alt)
    have c1: "buf_content ?b1 = buf_content b @ ?here"
      using cont False uc by (simp add: buf_content_def)
    have rl: "length ?rest < 2 ^ 63" using readv_fits [OF ok False xs] by simp
    from Append_cases [OF _ rl buf_std_can_reserve [OF ok1], of A] ok1
    have "Append A ?b1 ?rest = Inl Terminate \<or>
      (\<exists>b'. Append A ?b1 ?rest = Inr b' \<and> buf_std b' \<and> buf_content b' = buf_content ?b1 @ ?rest)"
      by (auto simp: buf_std_def)
    then show ?thesis
      using d(1) gt rc c1 by (auto simp: BufferReadFromFd_def Let_def SetWriteIndex_def)
  qed
qed

theorem BufferReadFromFd_appends_witness:
  "let xs = [1, 2, 3, 4, 5, 6] in
   buf_std demo_buffer \<and> length xs \<le> readv_limit demo_buffer \<and>
   (\<exists>b'. BufferReadFromFd demo_alloc (IoBytes xs) demo_buffer = Inr (6, None, b') \<and>
     buf_std b' \<and> buf_content b' = xs)"
proof -
  let ?xs = "[1, 2, 3, 4, 5, 6] :: bytes"
  have h: "buf_std demo_buffer" "length ?xs \<le> readv_limit demo_buffer"
    by (simp_all add: demo_buffer_std readv_limit_def)
  have "BufferReadFromFd demo_alloc (IoBytes ?xs) demo_buffer \<noteq> Inl Terminate" by code_simp
  with h BufferReadFromFd_appends [OF h, of demo_alloc] demo_buffer_std show ?thesis
    by (auto simp: Let_def)
qed

section \<open>Shrinking\<close>

text \<open>\<open>Shrink(n)\<close> with fewer than 8 spare bytes leaves the write index behind the end of the
  array: it keeps only readable size + n bytes, although the contents start at offset 8. Every
  buffer with a readable byte is broken by \<open>Shrink()\<close>.\<close>

theorem Shrink_breaks_invariant:
  assumes "buf_std b" "HasReadable b" "unat n < 8" "Shrink A b n = Inr b'"
  shows "unat (GetCapacity b') < unat (b_write_index b') \<and> \<not> buf_ok b'"
proof -
  have ok: "buf_ok b" and r8: "8 \<le> unat (b_read_index b)"
    using assms(1) by (simp_all add: buf_std_def word_le_nat_alt)
  note D = buf_okD [OF ok]
  obtain d d' where d: "(if b_read_index b \<noteq> 8
        then copy_within (b_data b) (b_read_index b) (b_write_index b) 8
        else Inr (b_data b)) = Inr d"
    and d': "ra_Shrink A d (GetReadableSize b + n) = Inr d'" and b': "b' = b\<lparr>b_data := d'\<rparr>"
    using assms(4) by (auto simp: Shrink_def)
  have fit: "unat (8 :: usize) + (unat (b_write_index b) - unat (b_read_index b))
      \<le> length (ra_bytes (b_data b))" using D r8 by simp
  have wf: "ra_wf d"
    using d copy_within_ok [OF D(1,2) fit D(5)] D(5) by (auto split: if_splits)
  have un: "unat (GetReadableSize b + n) = unat (GetReadableSize b) + unat n"
    using D assms(3) by (intro unat_add_usize) (simp add: unat_GetReadableSize [OF ok])
  have "unat (GetReadableSize b) + unat n < unat (b_write_index b)"
    using D r8 assms(3) by (simp add: unat_GetReadableSize [OF ok])
  moreover have "length (ra_bytes d') \<le> unat (GetReadableSize b) + unat n"
    using ra_Shrink_Inr(2) [OF d' wf] un by simp
  moreover have "unat (GetCapacity b') = length (ra_bytes d')"
    using ra_Shrink_Inr(1) [OF d' wf] by (simp add: b' GetCapacity_def unat_ra_size)
  ultimately show ?thesis by (simp add: b' buf_ok_def)
qed

theorem Shrink_breaks_invariant_witness:
  "\<exists>b'. buf_std demo_lines \<and> HasReadable demo_lines \<and> unat (0 :: usize) < 8 \<and>
     Shrink demo_alloc demo_lines 0 = Inr b' \<and>
     unat (GetCapacity b') < unat (b_write_index b') \<and> \<not> buf_ok b'"
proof -
  let ?b = "demo_lines\<lparr>b_data := \<lparr>ra_data = Some (replicate 5 0)\<rparr>\<rparr>"
  have h: "buf_std demo_lines" "HasReadable demo_lines" "unat (0 :: usize) < 8"
    by (simp_all add: demo_lines_def buf_std_def buf_ok_def ra_wf_def ra_bytes_def HasReadable_def)
  have run: "Shrink demo_alloc demo_lines 0 = Inr ?b" by code_simp
  show ?thesis using h run Shrink_breaks_invariant [OF h run] by blast
qed

end
