(* ===== verification/Chunk_List.thy ===== *)
theory Chunk_List
  imports Byte_Queue Byte_Order
begin

text \<open>
  Model of \<^verbatim>\<open>kanon/buffer/chunk_list.h\<close>, \<^verbatim>\<open>chunk_list.cc\<close> and \<^verbatim>\<open>kanon/linux/net/chunk_list.cc\<close>: the
  output buffer, a list of 4096-byte chunks with a list of free chunks. The two
  \<open>ForwardList<Chunk>\<close> members are the sequences of their chunks (the node level is
  verified in \<open>Forward_List\<close>). Indices of a chunk are natural numbers; every
  subtraction of the code is guarded by an assertion or a comparison, which the model keeps.
\<close>

section \<open>Chunks\<close>

abbreviation (input) CHUNK_SIZE :: nat where
  "CHUNK_SIZE \<equiv> 4096"

text \<open>\<open>sizeof(size_t)\<close>\<close>

abbreviation (input) HEADER_SIZE :: nat where
  "HEADER_SIZE \<equiv> 8"

record chunk =
  ck_read_index :: nat
  ck_write_index :: nat
  ck_max_size :: nat
  ck_buf :: bytes

definition Chunk_SetToHeader :: "chunk \<Rightarrow> chunk" where
  "Chunk_SetToHeader c = c\<lparr>ck_read_index := HEADER_SIZE, ck_write_index := HEADER_SIZE\<rparr>"

definition Chunk_AdvanceRead :: "chunk \<Rightarrow> nat \<Rightarrow> chunk res" where
  "Chunk_AdvanceRead c len =
     rbind (assertR (ck_read_index c \<le> ck_write_index c)) (\<lambda>_.
       let c = c\<lparr>ck_read_index := ck_read_index c + len\<rparr> in
       rbind (assertR (ck_read_index c \<le> ck_write_index c)) (\<lambda>_. Inr c))"

definition Chunk_AdvanceWrite :: "chunk \<Rightarrow> nat \<Rightarrow> chunk res" where
  "Chunk_AdvanceWrite c len =
     rbind (assertR (ck_write_index c \<le> ck_max_size c)) (\<lambda>_.
       let c = c\<lparr>ck_write_index := ck_write_index c + len\<rparr> in
       rbind (assertR (ck_write_index c \<le> ck_max_size c)) (\<lambda>_. Inr c))"

definition Chunk_GetReadableSize :: "chunk \<Rightarrow> nat" where
  "Chunk_GetReadableSize c = ck_write_index c - ck_read_index c"

definition Chunk_GetWritableSize :: "chunk \<Rightarrow> nat" where
  "Chunk_GetWritableSize c = ck_max_size c - ck_write_index c"

definition Chunk_AdvanceReadAll :: "chunk \<Rightarrow> chunk res" where
  "Chunk_AdvanceReadAll c = Chunk_AdvanceRead c (Chunk_GetReadableSize c)"

definition Chunk_AdvanceWriteAll :: "chunk \<Rightarrow> chunk res" where
  "Chunk_AdvanceWriteAll c = Chunk_AdvanceWrite c (Chunk_GetWritableSize c)"

text \<open>\<open>memcpy\<close> into the padding buffer of the chunk.\<close>

definition ck_store :: "chunk \<Rightarrow> nat \<Rightarrow> bytes \<Rightarrow> chunk res" where
  "ck_store c i xs =
     (if i + length xs \<le> length (ck_buf c) then Inr (c\<lparr>ck_buf := put_at i xs (ck_buf c)\<rparr>)
      else Inl OutOfBounds)"

definition Chunk_Append :: "chunk \<Rightarrow> bytes \<Rightarrow> chunk res" where
  "Chunk_Append c xs =
     rbind (assertR (length xs \<le> Chunk_GetWritableSize c)) (\<lambda>_.
     rbind (ck_store c (ck_write_index c) xs) (\<lambda>c.
       Inr (c\<lparr>ck_write_index := ck_write_index c + length xs\<rparr>)))"

definition Chunk_ToStringView :: "chunk \<Rightarrow> bytes" where
  "Chunk_ToStringView c = seg (ck_read_index c) (ck_write_index c) (ck_buf c)"

definition Chunk_Reset :: "chunk \<Rightarrow> chunk" where
  "Chunk_Reset c = c\<lparr>ck_read_index := 0, ck_write_index := 0\<rparr>"

definition Chunk_Prepend :: "chunk \<Rightarrow> bytes \<Rightarrow> chunk res" where
  "Chunk_Prepend c xs =
     rbind (assertR (HEADER_SIZE \<le> ck_read_index c)) (\<lambda>_.
     rbind (assertR (HEADER_SIZE \<le> ck_write_index c)) (\<lambda>_.
     rbind (assertR (length xs \<le> HEADER_SIZE)) (\<lambda>_.
       let c = c\<lparr>ck_read_index := ck_read_index c - length xs\<rparr> in
       ck_store c (ck_read_index c) xs)))"

definition Chunk_IsHeaderInitState :: "chunk \<Rightarrow> bool" where
  "Chunk_IsHeaderInitState c \<longleftrightarrow> HEADER_SIZE = ck_read_index c \<and> ck_read_index c = ck_write_index c"

section \<open>Chunk lists\<close>

text \<open>The allocation of a chunk: whether it succeeds when the list has that many chunks, and what
  the padding holds.\<close>

record chunk_alloc =
  ca_ok :: "nat \<Rightarrow> bool"
  ca_fresh :: "nat \<Rightarrow> byte"

definition create_chunk :: "chunk_alloc \<Rightarrow> nat \<Rightarrow> chunk res" where
  "create_chunk A n =
     (if ca_ok A n then
        Inr \<lparr>ck_read_index = 0, ck_write_index = 0, ck_max_size = CHUNK_SIZE,
             ck_buf = map (ca_fresh A) [0..<CHUNK_SIZE]\<rparr>
      else Inl BadAlloc)"

record chunk_list =
  cl_buffers :: "chunk list"
  cl_free :: "chunk list"

definition ChunkList :: chunk_list where
  "ChunkList = \<lparr>cl_buffers = [], cl_free = []\<rparr>"

definition ChunkList_IsEmpty :: "chunk_list \<Rightarrow> bool" where
  "ChunkList_IsEmpty cl \<longleftrightarrow> cl_buffers cl = []"

definition ChunkList_HasReadable :: "chunk_list \<Rightarrow> bool" where
  "ChunkList_HasReadable cl \<longleftrightarrow> \<not> ChunkList_IsEmpty cl"

definition ChunkList_GetChunkSize :: "chunk_list \<Rightarrow> nat" where
  "ChunkList_GetChunkSize cl = length (cl_buffers cl)"

text \<open>\<open>front()\<close> and \<open>back()\<close> assert that the list is not empty.\<close>

definition ChunkList_GetFirstChunk :: "chunk_list \<Rightarrow> chunk res" where
  "ChunkList_GetFirstChunk cl = (if cl_buffers cl = [] then Inl AssertFail else Inr (hd (cl_buffers cl)))"

definition ChunkList_GetLastChunk :: "chunk_list \<Rightarrow> chunk res" where
  "ChunkList_GetLastChunk cl = (if cl_buffers cl = [] then Inl AssertFail else Inr (last (cl_buffers cl)))"

abbreviation set_last :: "chunk \<Rightarrow> chunk_list \<Rightarrow> chunk_list" where
  "set_last c cl \<equiv> cl\<lparr>cl_buffers := butlast (cl_buffers cl) @ [c]\<rparr>"

abbreviation set_first :: "chunk \<Rightarrow> chunk_list \<Rightarrow> chunk_list" where
  "set_first c cl \<equiv> cl\<lparr>cl_buffers := c # tl (cl_buffers cl)\<rparr>"

text \<open>\<open>AddChunk\<close>: the returned chunk is the last one of the new list.\<close>

definition ChunkList_AddChunk :: "chunk_alloc \<Rightarrow> chunk_list \<Rightarrow> chunk_list res" where
  "ChunkList_AddChunk A cl =
     rbind (case cl_free cl of
              c # cs \<Rightarrow> Inr (cl\<lparr>cl_free := cs, cl_buffers := cl_buffers cl @ [c]\<rparr>)
            | [] \<Rightarrow> rbind (create_chunk A (length (cl_buffers cl)))
                     (\<lambda>c. Inr (cl\<lparr>cl_buffers := cl_buffers cl @ [c]\<rparr>))) (\<lambda>cl.
       if length (cl_buffers cl) = 1 then
         let cl = set_last (Chunk_SetToHeader (last (cl_buffers cl))) cl in
         rbind (assertR (CHUNK_SIZE = ck_max_size (hd (cl_buffers cl)))) (\<lambda>_.
         rbind (assertR (Chunk_IsHeaderInitState (hd (cl_buffers cl)))) (\<lambda>_. Inr cl))
       else Inr cl)"

definition ChunkList_Prepend :: "chunk_alloc \<Rightarrow> chunk_list \<Rightarrow> bytes \<Rightarrow> chunk_list res" where
  "ChunkList_Prepend A cl xs =
     rbind (if cl_buffers cl = [] then ChunkList_AddChunk A cl else Inr cl) (\<lambda>cl.
     rbind (Chunk_Prepend (hd (cl_buffers cl)) xs) (\<lambda>c. Inr (set_first c cl)))"

text \<open>The loop of \<open>Append\<close> over the remaining bytes, ending in the assertion on the last chunk.\<close>

partial_function (option) append_loop ::
  "chunk_alloc \<Rightarrow> chunk_list \<Rightarrow> bytes \<Rightarrow> chunk_list res option" where
  "append_loop A cl buf =
     (if buf = [] then
        Some (rbind (ChunkList_GetLastChunk cl) (\<lambda>c.
          rbind (assertR (Chunk_GetWritableSize c \<noteq> CHUNK_SIZE)) (\<lambda>_. Inr cl)))
      else
        (case ChunkList_AddChunk A cl of
           Inl e \<Rightarrow> Some (Inl e)
         | Inr cl \<Rightarrow>
             let wsize = Chunk_GetWritableSize (last (cl_buffers cl)) in
             if wsize \<le> length buf then
               (case Chunk_Append (last (cl_buffers cl)) (take wsize buf) of
                  Inl e \<Rightarrow> Some (Inl e)
                | Inr c \<Rightarrow> append_loop A (set_last c cl) (drop wsize buf))
             else
               Some (rbind (Chunk_Append (last (cl_buffers cl)) buf) (\<lambda>c. Inr (set_last c cl)))))"

declare append_loop.simps [code]

definition ChunkList_Append :: "chunk_alloc \<Rightarrow> chunk_list \<Rightarrow> bytes \<Rightarrow> chunk_list res" where
  "ChunkList_Append A cl buf =
     (if cl_buffers cl \<noteq> [] \<and> 0 < Chunk_GetWritableSize (last (cl_buffers cl)) then
        let last_block = last (cl_buffers cl); last_block_wsize = Chunk_GetWritableSize last_block in
        if length buf \<le> last_block_wsize then
          rbind (Chunk_Append last_block buf) (\<lambda>c.
          rbind (assertR (Chunk_GetWritableSize c = last_block_wsize - length buf)) (\<lambda>_.
            Inr (set_last c cl)))
        else
          rbind (Chunk_Append last_block (take last_block_wsize buf)) (\<lambda>c.
            ended (append_loop A (set_last c cl) (drop last_block_wsize buf)))
      else ended (append_loop A cl buf))"

definition ChunkList_PutToFreeChunk :: "chunk_list \<Rightarrow> (bool \<times> chunk_list) res" where
  "ChunkList_PutToFreeChunk cl =
     rbind (ChunkList_GetFirstChunk cl) (\<lambda>c.
       if ck_max_size c \<noteq> CHUNK_SIZE then Inr (False, cl)
       else Inr (True, cl\<lparr>cl_buffers := tl (cl_buffers cl), cl_free := Chunk_Reset c # cl_free cl\<rparr>))"

partial_function (option) advance_loop :: "chunk_list \<Rightarrow> nat \<Rightarrow> chunk_list res option" where
  "advance_loop cl len =
     (case cl_buffers cl of
        [] \<Rightarrow> Some (Inr cl)
      | first_block # _ \<Rightarrow>
          let rsize = Chunk_GetReadableSize first_block in
          if rsize \<le> len then
            (case ChunkList_PutToFreeChunk cl of
               Inl e \<Rightarrow> Some (Inl e)
             | Inr r \<Rightarrow> advance_loop (snd r) (len - rsize))
          else Some (rbind (Chunk_AdvanceRead first_block len) (\<lambda>c. Inr (set_first c cl))))"

declare advance_loop.simps [code]

definition ChunkList_AdvanceRead :: "chunk_list \<Rightarrow> nat \<Rightarrow> chunk_list res" where
  "ChunkList_AdvanceRead cl len = ended (advance_loop cl len)"

definition ChunkList_GetReadableSize :: "chunk_list \<Rightarrow> nat" where
  "ChunkList_GetReadableSize cl =
     (case cl_buffers cl of
        [] \<Rightarrow> 0
      | [c] \<Rightarrow> Chunk_GetReadableSize c
      | [c, d] \<Rightarrow> Chunk_GetReadableSize c + Chunk_GetReadableSize d
      | c # d # cs \<Rightarrow> Chunk_GetReadableSize c + Chunk_GetReadableSize d +
          (length (cl_buffers cl) - 3) * CHUNK_SIZE + Chunk_GetReadableSize (last cs))"

definition ChunkList_AdvanceReadAll :: "chunk_list \<Rightarrow> chunk_list res" where
  "ChunkList_AdvanceReadAll cl = ChunkList_AdvanceRead cl (ChunkList_GetReadableSize cl)"

definition ChunkList_Shrink :: "chunk_list \<Rightarrow> nat \<Rightarrow> chunk_list res" where
  "ChunkList_Shrink cl chunk_size =
     (if length (cl_free cl) \<le> chunk_size then Inr cl
      else let cl = cl\<lparr>cl_free := drop (length (cl_free cl) - chunk_size) (cl_free cl)\<rparr> in
        rbind (assertR (length (cl_free cl) = chunk_size)) (\<lambda>_. Inr cl))"

text \<open>\<open>for (i = 0; i < diff; ++i) list.push_back(create_node_size(CHUNK_SIZE))\<close>\<close>

fun push_fresh :: "chunk_alloc \<Rightarrow> nat \<Rightarrow> chunk list \<Rightarrow> chunk list res" where
  "push_fresh A 0 cs = Inr cs"
| "push_fresh A (Suc n) cs = rbind (create_chunk A (length cs)) (\<lambda>c. push_fresh A n (cs @ [c]))"

definition ChunkList_ReserveFreeChunk :: "chunk_alloc \<Rightarrow> chunk_list \<Rightarrow> nat \<Rightarrow> chunk_list res" where
  "ChunkList_ReserveFreeChunk A cl chunk_size =
     (if chunk_size \<le> length (cl_free cl) then Inr cl
      else rbind (push_fresh A (chunk_size - length (cl_free cl)) (cl_free cl))
             (\<lambda>cs. Inr (cl\<lparr>cl_free := cs\<rparr>)))"

definition ChunkList_ReserveChunk :: "chunk_alloc \<Rightarrow> chunk_list \<Rightarrow> nat \<Rightarrow> chunk_list res" where
  "ChunkList_ReserveChunk A cl chunk_size =
     rbind (push_fresh A chunk_size (cl_buffers cl)) (\<lambda>cs. Inr (cl\<lparr>cl_buffers := cs\<rparr>))"

text \<open>The loop of \<open>ReserveWriteSpace\<close>: \<open>None\<close> if the chunks have the room, else what is missing.\<close>

fun missing_space :: "chunk list \<Rightarrow> nat \<Rightarrow> nat option" where
  "missing_space [] sz = Some sz"
| "missing_space (c # cs) sz =
     (if sz \<le> Chunk_GetWritableSize c then None
      else missing_space cs (sz - Chunk_GetWritableSize c))"

definition ChunkList_ReserveWriteSpace :: "chunk_alloc \<Rightarrow> chunk_list \<Rightarrow> nat \<Rightarrow> chunk_list res" where
  "ChunkList_ReserveWriteSpace A cl sz =
     (case missing_space (cl_buffers cl) sz of
        None \<Rightarrow> Inr cl
      | Some sz \<Rightarrow>
          rbind (assertR (1 \<le> sz)) (\<lambda>_.
            ChunkList_ReserveFreeChunk A cl ((sz - 1) div 4096 + 1)))"

definition ChunkList_GetFreeChunk :: "chunk_list \<Rightarrow> chunk option \<times> chunk_list" where
  "ChunkList_GetFreeChunk cl =
     (case cl_free cl of [] \<Rightarrow> (None, cl) | c # cs \<Rightarrow> (Some c, cl\<lparr>cl_free := cs\<rparr>))"

text \<open>\<open>AppendChunkList\<close> splices after \<open>end()\<close>, a null pointer.\<close>

definition ChunkList_AppendChunkList :: "chunk_list \<Rightarrow> chunk_list \<Rightarrow> (chunk_list \<times> chunk_list) res" where
  "ChunkList_AppendChunkList cl rhs =
     (if cl_buffers rhs = [] then Inr (cl, rhs) else Inl NullDeref)"

definition ChunkList_swap :: "chunk_list \<Rightarrow> chunk_list \<Rightarrow> chunk_list \<times> chunk_list" where
  "ChunkList_swap a b =
     (a\<lparr>cl_buffers := cl_buffers b, cl_free := cl_free b\<rparr>,
      b\<lparr>cl_buffers := cl_buffers a, cl_free := cl_free a\<rparr>)"

text \<open>\<open>Clone\<close> copies the lists by the copy constructor of \<open>ForwardList\<close>, whose \<open>create_node\<close>
  allocates \<open>sizeof(Node)\<close> bytes: the three indices of each chunk are copied and the copies have no
  padding buffer. \<open>CopyAssign\<close> ends in the copy assignment, \<open>assert(false)\<close>.\<close>

definition ChunkList_Clone :: "chunk_list \<Rightarrow> chunk_list" where
  "ChunkList_Clone cl =
     \<lparr>cl_buffers = map (ck_buf_update (\<lambda>_. [])) (cl_buffers cl),
      cl_free = map (ck_buf_update (\<lambda>_. [])) (cl_free cl)\<rparr>"

definition ChunkList_copy_assign :: "chunk_list \<Rightarrow> chunk_list \<Rightarrow> chunk_list res" where
  "ChunkList_copy_assign cl rhs = rbind (assertR False) (\<lambda>_. Inr cl)"

definition ChunkList_CopyAssign :: "chunk_list \<Rightarrow> chunk_list \<Rightarrow> chunk_list res" where
  "ChunkList_CopyAssign cl rhs =
     (let copy = ChunkList_Clone rhs;
          cl = cl\<lparr>cl_buffers := cl_buffers copy, cl_free := cl_free copy\<rparr> in
      ChunkList_copy_assign cl rhs)"

subsection \<open>Integers\<close>

definition ChunkList_Append8 :: "chunk_alloc \<Rightarrow> endian \<Rightarrow> chunk_list \<Rightarrow> 8 word \<Rightarrow> chunk_list res" where
  "ChunkList_Append8 A e cl i = ChunkList_Append A cl (mem_bytes e 1 i)"

definition ChunkList_Append16 :: "chunk_alloc \<Rightarrow> endian \<Rightarrow> chunk_list \<Rightarrow> 16 word \<Rightarrow> chunk_list res" where
  "ChunkList_Append16 A e cl i = ChunkList_Append A cl (mem_bytes e 2 (ToNetworkByteOrder16 e i))"

definition ChunkList_Append32 :: "chunk_alloc \<Rightarrow> endian \<Rightarrow> chunk_list \<Rightarrow> 32 word \<Rightarrow> chunk_list res" where
  "ChunkList_Append32 A e cl i = ChunkList_Append A cl (mem_bytes e 4 (ToNetworkByteOrder32 e i))"

definition ChunkList_Append64 :: "chunk_alloc \<Rightarrow> endian \<Rightarrow> chunk_list \<Rightarrow> 64 word \<Rightarrow> chunk_list res" where
  "ChunkList_Append64 A e cl i = ChunkList_Append A cl (mem_bytes e 8 (ToNetworkByteOrder64 e i))"

definition ChunkList_Prepend8 :: "chunk_alloc \<Rightarrow> endian \<Rightarrow> chunk_list \<Rightarrow> 8 word \<Rightarrow> chunk_list res" where
  "ChunkList_Prepend8 A e cl i =
     (let ni = ToNetworkByteOrder8 e i in
      noexcept (rbind (assertR (ToHostByteOrder8 e ni = i)) (\<lambda>_. ChunkList_Prepend A cl (mem_bytes e 1 ni))))"

definition ChunkList_Prepend16 :: "chunk_alloc \<Rightarrow> endian \<Rightarrow> chunk_list \<Rightarrow> 16 word \<Rightarrow> chunk_list res" where
  "ChunkList_Prepend16 A e cl i =
     (let ni = ToNetworkByteOrder16 e i in
      noexcept (rbind (assertR (ToHostByteOrder16 e ni = i)) (\<lambda>_. ChunkList_Prepend A cl (mem_bytes e 2 ni))))"

definition ChunkList_Prepend32 :: "chunk_alloc \<Rightarrow> endian \<Rightarrow> chunk_list \<Rightarrow> 32 word \<Rightarrow> chunk_list res" where
  "ChunkList_Prepend32 A e cl i =
     (let ni = ToNetworkByteOrder32 e i in
      noexcept (rbind (assertR (ToHostByteOrder32 e ni = i)) (\<lambda>_. ChunkList_Prepend A cl (mem_bytes e 4 ni))))"

definition ChunkList_Prepend64 :: "chunk_alloc \<Rightarrow> endian \<Rightarrow> chunk_list \<Rightarrow> 64 word \<Rightarrow> chunk_list res" where
  "ChunkList_Prepend64 A e cl i =
     (let ni = ToNetworkByteOrder64 e i in
      noexcept (rbind (assertR (ToHostByteOrder64 e ni = i)) (\<lambda>_. ChunkList_Prepend A cl (mem_bytes e 8 ni))))"

text \<open>The integers are read from the first chunk only.\<close>

definition cl_peek :: "chunk_list \<Rightarrow> nat \<Rightarrow> bytes res" where
  "cl_peek cl n =
     rbind (ChunkList_GetFirstChunk cl) (\<lambda>c.
     rbind (assertR (n \<le> Chunk_GetReadableSize c)) (\<lambda>_. Inr (take n (Chunk_ToStringView c))))"

definition ChunkList_GetReadBegin8 :: "endian \<Rightarrow> chunk_list \<Rightarrow> 8 word res" where
  "ChunkList_GetReadBegin8 e cl = rbind (cl_peek cl 1) (\<lambda>bs. Inr (mem_word e bs))"

definition ChunkList_GetReadBegin16 :: "endian \<Rightarrow> chunk_list \<Rightarrow> 16 word res" where
  "ChunkList_GetReadBegin16 e cl = rbind (cl_peek cl 2) (\<lambda>bs. Inr (ToHostByteOrder16 e (mem_word e bs)))"

definition ChunkList_GetReadBegin32 :: "endian \<Rightarrow> chunk_list \<Rightarrow> 32 word res" where
  "ChunkList_GetReadBegin32 e cl = rbind (cl_peek cl 4) (\<lambda>bs. Inr (ToHostByteOrder32 e (mem_word e bs)))"

definition ChunkList_GetReadBegin64 :: "endian \<Rightarrow> chunk_list \<Rightarrow> 64 word res" where
  "ChunkList_GetReadBegin64 e cl = rbind (cl_peek cl 8) (\<lambda>bs. Inr (ToHostByteOrder64 e (mem_word e bs)))"

definition ChunkList_Read8 :: "endian \<Rightarrow> chunk_list \<Rightarrow> (8 word \<times> chunk_list) res" where
  "ChunkList_Read8 e cl =
     rbind (ChunkList_GetReadBegin8 e cl) (\<lambda>r. rbind (ChunkList_AdvanceRead cl 1) (\<lambda>cl. Inr (r, cl)))"

definition ChunkList_Read16 :: "endian \<Rightarrow> chunk_list \<Rightarrow> (16 word \<times> chunk_list) res" where
  "ChunkList_Read16 e cl =
     rbind (ChunkList_GetReadBegin16 e cl) (\<lambda>r. rbind (ChunkList_AdvanceRead cl 2) (\<lambda>cl. Inr (r, cl)))"

definition ChunkList_Read32 :: "endian \<Rightarrow> chunk_list \<Rightarrow> (32 word \<times> chunk_list) res" where
  "ChunkList_Read32 e cl =
     rbind (ChunkList_GetReadBegin32 e cl) (\<lambda>r. rbind (ChunkList_AdvanceRead cl 4) (\<lambda>cl. Inr (r, cl)))"

definition ChunkList_Read64 :: "endian \<Rightarrow> chunk_list \<Rightarrow> (64 word \<times> chunk_list) res" where
  "ChunkList_Read64 e cl =
     rbind (ChunkList_GetReadBegin64 e cl) (\<lambda>r. rbind (ChunkList_AdvanceRead cl 8) (\<lambda>cl. Inr (r, cl)))"

subsection \<open>Writing to a descriptor\<close>

text \<open>The system calls are parameters: the outcome of \<open>write\<close> on the first chunk, and of \<open>writev\<close> on
  a vector of blocks: an error number, or the number of bytes taken.\<close>

datatype write_result = WErr int | WOk nat

abbreviation (input) IOVEC_MAX :: nat where
  "IOVEC_MAX \<equiv> 1024"

definition RoundUpDivideIn2 :: "nat \<Rightarrow> nat \<Rightarrow> nat" where
  "RoundUpDivideIn2 x y = (if x = 0 then 0 else (x - 1) div y + 1)"

text \<open>What a call of \<open>write\<close> with the bytes \<open>bs\<close>, or of \<open>writev\<close> with blocks of these bytes, makes the kernel take: the first
  \<open>k\<close> of them if it returns \<open>k\<close>.\<close>

fun taken :: "write_result \<Rightarrow> bytes \<Rightarrow> bytes" where
  "taken (WOk k) bs = take k bs"
| "taken (WErr e) bs = []"

text \<open>One round fills all the entries of \<open>iovecs\<close> from the current position on; walking past the
  last chunk dereferences the end iterator. The bytes the kernel takes of every call are collected in \<open>wire\<close>.\<close>

fun write_rounds ::
  "nat \<Rightarrow> (bytes list \<Rightarrow> write_result) \<Rightarrow> nat \<Rightarrow> chunk list \<Rightarrow> usize \<Rightarrow> int option \<Rightarrow> bytes \<Rightarrow> (usize \<times> int option \<times> bytes) res" where
  "write_rounds 0 writev n cs ret err wire = Inr (ret, err, wire)"
| "write_rounds (Suc cnt) writev n cs ret err wire =
     (if length cs < n then Inl NullDeref
      else
        let iovecs = map Chunk_ToStringView (take n cs); wire = wire @ taken (writev iovecs) (concat iovecs) in
        (case writev iovecs of
          WOk k \<Rightarrow> write_rounds cnt writev n (drop n cs) (ret + of_nat k) err wire
        | WErr e \<Rightarrow> Inr (ret, Some e, wire)))"

text \<open>The result, the error number if it was set, and what the kernel took.\<close>

definition ChunkListWriteFd ::
  "(bytes \<Rightarrow> write_result) \<Rightarrow> (bytes list \<Rightarrow> write_result) \<Rightarrow> chunk_list \<Rightarrow> (usize \<times> int option \<times> bytes) res" where
  "ChunkListWriteFd write writev cl =
     (if ChunkList_GetChunkSize cl = 1 then
        let data = Chunk_ToStringView (hd (cl_buffers cl)); wire = taken (write data) data in
        (case write data of
           WOk k \<Rightarrow> Inr (of_nat k, None, wire)
         | WErr e \<Rightarrow> Inr (- 1, None, wire))
      else
        let n = ChunkList_GetChunkSize cl in
        write_rounds (RoundUpDivideIn2 n IOVEC_MAX) writev n (cl_buffers cl) 0 None [])"

section \<open>Invariant and contents\<close>

definition chunk_ok :: "chunk \<Rightarrow> bool" where
  "chunk_ok c \<longleftrightarrow> ck_max_size c = CHUNK_SIZE \<and> length (ck_buf c) = CHUNK_SIZE \<and>
     ck_read_index c \<le> ck_write_index c \<and> ck_write_index c \<le> CHUNK_SIZE"

definition free_ok :: "chunk \<Rightarrow> bool" where
  "free_ok c \<longleftrightarrow> chunk_ok c \<and> ck_read_index c = 0 \<and> ck_write_index c = 0"

text \<open>The chunks of the list hold data, only the first one may start above 0, and only the last
  one may end below 4096.\<close>

definition cl_ok :: "chunk_list \<Rightarrow> bool" where
  "cl_ok cl \<longleftrightarrow>
     (\<forall>c\<in>set (cl_free cl). free_ok c) \<and>
     (\<forall>c\<in>set (cl_buffers cl). chunk_ok c \<and> ck_read_index c < ck_write_index c) \<and>
     (\<forall>c\<in>set (tl (cl_buffers cl)). ck_read_index c = 0) \<and>
     (\<forall>c\<in>set (butlast (cl_buffers cl)). ck_write_index c = CHUNK_SIZE)"

definition cl_full :: "chunk_list \<Rightarrow> bool" where
  "cl_full cl \<longleftrightarrow> cl_ok cl \<and> (\<forall>c\<in>set (cl_buffers cl). ck_write_index c = CHUNK_SIZE)"

definition cl_content :: "chunk_list \<Rightarrow> bytes" where
  "cl_content cl = concat (map Chunk_ToStringView (cl_buffers cl))"

lemmas chunk_defs =
  Chunk_AdvanceRead_def Chunk_GetReadableSize_def Chunk_GetWritableSize_def Chunk_ToStringView_def
  Chunk_Reset_def Chunk_SetToHeader_def Chunk_IsHeaderInitState_def

lemma cl_ok_ChunkList [simp]: "cl_ok ChunkList" "cl_content ChunkList = []" "cl_buffers ChunkList = []"
  by (simp_all add: cl_ok_def ChunkList_def cl_content_def)

lemma cl_okD:
  assumes "cl_ok cl" "c \<in> set (cl_buffers cl)"
  shows "chunk_ok c" "ck_read_index c < ck_write_index c"
  using assms unfolding cl_ok_def by blast+

lemma cl_ok_middle:
  "cl_ok cl \<Longrightarrow> cl_buffers cl = c # ms @ [l] \<Longrightarrow> m \<in> set ms \<Longrightarrow>
   ck_read_index m = 0 \<and> ck_write_index m = CHUNK_SIZE"
  unfolding cl_ok_def by (auto simp: butlast_append)

lemma Chunk_Append_ok:
  assumes "chunk_ok c" "length xs \<le> Chunk_GetWritableSize c"
  shows "\<exists>c'. Chunk_Append c xs = Inr c' \<and> chunk_ok c' \<and> ck_read_index c' = ck_read_index c \<and>
    ck_write_index c' = ck_write_index c + length xs \<and>
    Chunk_ToStringView c' = Chunk_ToStringView c @ xs"
  using assms by (auto simp: Chunk_Append_def ck_store_def chunk_ok_def chunk_defs seg_put_at_extend)

lemma Chunk_view_length:
  "chunk_ok c \<Longrightarrow> length (Chunk_ToStringView c) = Chunk_GetReadableSize c"
  by (simp add: chunk_ok_def chunk_defs)

lemma Chunk_AdvanceRead_ok:
  assumes "chunk_ok c" "n < Chunk_GetReadableSize c"
  shows "\<exists>c'. Chunk_AdvanceRead c n = Inr c' \<and> chunk_ok c' \<and> ck_read_index c' < ck_write_index c' \<and>
    ck_write_index c' = ck_write_index c \<and> Chunk_ToStringView c' = drop n (Chunk_ToStringView c)"
proof -
  have "ck_read_index c + n < ck_write_index c"
    using assms by (simp add: chunk_ok_def chunk_defs)
  then show ?thesis
    using assms by (auto simp: chunk_ok_def chunk_defs seg_drop)
qed

lemma create_chunk_Inr: "create_chunk A n = Inr c \<Longrightarrow> free_ok c"
  by (auto simp: create_chunk_def free_ok_def chunk_ok_def split: if_splits)

lemma create_chunk_Inl: "create_chunk A n = Inl e \<Longrightarrow> e = BadAlloc \<and> \<not> ca_ok A n"
  by (auto simp: create_chunk_def split: if_splits)

lemma AddChunk_split:
  "ChunkList_AddChunk A cl =
     rbind (case cl_free cl of [] \<Rightarrow> create_chunk A (length (cl_buffers cl)) | c # _ \<Rightarrow> Inr c) (\<lambda>c.
       let c' = (if cl_buffers cl = [] then Chunk_SetToHeader c else c) in
       if cl_buffers cl = [] \<and> ck_max_size c \<noteq> CHUNK_SIZE then Inl AssertFail
       else Inr \<lparr>cl_buffers = cl_buffers cl @ [c'], cl_free = tl (cl_free cl)\<rparr>)"
  by (auto simp: ChunkList_AddChunk_def chunk_defs Let_def rbind_def assertR_def split: list.split sum.split)

lemma AddChunk_Inr:
  assumes "\<forall>c\<in>set (cl_free cl). free_ok c" "ChunkList_AddChunk A cl = Inr cl'"
  shows "\<exists>c. cl_buffers cl' = cl_buffers cl @ [c] \<and> chunk_ok c \<and>
    ck_read_index c = (if cl_buffers cl = [] then 8 else 0) \<and> ck_write_index c = ck_read_index c \<and>
    cl_free cl' = tl (cl_free cl)"
  using assms create_chunk_Inr [of A "length (cl_buffers cl)"]
  by (cases "cl_free cl"; cases "create_chunk A (length (cl_buffers cl))")
     (auto simp: AddChunk_split Let_def free_ok_def chunk_ok_def Chunk_SetToHeader_def split: if_splits)

lemma AddChunk_Inl:
  assumes "\<forall>c\<in>set (cl_free cl). free_ok c" "ChunkList_AddChunk A cl = Inl e"
  shows "e = BadAlloc \<and> (\<exists>n. \<not> ca_ok A n) \<and> cl_free cl = []"
  using assms create_chunk_Inr [of A "length (cl_buffers cl)"] create_chunk_Inl [of A "length (cl_buffers cl)"]
  by (cases "cl_free cl"; cases "create_chunk A (length (cl_buffers cl))")
     (auto simp: AddChunk_split Let_def free_ok_def chunk_ok_def split: if_splits)

section \<open>The chunk list is a byte queue\<close>

lemma cl_content_snoc:
  "cl_buffers cl' = cl_buffers cl @ [c] \<Longrightarrow> cl_content cl' = cl_content cl @ Chunk_ToStringView c"
  by (simp add: cl_content_def)

lemma cl_full_snoc:
  assumes "cl_full cl" "cl_buffers cl' = cl_buffers cl @ [c]" "chunk_ok c"
    "ck_read_index c < ck_write_index c" "cl_buffers cl \<noteq> [] \<longrightarrow> ck_read_index c = 0"
    "set (cl_free cl') \<subseteq> set (cl_free cl)"
  shows "cl_ok cl'" "ck_write_index c = CHUNK_SIZE \<Longrightarrow> cl_full cl'"
  using assms by (cases "cl_buffers cl"; fastforce simp: cl_full_def cl_ok_def)+

text \<open>Where the data of the first chunk starts, or will start.\<close>

definition front_index :: "chunk_list \<Rightarrow> nat" where
  "front_index cl = (case cl_buffers cl of [] \<Rightarrow> HEADER_SIZE | c # _ \<Rightarrow> ck_read_index c)"

text \<open>The room in the last chunk, and what a new first chunk keeps for the header.\<close>

definition tail_room :: "chunk_list \<Rightarrow> nat" where
  "tail_room cl = (if cl_buffers cl = [] then 0 else Chunk_GetWritableSize (last (cl_buffers cl)))"

definition header_room :: "chunk_list \<Rightarrow> nat" where
  "header_room cl = (if cl_buffers cl = [] then HEADER_SIZE else 0)"

text \<open>Outcome of an append: the allocation fails, which it does only when the last chunk and the
  free chunks have not the room, or the bytes are at the end and the front is where it was.\<close>

definition append_post :: "chunk_alloc \<Rightarrow> chunk_list \<Rightarrow> bytes \<Rightarrow> chunk_list res \<Rightarrow> bool" where
  "append_post A cl xs r = (case r of
      Inl e \<Rightarrow> e = BadAlloc \<and> (\<exists>n. \<not> ca_ok A n) \<and> length (cl_free cl) * CHUNK_SIZE + tail_room cl < length xs + header_room cl
    | Inr cl' \<Rightarrow> cl_ok cl' \<and> cl_content cl' = cl_content cl @ xs \<and> front_index cl' = front_index cl)"

lemma front_index_snoc:
  assumes "cl_buffers cl' = cl_buffers cl @ [c]" "cl_buffers cl = [] \<Longrightarrow> ck_read_index c = HEADER_SIZE"
  shows "front_index cl' = front_index cl"
  using assms by (simp add: front_index_def split: list.split)

lemma append_postI_Inr:
  "append_post A cl xs r \<Longrightarrow> \<forall>n. ca_ok A n \<Longrightarrow>
   \<exists>cl'. r = Inr cl' \<and> cl_ok cl' \<and> cl_content cl' = cl_content cl @ xs \<and> front_index cl' = front_index cl"
  by (auto simp: append_post_def split: sum.splits)

lemma tail_room_full: "cl_full cl \<Longrightarrow> tail_room cl = 0"
  by (simp add: tail_room_def cl_full_def cl_ok_def chunk_ok_def Chunk_GetWritableSize_def)

text \<open>One round of the loop: a new last chunk takes as much as fits.\<close>

lemma add_append_step:
  assumes "cl_full cl" "buf \<noteq> []" "ChunkList_AddChunk A cl = Inr cl1"
    and w: "w = Chunk_GetWritableSize (last (cl_buffers cl1))"
  shows "0 < w \<and> w + header_room cl = CHUNK_SIZE \<and> length (cl_free cl1) = length (cl_free cl) - 1 \<and>
    (\<exists>c'. Chunk_Append (last (cl_buffers cl1)) (take w buf) = Inr c' \<and>
    cl_ok (set_last c' cl1) \<and> (w \<le> length buf \<longrightarrow> cl_full (set_last c' cl1)) \<and>
    cl_content (set_last c' cl1) = cl_content cl @ take w buf \<and> front_index (set_last c' cl1) = front_index cl)"
proof -
  have free: "\<forall>c\<in>set (cl_free cl). free_ok c"
    using assms(1) by (simp add: cl_full_def cl_ok_def)
  from AddChunk_Inr [OF free assms(3)] obtain c where c: "cl_buffers cl1 = cl_buffers cl @ [c]" "chunk_ok c"
    "ck_read_index c = (if cl_buffers cl = [] then 8 else 0)" "ck_write_index c = ck_read_index c"
    "cl_free cl1 = tl (cl_free cl)" by blast
  have sub: "set (cl_free cl1) \<subseteq> set (cl_free cl)"
    using c(5) by (cases "cl_free cl") auto
  have w': "0 < w" "ck_write_index c + w = CHUNK_SIZE" "w = Chunk_GetWritableSize c"
    using c(1-4) w by (auto simp: Chunk_GetWritableSize_def chunk_ok_def)
  have len: "length (take w buf) \<le> Chunk_GetWritableSize c" by (simp add: w'(3))
  from Chunk_Append_ok [OF c(2) len] obtain c' where c':
    "Chunk_Append c (take w buf) = Inr c'" "chunk_ok c'" "ck_read_index c' = ck_read_index c"
    "ck_write_index c' = ck_write_index c + length (take w buf)"
    "Chunk_ToStringView c' = take w buf" using c(4) by (auto simp: Chunk_ToStringView_def)
  have b: "cl_buffers (set_last c' cl1) = cl_buffers cl @ [c']" using c(1) by simp
  show ?thesis
    using c' c(1,3,4,5) w' assms(2) cl_full_snoc [OF assms(1) b c'(2)] sub cl_content_snoc [OF b]
      front_index_snoc [OF b]
    by (auto simp: min_def header_room_def)
qed

lemma append_loop_ok:
  "cl_full cl \<Longrightarrow> buf \<noteq> [] \<or> cl_buffers cl \<noteq> [] \<Longrightarrow>
   \<exists>r. append_loop A cl buf = Some r \<and> append_post A cl buf r"
proof (induction "length buf" arbitrary: cl buf rule: less_induct)
  case less
  consider "buf = []" | e where "buf \<noteq> []" "ChunkList_AddChunk A cl = Inl e"
    | cl1 where "buf \<noteq> []" "ChunkList_AddChunk A cl = Inr cl1"
    by (metis old.sum.exhaust)
  then show ?case
  proof cases
    case 1
    then show ?thesis
      using less.prems
      by (subst append_loop.simps)
         (auto simp: cl_full_def ChunkList_GetLastChunk_def Chunk_GetWritableSize_def append_post_def cl_ok_def chunk_ok_def)
  next
    case 2
    then show ?thesis
      using less.prems(1) AddChunk_Inl [OF _ 2(2)] tail_room_full [OF less.prems(1)]
      by (subst append_loop.simps) (simp add: append_post_def cl_full_def cl_ok_def)
  next
    case 3
    define w where "w = Chunk_GetWritableSize (last (cl_buffers cl1))"
    from add_append_step [OF less.prems(1) 3 w_def] obtain c' where w: "0 < w"
      "w + header_room cl = CHUNK_SIZE" "length (cl_free cl1) = length (cl_free cl) - 1" and
      c': "Chunk_Append (last (cl_buffers cl1)) (take w buf) = Inr c'" "cl_ok (set_last c' cl1)"
        "w \<le> length buf \<Longrightarrow> cl_full (set_last c' cl1)"
        "cl_content (set_last c' cl1) = cl_content cl @ take w buf"
        "front_index (set_last c' cl1) = front_index cl" by blast
    show ?thesis
    proof (cases "w \<le> length buf")
      case True
      have "\<exists>r. append_loop A (set_last c' cl1) (drop w buf) = Some r \<and>
          append_post A (set_last c' cl1) (drop w buf) r"
        by (rule less.hyps) (use True 3(1) w(1) c'(3) in auto)
      then obtain r where r: "append_loop A (set_last c' cl1) (drop w buf) = Some r"
          "append_post A (set_last c' cl1) (drop w buf) r" by blast
      have "append_loop A cl buf = Some r"
        using True 3 c'(1) r(1) by (subst append_loop.simps) (simp add: w_def)
      then show ?thesis
        using r(2) c'(4,5) w(2,3) True tail_room_full [OF less.prems(1)] tail_room_full [OF c'(3) [OF True]]
        by (cases "cl_free cl") (auto simp: append_post_def header_room_def split: sum.splits)
    next
      case False
      have "append_loop A cl buf = Some (Inr (set_last c' cl1))"
        using False 3 c'(1) by (subst append_loop.simps) (simp add: w_def)
      then show ?thesis
        using False c'(2,4,5) by (simp add: append_post_def)
    qed
  qed
qed

lemma cl_ok_snocE:
  assumes "cl_ok cl" "cl_buffers cl \<noteq> []"
  obtains cl0 c where "cl_buffers cl = cl_buffers cl0 @ [c]" "cl_free cl0 = cl_free cl" "cl_full cl0"
    "chunk_ok c" "ck_read_index c < ck_write_index c" "cl_buffers cl0 \<noteq> [] \<longrightarrow> ck_read_index c = 0"
    "last (cl_buffers cl) = c" "butlast (cl_buffers cl) = cl_buffers cl0"
proof -
  define cl0 where "cl0 = cl\<lparr>cl_buffers := butlast (cl_buffers cl)\<rparr>"
  from assms(2) obtain cs c where cs: "cl_buffers cl = cs @ [c]" by (meson rev_exhaust)
  show thesis
  proof (rule that [of cl0 c])
    show "cl_full cl0" "cl_buffers cl0 \<noteq> [] \<longrightarrow> ck_read_index c = 0"
      using assms(1) cs by (cases cs; auto simp: cl0_def cl_full_def cl_ok_def dest: in_set_butlastD)+
  qed (use assms(1) cs in \<open>auto simp: cl0_def cl_ok_def\<close>)
qed

lemma ChunkList_Append_post:
  assumes "cl_ok cl" "buf \<noteq> [] \<or> cl_buffers cl \<noteq> []"
  shows "append_post A cl buf (ChunkList_Append A cl buf)"
proof (cases "cl_buffers cl \<noteq> [] \<and> 0 < Chunk_GetWritableSize (last (cl_buffers cl))")
  case False
  then have "cl_full cl"
    using assms(1) by (cases "cl_buffers cl" rule: rev_cases)
      (auto simp: cl_full_def cl_ok_def Chunk_GetWritableSize_def chunk_ok_def)
  from append_loop_ok [OF this assms(2), of A] False show ?thesis
    by (auto simp: ChunkList_Append_def)
next
  case True
  with cl_ok_snocE [OF assms(1)] obtain cl0 c where c: "cl_buffers cl = cl_buffers cl0 @ [c]"
    "cl_free cl0 = cl_free cl" "cl_full cl0" "chunk_ok c" "ck_read_index c < ck_write_index c"
    "cl_buffers cl0 \<noteq> [] \<longrightarrow> ck_read_index c = 0" "last (cl_buffers cl) = c" "butlast (cl_buffers cl) = cl_buffers cl0"
    by metis
  define w where "w = Chunk_GetWritableSize c"
  have w: "0 < w" "ck_write_index c + w = CHUNK_SIZE"
    using True c(4,7) by (auto simp: w_def Chunk_GetWritableSize_def chunk_ok_def)
  obtain c' where c': "Chunk_Append c (take w buf) = Inr c'" "chunk_ok c'"
    "ck_read_index c' = ck_read_index c" "ck_write_index c' = ck_write_index c + length (take w buf)"
    "Chunk_ToStringView c' = Chunk_ToStringView c @ take w buf"
    using Chunk_Append_ok [OF c(4), of "take w buf"] by (auto simp: w_def)
  define cl1 where "cl1 = set_last c' cl"
  have b: "cl_buffers cl1 = cl_buffers cl0 @ [c']" by (simp add: cl1_def c)
  have cont: "cl_content cl1 = cl_content cl @ take w buf"
    using cl_content_snoc [OF b] cl_content_snoc [OF c(1)] c'(5) by simp
  have front: "front_index cl1 = front_index cl"
    using b c(1) c'(3) by (cases "cl_buffers cl0") (simp_all add: front_index_def)
  have ok: "cl_ok cl1" "w \<le> length buf \<Longrightarrow> cl_full cl1"
    using cl_full_snoc [OF c(3) b c'(2)] c'(3,4) c(2,5,6) w by (auto simp: cl1_def)
  show ?thesis
  proof (cases "length buf \<le> w")
    case len: True
    then show ?thesis
      using True c' c(1,7,8) ok(1) cont front c(4) c'(2)
      by (auto simp: ChunkList_Append_def Let_def w_def [symmetric] append_post_def cl1_def)
         (auto simp: Chunk_GetWritableSize_def chunk_ok_def w_def)
  next
    case len: False
    have "\<exists>r. append_loop A cl1 (drop w buf) = Some r \<and> append_post A cl1 (drop w buf) r"
      by (rule append_loop_ok) (use len ok(2) b in auto)
    then obtain r where r: "append_loop A cl1 (drop w buf) = Some r" "append_post A cl1 (drop w buf) r"
      by blast
    have "ChunkList_Append A cl buf = r"
      using True len c'(1) r(1) c(7) by (simp add: ChunkList_Append_def Let_def w_def [symmetric] cl1_def)
    then show ?thesis
      using r(2) cont front ok(2) len b c(1,7) True tail_room_full [of cl1]
      by (auto simp: append_post_def tail_room_def header_room_def w_def cl1_def split: sum.splits)
  qed
qed

lemma cl_ok_recycle:
  assumes "cl_ok cl" "cl_buffers cl = c # cs" "free_ok d"
  shows "cl_ok (cl\<lparr>cl_buffers := cs, cl_free := d # cl_free cl\<rparr>)"
proof -
  have "set (tl cs) \<subseteq> set cs" "set (butlast cs) \<subseteq> set (butlast (c # cs))"
    by (cases cs; simp add: subset_iff)+
  then show ?thesis
    using assms unfolding cl_ok_def by (intro conjI ballI) (auto simp del: butlast.simps)
qed

lemma cl_ok_first:
  assumes "cl_ok cl" "cl_buffers cl = c # cs" "chunk_ok d" "ck_read_index d < ck_write_index d"
    "ck_write_index d = ck_write_index c"
  shows "cl_ok (cl\<lparr>cl_buffers := d # cs\<rparr>)"
  using assms unfolding cl_ok_def by (intro conjI ballI) (auto split: if_splits)

lemma advance_loop_ok:
  "cl_ok cl \<Longrightarrow> \<exists>cl'. advance_loop cl n = Some (Inr cl') \<and> cl_ok cl' \<and> cl_content cl' = drop n (cl_content cl)"
proof (induction "cl_buffers cl" arbitrary: cl n)
  case Nil
  then show ?case by (subst advance_loop.simps) (simp add: cl_content_def)
next
  case (Cons c cs)
  from Cons(2) [symmetric] Cons.prems have c: "chunk_ok c" "cl_content cl = Chunk_ToStringView c @ concat (map Chunk_ToStringView cs)"
    by (auto simp: cl_ok_def cl_content_def)
  define cl1 where "cl1 = cl\<lparr>cl_buffers := cs, cl_free := Chunk_Reset c # cl_free cl\<rparr>"
  have put: "ChunkList_PutToFreeChunk cl = Inr (True, cl1)"
    using Cons(2) [symmetric] c(1)
    by (simp add: ChunkList_PutToFreeChunk_def ChunkList_GetFirstChunk_def cl1_def chunk_ok_def)
  have ok1: "cl_ok cl1"
    unfolding cl1_def using Cons.prems Cons(2) [symmetric]
    by (rule cl_ok_recycle) (use c(1) in \<open>simp add: free_ok_def chunk_ok_def Chunk_Reset_def\<close>)
  have cs1: "cs = cl_buffers cl1" "cl_content cl1 = concat (map Chunk_ToStringView cs)"
    by (simp_all add: cl1_def cl_content_def)
  show ?case
  proof (cases "Chunk_GetReadableSize c \<le> n")
    case True
    have "advance_loop cl n = advance_loop cl1 (n - Chunk_GetReadableSize c)"
      using True Cons(2) [symmetric] put by (subst advance_loop.simps) simp
    then show ?thesis
      using Cons(1) [OF cs1(1) ok1, of "n - Chunk_GetReadableSize c"] c cs1(2) True
      by (simp add: Chunk_view_length)
  next
    case False
    with Chunk_AdvanceRead_ok [OF c(1), of n] obtain c' where c': "Chunk_AdvanceRead c n = Inr c'"
      "chunk_ok c'" "ck_read_index c' < ck_write_index c'" "ck_write_index c' = ck_write_index c"
      "Chunk_ToStringView c' = drop n (Chunk_ToStringView c)" by auto
    define cl2 where "cl2 = cl\<lparr>cl_buffers := c' # cs\<rparr>"
    have "advance_loop cl n = Some (Inr cl2)"
      using False Cons(2) [symmetric] c'(1) by (subst advance_loop.simps) (simp add: cl2_def)
    moreover have "cl_ok cl2"
      unfolding cl2_def using Cons.prems Cons(2) [symmetric] by (rule cl_ok_first) (use c'(2-4) in simp_all)
    ultimately show ?thesis
      using False c c'(5) by (simp add: cl2_def cl_content_def Chunk_view_length)
  qed
qed

lemma ChunkList_AdvanceRead_ok:
  "cl_ok cl \<Longrightarrow> \<exists>cl'. ChunkList_AdvanceRead cl n = Inr cl' \<and> cl_ok cl' \<and> cl_content cl' = drop n (cl_content cl)"
  using advance_loop_ok [of cl n] by (auto simp: ChunkList_AdvanceRead_def)

interpretation cl_queue: byte_queue cl_ok cl_content "ChunkList_Append A" ChunkList_AdvanceRead
  "\<lambda>xs. xs \<noteq> []" "\<lambda>e. e = BadAlloc \<and> (\<exists>n. \<not> ca_ok A n)" for A
  using ChunkList_Append_post [of _ _ A] ChunkList_AdvanceRead_ok
  by unfold_locales (fastforce simp: append_post_def)+

section \<open>Sizes\<close>

lemma length_cl_content:
  "cl_ok cl \<Longrightarrow> length (cl_content cl) = sum_list (map Chunk_GetReadableSize (cl_buffers cl))"
  unfolding cl_content_def length_concat map_map
  by (rule arg_cong [where f = sum_list], rule map_cong) (simp_all add: cl_okD Chunk_view_length)

lemma sum_full_chunks:
  "\<forall>c\<in>set cs. ck_read_index c = 0 \<and> ck_write_index c = CHUNK_SIZE \<Longrightarrow>
   sum_list (map Chunk_GetReadableSize cs) = length cs * CHUNK_SIZE"
proof (induction cs)
  case (Cons c cs)
  have "Chunk_GetReadableSize c = CHUNK_SIZE"
    using Cons.prems by (simp add: Chunk_GetReadableSize_def)
  moreover have "sum_list (map Chunk_GetReadableSize cs) = length cs * CHUNK_SIZE"
    by (rule Cons.IH) (use Cons.prems in simp)
  ultimately show ?case by simp
qed simp

lemma GetReadableSize_ok:
  assumes "cl_ok cl"
  shows "ChunkList_GetReadableSize cl = length (cl_content cl)"
proof -
  consider "cl_buffers cl = []" | c where "cl_buffers cl = [c]" | c d where "cl_buffers cl = [c, d]"
    | c d ms l where "cl_buffers cl = c # d # ms @ [l]"
    by (metis append_butlast_last_id list.exhaust)
  then show ?thesis
  proof cases
    case 4
    have "\<forall>m\<in>set ms. ck_read_index m = 0 \<and> ck_write_index m = CHUNK_SIZE"
      by (intro ballI, rule cl_ok_middle [OF assms, of c "d # ms" l]) (use 4 in simp_all)
    from sum_full_chunks [OF this] show ?thesis
      using 4 by (cases ms) (simp_all add: length_cl_content [OF assms] ChunkList_GetReadableSize_def)
  qed (simp_all add: length_cl_content [OF assms] ChunkList_GetReadableSize_def)
qed

lemma HasReadable_ok:
  assumes "cl_ok cl"
  shows "ChunkList_HasReadable cl \<longleftrightarrow> cl_content cl \<noteq> []"
proof (cases "cl_buffers cl")
  case (Cons c cs)
  then have "0 < Chunk_GetReadableSize c" "chunk_ok c"
    using cl_okD [OF assms, of c] by (auto simp: Chunk_GetReadableSize_def)
  then have "Chunk_ToStringView c \<noteq> []"
    by (metis Chunk_view_length length_greater_0_conv)
  then show ?thesis
    using Cons by (simp add: ChunkList_HasReadable_def ChunkList_IsEmpty_def cl_content_def)
qed (simp add: ChunkList_HasReadable_def ChunkList_IsEmpty_def cl_content_def)

text \<open>Reading past the end is no error: everything is consumed.\<close>

lemma AdvanceReadAll_ok:
  "cl_ok cl \<Longrightarrow> \<exists>cl'. ChunkList_AdvanceReadAll cl = Inr cl' \<and> cl_ok cl' \<and> cl_content cl' = []"
  using ChunkList_AdvanceRead_ok [of cl "ChunkList_GetReadableSize cl"]
  by (simp add: ChunkList_AdvanceReadAll_def GetReadableSize_ok)

section \<open>Headers and integers\<close>

lemma Chunk_Prepend_ok:
  assumes "chunk_ok c" "HEADER_SIZE \<le> ck_read_index c" "length xs \<le> HEADER_SIZE"
  shows "\<exists>c'. Chunk_Prepend c xs = Inr c' \<and> chunk_ok c' \<and> ck_read_index c' = ck_read_index c - length xs \<and>
    ck_write_index c' = ck_write_index c \<and> Chunk_ToStringView c' = xs @ Chunk_ToStringView c"
proof -
  define r where "r = ck_read_index c - length xs"
  have r: "r + length xs = ck_read_index c" using assms(2,3) by (simp add: r_def)
  have le: "r + length xs \<le> length (ck_buf c)" using assms(1) r by (simp add: chunk_ok_def)
  have "seg r (ck_write_index c) (put_at r xs (ck_buf c)) =
      seg r (r + length xs) (put_at r xs (ck_buf c)) @ seg (r + length xs) (ck_write_index c) (put_at r xs (ck_buf c))"
    using assms(1) r by (intro seg_split) (simp_all add: chunk_ok_def)
  also have "\<dots> = xs @ seg (ck_read_index c) (ck_write_index c) (ck_buf c)"
    using le seg_put_at_self [OF le] seg_put_at_after [OF order_refl le] by (simp add: r)
  finally show ?thesis
    using assms le by (auto simp: Chunk_Prepend_def ck_store_def chunk_ok_def Chunk_ToStringView_def r_def)
qed

lemma ChunkList_Prepend_ok:
  assumes "cl_ok cl" "cl_buffers cl \<noteq> []" "HEADER_SIZE \<le> front_index cl" "length xs \<le> HEADER_SIZE"
  shows "\<exists>cl'. ChunkList_Prepend A cl xs = Inr cl' \<and> cl_ok cl' \<and> cl_buffers cl' \<noteq> [] \<and>
    length xs \<le> Chunk_GetReadableSize (hd (cl_buffers cl')) \<and> cl_content cl' = xs @ cl_content cl"
proof -
  obtain c cs where c: "cl_buffers cl = c # cs" using assms(2) by (cases "cl_buffers cl") auto
  have "chunk_ok c" "ck_read_index c < ck_write_index c" "HEADER_SIZE \<le> ck_read_index c"
    using cl_okD [OF assms(1), of c] assms(3) c by (auto simp: front_index_def)
  with Chunk_Prepend_ok [OF this(1,3) assms(4)] obtain c' where c': "Chunk_Prepend c xs = Inr c'" "chunk_ok c'"
    "ck_read_index c' < ck_write_index c'" "ck_write_index c' = ck_write_index c"
    "Chunk_ToStringView c' = xs @ Chunk_ToStringView c" by fastforce
  have "ChunkList_Prepend A cl xs = Inr (cl\<lparr>cl_buffers := c' # cs\<rparr>)"
    using c c'(1) by (simp add: ChunkList_Prepend_def)
  moreover have "cl_ok (cl\<lparr>cl_buffers := c' # cs\<rparr>)"
    using assms(1) c by (rule cl_ok_first) (use c'(2-4) in simp_all)
  ultimately show ?thesis
    using c c'(5) Chunk_view_length [OF c'(2)] by (simp add: cl_content_def)
qed

text \<open>An integer is read when the first chunk holds all of its bytes; one that two chunks share fails
  the assertion, however much the list holds.\<close>

lemma cl_peek_ok:
  assumes "cl_ok cl" "cl_buffers cl \<noteq> []" "n \<le> Chunk_GetReadableSize (hd (cl_buffers cl))"
  shows "cl_peek cl n = Inr (take n (cl_content cl))"
proof -
  obtain c cs where c: "cl_buffers cl = c # cs" using assms(2) by (cases "cl_buffers cl") auto
  have "n \<le> length (Chunk_ToStringView c)"
    using assms(3) c Chunk_view_length [OF cl_okD(1) [OF assms(1)], of c] by simp
  then show ?thesis
    using assms(3) c by (simp add: cl_peek_def ChunkList_GetFirstChunk_def cl_content_def)
qed

lemma cl_peek_split:
  "cl_buffers cl \<noteq> [] \<Longrightarrow> Chunk_GetReadableSize (hd (cl_buffers cl)) < n \<Longrightarrow> cl_peek cl n = Inl AssertFail"
  by (simp add: cl_peek_def ChunkList_GetFirstChunk_def)

lemma cl_read_prefix:
  assumes "cl_ok cl" "cl_buffers cl \<noteq> []" "length xs \<le> Chunk_GetReadableSize (hd (cl_buffers cl))"
    "cl_content cl = xs @ rest"
  shows "\<exists>cl'. cl_peek cl (length xs) = Inr xs \<and> ChunkList_AdvanceRead cl (length xs) = Inr cl' \<and>
    cl_ok cl' \<and> cl_content cl' = rest"
  using cl_peek_ok [OF assms(1-3)] ChunkList_AdvanceRead_ok [OF assms(1), of "length xs"] assms(4) by auto

section \<open>Reservation\<close>

lemma push_fresh_Inr:
  "push_fresh A n cs = Inr ds \<Longrightarrow> length ds = length cs + n \<and> (\<exists>fs. ds = cs @ fs \<and> (\<forall>c\<in>set fs. free_ok c))"
  by (induction A n cs rule: push_fresh.induct) (fastforce dest: create_chunk_Inr)+

lemma missing_space_full:
  assumes "\<forall>c\<in>set cs. chunk_ok c \<and> ck_write_index c = CHUNK_SIZE"
  shows "missing_space (cs @ [c]) sz =
    (if sz \<le> Chunk_GetWritableSize c \<or> (cs \<noteq> [] \<and> sz = 0) then None else Some (sz - Chunk_GetWritableSize c))"
  using assms
proof (induction cs)
  case (Cons d cs)
  have "Chunk_GetWritableSize d = 0"
    using Cons.prems by (simp add: Chunk_GetWritableSize_def chunk_ok_def)
  moreover have "missing_space (cs @ [c]) sz = (if sz \<le> Chunk_GetWritableSize c \<or> cs \<noteq> [] \<and> sz = 0
      then None else Some (sz - Chunk_GetWritableSize c))"
    by (rule Cons.IH) (use Cons.prems in simp)
  ultimately show ?case by simp
qed simp

lemma ReserveWriteSpace_content:
  assumes "cl_ok cl" "ChunkList_ReserveWriteSpace A cl sz = Inr cl'"
  shows "cl_ok cl' \<and> cl_buffers cl' = cl_buffers cl \<and>
    (\<forall>k. missing_space (cl_buffers cl) sz = Some k \<longrightarrow> k \<le> length (cl_free cl') * CHUNK_SIZE)"
proof (cases "missing_space (cl_buffers cl) sz")
  case None
  then show ?thesis using assms by (simp add: ChunkList_ReserveWriteSpace_def)
next
  case (Some k)
  define n where "n = (k - 1) div 4096 + 1"
  have up: "k \<le> n * CHUNK_SIZE"
    using div_mult_mod_eq [of "k - 1" 4096] mod_less_divisor [of 4096 "k - 1"] by (simp add: n_def)
  have res: "ChunkList_ReserveFreeChunk A cl n = Inr cl'"
    using assms(2) Some by (auto simp: ChunkList_ReserveWriteSpace_def n_def)
  show ?thesis
  proof (cases "n \<le> length (cl_free cl)")
    case True
    then show ?thesis
      using res assms(1) Some up mult_le_mono1 [OF True, of CHUNK_SIZE]
      by (simp add: ChunkList_ReserveFreeChunk_def)
  next
    case False
    then obtain cs where cs: "push_fresh A (n - length (cl_free cl)) (cl_free cl) = Inr cs"
        "cl' = cl\<lparr>cl_free := cs\<rparr>"
      using res by (auto simp: ChunkList_ReserveFreeChunk_def)
    from push_fresh_Inr [OF cs(1)] False have "length cs = n" "set cs \<subseteq> set (cl_free cl) \<union> {c. free_ok c}"
      by auto
    then show ?thesis
      using assms(1) Some up cs(2) unfolding cl_ok_def by auto
  qed
qed

lemma ReserveWriteSpace_room:
  assumes "cl_ok cl" "cl_buffers cl \<noteq> []" "ChunkList_ReserveWriteSpace A cl sz = Inr cl'"
  shows "sz \<le> length (cl_free cl') * CHUNK_SIZE + tail_room cl'"
proof -
  from cl_ok_snocE [OF assms(1,2)] obtain cl0 c where c: "cl_buffers cl = cl_buffers cl0 @ [c]" "cl_full cl0"
    by metis
  then have "\<forall>c\<in>set (cl_buffers cl0). chunk_ok c \<and> ck_write_index c = CHUNK_SIZE"
    by (simp add: cl_full_def cl_ok_def)
  from missing_space_full [OF this, of c sz] ReserveWriteSpace_content [OF assms(1,3)] c(1) show ?thesis
    by (auto simp: tail_room_def split: if_splits)
qed

lemma push_fresh_one: "push_fresh A 1 cs = rbind (create_chunk A (length cs)) (\<lambda>c. Inr (cs @ [c]))"
  by (simp add: One_nat_def)

lemma ReserveWriteSpace_empty:
  assumes "ChunkList_ReserveWriteSpace A ChunkList 4096 = Inr cl"
  shows "\<exists>c. cl = \<lparr>cl_buffers = [], cl_free = [c]\<rparr> \<and> free_ok c"
proof -
  have "ChunkList_ReserveWriteSpace A ChunkList 4096 =
      rbind (push_fresh A 1 []) (\<lambda>cs. Inr (ChunkList\<lparr>cl_free := cs\<rparr>))"
    by (simp add: ChunkList_ReserveWriteSpace_def ChunkList_ReserveFreeChunk_def ChunkList_def del: push_fresh.simps)
  then show ?thesis
    using assms create_chunk_Inr [of A 0] unfolding push_fresh_one by (auto simp: ChunkList_def)
qed

text \<open>On an empty list the reservation forgets the header: of one reserved chunk 4088 bytes are left,
  and an append of the reserved size needs another chunk.\<close>

lemma ReserveWriteSpace_short_of_header:
  assumes "ChunkList_ReserveWriteSpace A ChunkList 4096 = Inr cl" "length xs = 4096" "\<not> ca_ok B 1"
  shows "ChunkList_Append B cl xs = Inl BadAlloc"
proof -
  obtain c where c: "cl = \<lparr>cl_buffers = [], cl_free = [c]\<rparr>" "free_ok c"
    using ReserveWriteSpace_empty [OF assms(1)] by blast
  define h where "h = Chunk_SetToHeader c"
  have h: "chunk_ok h" "Chunk_GetWritableSize h = 4088"
    using c(2) by (simp_all add: h_def Chunk_SetToHeader_def free_ok_def chunk_ok_def Chunk_GetWritableSize_def)
  obtain h' where h': "Chunk_Append h (take 4088 xs) = Inr h'"
    using Chunk_Append_ok [OF h(1), of "take 4088 xs"] h(2) by auto
  have add: "ChunkList_AddChunk B cl = Inr \<lparr>cl_buffers = [h], cl_free = []\<rparr>"
    using c by (simp add: AddChunk_split h_def free_ok_def chunk_ok_def)
  have stop: "ChunkList_AddChunk B \<lparr>cl_buffers = [h'], cl_free = []\<rparr> = Inl BadAlloc"
    using assms(3) by (simp add: AddChunk_split create_chunk_def)
  have ne: "xs \<noteq> []" "drop 4088 xs \<noteq> []" using assms(2) by auto
  have "append_loop B \<lparr>cl_buffers = [h'], cl_free = []\<rparr> (drop 4088 xs) = Some (Inl BadAlloc)"
    using stop ne(2) by (subst append_loop.simps) simp
  then have "append_loop B cl xs = Some (Inl BadAlloc)"
    using add ne(1) h(2) h' assms(2) by (subst append_loop.simps) simp
  then show ?thesis using c(1) by (simp add: ChunkList_Append_def)
qed

text \<open>\<open>ReserveChunk\<close> puts empty chunks into the list of data: the sizes are wrong from then on.\<close>

lemma ReserveChunk_breaks_sizes:
  assumes "ChunkList_ReserveChunk A ChunkList n = Inr cl" "3 < n"
  shows "cl_content cl = [] \<and> ChunkList_GetReadableSize cl = (n - 3) * CHUNK_SIZE \<and> ChunkList_HasReadable cl"
proof -
  obtain cs where cs: "push_fresh A n [] = Inr cs" "cl = ChunkList\<lparr>cl_buffers := cs\<rparr>"
    using assms(1) by (auto simp: ChunkList_ReserveChunk_def ChunkList_def)
  have len: "length cs = n" and emp: "\<And>c. c \<in> set cs \<Longrightarrow> free_ok c"
    using push_fresh_Inr [OF cs(1)] by auto
  from len assms(2) obtain a b d ds where ds: "cs = a # b # d # ds"
    by (metis One_nat_def Suc_length_conv less_imp_Suc_add numeral_3_eq_3 plus_nat.simps(2))
  have "Chunk_ToStringView c = []" "Chunk_GetReadableSize c = 0" if "c \<in> set cs" for c
    using emp [OF that] by (simp_all add: free_ok_def Chunk_ToStringView_def Chunk_GetReadableSize_def)
  moreover have "last (d # ds) \<in> set cs" using ds by simp
  ultimately show ?thesis
    using ds len cs(2)
    by (auto simp: cl_content_def ChunkList_GetReadableSize_def ChunkList_HasReadable_def ChunkList_IsEmpty_def)
qed

text \<open>A clone has no padding buffers: the next append writes out of bounds.\<close>

lemma Clone_has_no_buffers:
  assumes "cl_ok cl" "cl_buffers cl \<noteq> []" "xs \<noteq> []" "length xs \<le> tail_room cl"
  shows "ChunkList_Append A (ChunkList_Clone cl) xs = Inl OutOfBounds"
proof -
  define c where "c = (last (cl_buffers cl))\<lparr>ck_buf := []\<rparr>"
  have last: "last (cl_buffers (ChunkList_Clone cl)) = c" "cl_buffers (ChunkList_Clone cl) \<noteq> []"
    using assms(2) by (simp_all add: ChunkList_Clone_def last_map c_def)
  have room: "Chunk_GetWritableSize c = tail_room cl"
    using assms(2) by (simp add: c_def tail_room_def Chunk_GetWritableSize_def)
  then have "Chunk_Append c xs = Inl OutOfBounds"
    using assms(3,4) by (simp add: Chunk_Append_def ck_store_def) (simp add: c_def)
  then show ?thesis
    using last room assms(3,4) by (cases "tail_room cl = 0") (simp_all add: ChunkList_Append_def)
qed

lemma Append_nothing:
  assumes "cl_ok cl"
  shows "if cl_content cl = [] then ChunkList_Append A cl [] = Inl AssertFail
         else \<exists>cl'. ChunkList_Append A cl [] = Inr cl' \<and> cl_ok cl' \<and> cl_content cl' = cl_content cl"
proof (cases "cl_content cl = []")
  case True
  then have "cl_buffers cl = []" using HasReadable_ok [OF assms] by (simp add: ChunkList_HasReadable_def ChunkList_IsEmpty_def)
  then show ?thesis
    using True by (simp add: ChunkList_Append_def append_loop.simps [of A cl "[]"] ChunkList_GetLastChunk_def)
next
  case False
  then have ne: "cl_buffers cl \<noteq> []" by (auto simp: cl_content_def)
  have "append_post A cl [] (ChunkList_Append A cl [])" by (rule ChunkList_Append_post) (use assms ne in simp_all)
  then show ?thesis using False ne by (auto simp: append_post_def header_room_def split: sum.splits)
qed

section \<open>Writing to a descriptor\<close>

lemma ChunkListWriteFd_vector:
  assumes "ChunkList_GetChunkSize cl \<noteq> 1" "0 < ChunkList_GetChunkSize cl" "ChunkList_GetChunkSize cl \<le> IOVEC_MAX"
  shows "ChunkListWriteFd write writev cl =
    (case writev (map Chunk_ToStringView (cl_buffers cl)) of
       WOk k \<Rightarrow> Inr (of_nat k, None, take k (cl_content cl)) | WErr e \<Rightarrow> Inr (0, Some e, []))"
proof -
  have "RoundUpDivideIn2 (ChunkList_GetChunkSize cl) IOVEC_MAX = Suc 0"
    using assms(2,3) by (simp add: RoundUpDivideIn2_def)
  then show ?thesis
    using assms by (simp add: ChunkListWriteFd_def ChunkList_GetChunkSize_def Let_def cl_content_def split: write_result.split)
qed

section \<open>Properties\<close>

text \<open>C8. Chunk list as a byte queue: from any well-formed list, every sequence of appends of at least one byte
  and reads within the contents ends in a well-formed list whose contents are those of a byte list after
  the same operations, whose size computed from the chunk count is the number of bytes, and which has
  something to read exactly when bytes are left; or it stops because a chunk could not be allocated. An append
  of no bytes leaves the contents of a list that has some as they are, and fails an assertion on an empty list.\<close>

theorem ChunkList_refines_byte_list:
  assumes "cl_ok cl" "\<forall>c\<in>set cs. fits (\<lambda>xs. xs \<noteq> []) c" "queue_run cs (cl_content cl) = Some q"
  shows "((\<exists>cl'. impl_run (ChunkList_Append A) ChunkList_AdvanceRead cs cl = Inr cl' \<and> cl_ok cl' \<and>
            cl_content cl' = q \<and> ChunkList_GetReadableSize cl' = length q \<and>
            ChunkList_HasReadable cl' = (q \<noteq> [])) \<or>
          (impl_run (ChunkList_Append A) ChunkList_AdvanceRead cs cl = Inl BadAlloc \<and> (\<exists>n. \<not> ca_ok A n))) \<and>
         (if cl_content cl = [] then ChunkList_Append A cl [] = Inl AssertFail
          else \<exists>cl'. ChunkList_Append A cl [] = Inr cl' \<and> cl_ok cl' \<and> cl_content cl' = cl_content cl)"
  using cl_queue.run_refines [OF assms, of A] GetReadableSize_ok HasReadable_ok Append_nothing [OF assms(1), of A] by auto

definition demo_chunk_alloc :: chunk_alloc where
  "demo_chunk_alloc = \<lparr>ca_ok = (\<lambda>_. True), ca_fresh = (\<lambda>_. 0)\<rparr>"

definition no_chunk_alloc :: chunk_alloc where
  "no_chunk_alloc = \<lparr>ca_ok = (\<lambda>_. False), ca_fresh = (\<lambda>_. 0)\<rparr>"

definition demo_chunk :: chunk where
  "demo_chunk = \<lparr>ck_read_index = 8, ck_write_index = 9, ck_max_size = 4096, ck_buf = replicate 4096 0\<rparr>"

definition demo_chunk_list :: chunk_list where
  "demo_chunk_list = \<lparr>cl_buffers = [demo_chunk], cl_free = []\<rparr>"

lemma demo_chunk_list_ok: "cl_ok demo_chunk_list"
  by (simp add: cl_ok_def demo_chunk_list_def demo_chunk_def chunk_ok_def)

theorem ChunkList_refines_byte_list_witness:
  "let cs = [QAppend [1, 2, 3], QAdvance 2, QAppend [4], QAdvance 1] in
   cl_ok ChunkList \<and> (\<forall>c\<in>set cs. fits (\<lambda>xs. xs \<noteq> []) c) \<and>
   queue_run cs (cl_content ChunkList) = Some [4] \<and>
   (\<exists>cl'. impl_run (ChunkList_Append demo_chunk_alloc) ChunkList_AdvanceRead cs ChunkList = Inr cl' \<and>
      cl_content cl' = [4])"
proof -
  let ?cs = "[QAppend [1, 2, 3], QAdvance 2, QAppend [4], QAdvance 1]"
  have h: "cl_ok ChunkList" "\<forall>c\<in>set ?cs. fits (\<lambda>xs. xs \<noteq> []) c"
    "queue_run ?cs (cl_content ChunkList) = Some [4]" by simp_all
  then show ?thesis
    using ChunkList_refines_byte_list [OF h, of demo_chunk_alloc] by (auto simp: demo_chunk_alloc_def)
qed

text \<open>C22. Framing: a payload appended to an empty chunk list leaves room for the length in front of it;
  after \<open>Prepend32\<close> the list holds the length in network order followed by the payload, and \<open>Read32\<close>
  returns the length and leaves the payload.\<close>

theorem ChunkList_header_frame:
  assumes "xs \<noteq> []" "\<forall>n. ca_ok A n"
  shows "\<exists>cl1 cl2 cl3. ChunkList_Append A ChunkList xs = Inr cl1 \<and> ChunkList_Prepend32 A e cl1 i = Inr cl2 \<and>
    cl_content cl2 = be_bytes 4 i @ xs \<and> ChunkList_Read32 e cl2 = Inr (i, cl3) \<and> cl_content cl3 = xs"
proof -
  have "append_post A ChunkList xs (ChunkList_Append A ChunkList xs)"
    by (rule ChunkList_Append_post) (use assms(1) in simp_all)
  from append_postI_Inr [OF this assms(2)] obtain cl1 where cl1: "ChunkList_Append A ChunkList xs = Inr cl1"
    "cl_ok cl1" "cl_content cl1 = xs" "front_index cl1 = HEADER_SIZE"
    by (auto simp: front_index_def [of ChunkList])
  then have "cl_buffers cl1 \<noteq> []" using assms(1) by (auto simp: cl_content_def)
  with ChunkList_Prepend_ok [OF cl1(2), of "be_bytes 4 i" A] cl1(3,4) obtain cl2 where
    cl2: "ChunkList_Prepend A cl1 (be_bytes 4 i) = Inr cl2" "cl_ok cl2" "cl_buffers cl2 \<noteq> []"
      "length (be_bytes 4 i) \<le> Chunk_GetReadableSize (hd (cl_buffers cl2))" "cl_content cl2 = be_bytes 4 i @ xs"
    by auto
  show ?thesis
    using cl1(1) cl2(1,5) cl_read_prefix [OF cl2(2-5)]
    by (auto simp: ChunkList_Prepend32_def ChunkList_Read32_def ChunkList_GetReadBegin32_def wire_simps)
qed

theorem ChunkList_header_frame_witness:
  "([7, 8] :: bytes) \<noteq> [] \<and> (\<forall>n. ca_ok demo_chunk_alloc n) \<and>
   (\<exists>cl1 cl2. ChunkList_Append demo_chunk_alloc ChunkList [7, 8] = Inr cl1 \<and>
      ChunkList_Prepend32 demo_chunk_alloc LittleEndian cl1 2 = Inr cl2 \<and> cl_content cl2 = be_bytes 4 (2 :: 32 word) @ [7, 8])"
proof -
  have h: "([7, 8] :: bytes) \<noteq> []" "\<forall>n. ca_ok demo_chunk_alloc n" by (simp_all add: demo_chunk_alloc_def)
  then show ?thesis using ChunkList_header_frame [OF h, of LittleEndian 2] by blast
qed

text \<open>Reservation: once a non-empty chunk list has reserved space for \<open>sz\<close> bytes, an append of at
  most \<open>sz\<close> bytes succeeds whatever the allocator does.\<close>

theorem ChunkList_reserved_append:
  assumes "cl_ok cl" "cl_buffers cl \<noteq> []" "ChunkList_ReserveWriteSpace A cl sz = Inr cl'" "length xs \<le> sz"
  shows "\<exists>cl''. ChunkList_Append B cl' xs = Inr cl'' \<and> cl_ok cl'' \<and> cl_content cl'' = cl_content cl @ xs"
proof -
  from ReserveWriteSpace_content [OF assms(1,3)] have cl': "cl_ok cl'" "cl_buffers cl' = cl_buffers cl"
    by simp_all
  have "append_post B cl' xs (ChunkList_Append B cl' xs)"
    by (rule ChunkList_Append_post) (use cl' assms(2) in simp_all)
  then show ?thesis
    using ReserveWriteSpace_room [OF assms(1-3)] assms(2,4) cl'
    by (auto simp: append_post_def header_room_def cl_content_def split: sum.splits)
qed

theorem ChunkList_reserved_append_witness:
  "cl_ok demo_chunk_list \<and> cl_buffers demo_chunk_list \<noteq> [] \<and>
   (\<exists>cl' cl''. ChunkList_ReserveWriteSpace demo_chunk_alloc demo_chunk_list 5000 = Inr cl' \<and>
      length (cl_free cl') = 1 \<and> ChunkList_Append no_chunk_alloc cl' (replicate 5000 7) = Inr cl'')"
proof -
  have "\<exists>cl'. ChunkList_ReserveWriteSpace demo_chunk_alloc demo_chunk_list 5000 = Inr cl' \<and> length (cl_free cl') = 1"
    using push_fresh_one [of demo_chunk_alloc "[]"]
    by (simp add: ChunkList_ReserveWriteSpace_def ChunkList_ReserveFreeChunk_def demo_chunk_list_def demo_chunk_def
        Chunk_GetWritableSize_def create_chunk_def demo_chunk_alloc_def del: push_fresh.simps upt_rec_numeral)
  then obtain cl' where r: "ChunkList_ReserveWriteSpace demo_chunk_alloc demo_chunk_list 5000 = Inr cl'"
    "length (cl_free cl') = 1" by blast
  have ne: "cl_buffers demo_chunk_list \<noteq> []" by (simp add: demo_chunk_list_def)
  have "length (replicate 5000 (7 :: byte)) \<le> 5000" by simp
  from ChunkList_reserved_append [OF demo_chunk_list_ok ne r(1) this, of no_chunk_alloc]
  show ?thesis using r ne demo_chunk_list_ok by blast
qed

text \<open>Vector limit: \<open>writev\<close> refuses more than 1024 blocks with \<open>EINVAL\<close> (22). A list of more chunks is
  handed over in one vector of all its chunks, not in batches: nothing is written and the call
  reports 0 bytes with that error.\<close>

theorem ChunkListWriteFd_beyond_limit:
  assumes "\<forall>v. 1024 < length v \<longrightarrow> writev v = WErr 22" "1024 < ChunkList_GetChunkSize cl"
  shows "ChunkListWriteFd write writev cl = Inr (0, Some 22, [])"
proof -
  have "RoundUpDivideIn2 (ChunkList_GetChunkSize cl) IOVEC_MAX = Suc ((ChunkList_GetChunkSize cl - 1) div 1024)"
    using assms(2) by (simp add: RoundUpDivideIn2_def)
  then show ?thesis
    using assms by (simp add: ChunkListWriteFd_def ChunkList_GetChunkSize_def Let_def)
qed

theorem ChunkListWriteFd_beyond_limit_witness:
  "let writev = (\<lambda>v. if 1024 < length v then WErr 22 else WOk 0);
       cl = \<lparr>cl_buffers = replicate 1025 demo_chunk, cl_free = []\<rparr> in
   (\<forall>v. 1024 < length v \<longrightarrow> writev v = WErr 22) \<and> 1024 < ChunkList_GetChunkSize cl \<and>
   ChunkListWriteFd (\<lambda>_. WOk 1) writev cl = Inr (0, Some 22, [])"
proof -
  let ?writev = "\<lambda>v :: bytes list. if 1024 < length v then WErr 22 else WOk 0"
  let ?cl = "\<lparr>cl_buffers = replicate 1025 demo_chunk, cl_free = []\<rparr>"
  have h: "\<forall>v. 1024 < length v \<longrightarrow> ?writev v = WErr 22" "1024 < ChunkList_GetChunkSize ?cl"
    by (simp_all add: ChunkList_GetChunkSize_def)
  from ChunkListWriteFd_beyond_limit [OF h] show ?thesis using h by (simp only: Let_def)
qed

end
