(* ===== verification/Connection.thy ===== *)
theory Connection
  imports Buffer Chunk_List Channel
begin

text \<open>
  Model of \<^verbatim>\<open>kanon/net/connection/connection_base.{h,cc}\<close> and \<^verbatim>\<open>kanon/linux/net/connection/connection_base.inl\<close>:
  the state machine of a connection, its input buffer and its queue of output, for the level- and the
  edge-triggered mode. Every handler runs in the loop thread. The functors a connection queues to its loop are kept
  in the state, in order; \<open>call_functor\<close> runs one. The outcome of the system calls and the user's callbacks, with
  whatever they do to the connection, are parameters.
\<close>

section \<open>State and environment\<close>

datatype conn_state = kConnecting | kConnected | kDisconnecting | kDisconnected

datatype conn_functor =
    FWriteComplete
  | FCallWriteComplete
  | FHighWaterMark nat
  | FSendStr bytes
  | FSendBuf buffer
  | FSendChunkList chunk_list
  | FShutdown
  | FHandleClose

record connection =
  cn_state :: conn_state
  cn_channel :: channel
  cn_input :: buffer
  cn_output :: chunk_list
  cn_high_water_mark :: nat
  cn_shutdown :: bool
  cn_removed :: bool
  cn_functors :: "conn_functor list"
  cn_wire :: bytes

text \<open>\<open>cn_shutdown\<close> says that \<open>shutdown(SHUT_WR)\<close> was called on the socket, \<open>cn_removed\<close> that the channel was removed from
  the demultiplexer. \<open>cn_wire\<close> is what the kernel has taken from the calls of \<open>write\<close> and \<open>writev\<close> on the socket. A callback is \<open>None\<close> when the \<open>std::function\<close> is empty.\<close>

record conn_env =
  ce_et_mode :: bool
  ce_alloc :: allocator
  ce_chunk_alloc :: chunk_alloc
  ce_connection :: "(connection \<Rightarrow> connection res) option"
  ce_message :: "(connection \<Rightarrow> connection res) option"
  ce_write_complete :: "(connection \<Rightarrow> (bool \<times> connection) res) option"
  ce_high_water :: "(nat \<Rightarrow> connection \<Rightarrow> connection res) option"
  ce_close :: "(connection \<Rightarrow> connection res) option"

text \<open>The outcome of \<open>write\<close> and \<open>writev\<close> on the socket.\<close>

record sock_io =
  io_write :: "bytes \<Rightarrow> write_result"
  io_writev :: "bytes list \<Rightarrow> write_result"

abbreviation (input) EAGAIN :: int where "EAGAIN \<equiv> 11"

definition ConnectionBase :: "int \<Rightarrow> buffer \<Rightarrow> connection" where
  "ConnectionBase sockfd b =
     \<lparr>cn_state = kConnecting,
      cn_channel = (Channel sockfd)\<lparr>ch_read_cb := True, ch_write_cb := True, ch_error_cb := True, ch_close_cb := True\<rparr>,
      cn_input = b, cn_output = ChunkList, cn_high_water_mark = 64 * 1024, cn_shutdown = False, cn_removed = False,
      cn_functors = [], cn_wire = []\<rparr>"

definition ConnectionBase_dtor :: "connection \<Rightarrow> unit res" where
  "ConnectionBase_dtor c = assertR (cn_state c = kDisconnecting \<or> cn_state c = kDisconnected)"

text \<open>Calling an empty \<open>std::function\<close> throws \<open>std::bad_function_call\<close>.\<close>

definition call_cb :: "(connection \<Rightarrow> connection res) option \<Rightarrow> connection \<Rightarrow> connection res" where
  "call_cb cb c = (case cb of None \<Rightarrow> Inl Exn | Some f \<Rightarrow> f c)"

definition on_channel :: "(channel \<Rightarrow> channel) \<Rightarrow> connection \<Rightarrow> connection" where
  "on_channel f c = c\<lparr>cn_channel := f (cn_channel c)\<rparr>"

definition queue_functor :: "conn_functor \<Rightarrow> connection \<Rightarrow> connection" where
  "queue_functor f c = c\<lparr>cn_functors := cn_functors c @ [f]\<rparr>"

definition on_wire :: "bytes \<Rightarrow> connection \<Rightarrow> connection" where
  "on_wire bs c = c\<lparr>cn_wire := cn_wire c @ bs\<rparr>"

section \<open>Opening and closing\<close>

definition ConnectionEstablished :: "conn_env \<Rightarrow> connection \<Rightarrow> connection res" where
  "ConnectionEstablished E c =
     rbind (assertR (cn_state c = kConnecting)) (\<lambda>_.
     let c = on_channel ch_EnableReading (c\<lparr>cn_state := kConnected\<rparr>) in
     rbind (assertR (ce_connection E \<noteq> None)) (\<lambda>_.
     call_cb (ce_connection E) c))"

definition ConnectionDestroyed :: "conn_env \<Rightarrow> connection \<Rightarrow> connection res" where
  "ConnectionDestroyed E c =
     rbind (if cn_state c = kConnected
            then call_cb (ce_connection E) ((on_channel ch_DisableAll c)\<lparr>cn_state := kDisconnected\<rparr>)
            else Inr c) (\<lambda>c.
     rbind (assertR (cn_state c = kDisconnected)) (\<lambda>_.
     Inr (c\<lparr>cn_removed := True\<rparr>)))"

definition HandleClose :: "conn_env \<Rightarrow> connection \<Rightarrow> connection res" where
  "HandleClose E c =
     rbind (assertR (cn_state c = kConnected \<or> cn_state c = kDisconnecting)) (\<lambda>_.
     rbind (call_cb (ce_connection E) (on_channel ch_DisableAll (c\<lparr>cn_state := kDisconnected\<rparr>))) (\<lambda>c.
     case ce_close E of None \<Rightarrow> Inr c | Some f \<Rightarrow> f c))"

text \<open>The functor of \<open>ShutdownWrite\<close>; \<open>in_loop\<close> says whether the caller is the loop thread.\<close>

definition shutdown_in_loop :: "conn_env \<Rightarrow> connection \<Rightarrow> connection" where
  "shutdown_in_loop E c =
     (if \<not> ch_IsWriting (cn_channel c) \<or> ce_et_mode E then c\<lparr>cn_shutdown := True\<rparr> else c)"

text \<open>\<open>ShutdownWrite\<close> and \<open>ForceClose\<close> test \<open>state_\<close> and then set it, without a lock. Called in the loop thread this is one step. A
  call by another thread is two: the loop thread may run between the test and the rest, which is a function of its own here.\<close>

definition ShutdownWrite_rest :: "conn_env \<Rightarrow> bool \<Rightarrow> connection \<Rightarrow> connection" where
  "ShutdownWrite_rest E in_loop c =
     (let c = c\<lparr>cn_state := kDisconnecting\<rparr> in
      if in_loop then shutdown_in_loop E c else queue_functor FShutdown c)"

definition ShutdownWrite :: "conn_env \<Rightarrow> bool \<Rightarrow> connection \<Rightarrow> connection" where
  "ShutdownWrite E in_loop c = (if cn_state c = kConnected then ShutdownWrite_rest E in_loop c else c)"

definition ForceClose_rest :: "conn_env \<Rightarrow> bool \<Rightarrow> connection \<Rightarrow> connection res" where
  "ForceClose_rest E in_loop c =
     (let c = c\<lparr>cn_state := kDisconnecting\<rparr> in
      if in_loop then HandleClose E c else Inr (queue_functor FHandleClose c))"

definition ForceClose :: "conn_env \<Rightarrow> bool \<Rightarrow> connection \<Rightarrow> connection res" where
  "ForceClose E in_loop c =
     noexcept (if cn_state c = kConnected \<or> cn_state c = kDisconnecting then ForceClose_rest E in_loop c else Inr c)"

section \<open>Reading\<close>

text \<open>\<open>HandleError\<close> logs the error of the socket and restores \<open>errno\<close>: it leaves the connection alone.\<close>

definition deliver :: "conn_env \<Rightarrow> connection \<Rightarrow> connection res" where
  "deliver E c =
     (case ce_message E of
        Some f \<Rightarrow> f c
      | None \<Rightarrow> rbind (AdvanceAll (cn_input c)) (\<lambda>b. Inr (c\<lparr>cn_input := b\<rparr>)))"

definition HandleLtRead :: "conn_env \<Rightarrow> io_result \<Rightarrow> connection \<Rightarrow> connection res" where
  "HandleLtRead E r c =
     rbind (BufferReadFromFd (ce_alloc E) r (cn_input c)) (\<lambda>(n, saved_errno, b).
     let c = c\<lparr>cn_input := b\<rparr> in
     case saved_errno of
       Some e \<Rightarrow> Inr c
     | None \<Rightarrow>
         if n = 0 then HandleClose E c
         else rbind (assertR (0 < n \<and> n \<noteq> - 1)) (\<lambda>_. deliver E c))"

text \<open>The edge-triggered handler reads until \<open>EAGAIN\<close> or the end of the stream; \<open>rs i\<close> is the outcome of the read number
  \<open>i\<close>. \<open>saved_errno\<close> is not reset between reads.\<close>

partial_function (option) et_read_loop ::
  "conn_env \<Rightarrow> (nat \<Rightarrow> io_result) \<Rightarrow> nat \<Rightarrow> int option \<Rightarrow> connection \<Rightarrow> connection res option" where
  "et_read_loop E rs i saved_errno c =
     (case BufferReadFromFd (ce_alloc E) (rs i) (cn_input c) of
        Inl e \<Rightarrow> Some (Inl e)
      | Inr (readn, err, b) \<Rightarrow>
          let c = c\<lparr>cn_input := b\<rparr>; saved_errno = (case err of None \<Rightarrow> saved_errno | Some e \<Rightarrow> Some e) in
          if saved_errno = Some EAGAIN then Some (Inr c)
          else if readn = 0 then Some (HandleClose E c)
          else (case deliver E c of
                  Inl e \<Rightarrow> Some (Inl e)
                | Inr c \<Rightarrow> et_read_loop E rs (Suc i) saved_errno c))"

definition HandleEtRead :: "conn_env \<Rightarrow> (nat \<Rightarrow> io_result) \<Rightarrow> connection \<Rightarrow> connection res" where
  "HandleEtRead E rs c = ended (et_read_loop E rs 0 None c)"

definition HandleRead :: "conn_env \<Rightarrow> (nat \<Rightarrow> io_result) \<Rightarrow> connection \<Rightarrow> connection res" where
  "HandleRead E rs c = (if ce_et_mode E then HandleEtRead E rs c else HandleLtRead E (rs 0) c)"

definition DisbaleRead :: "connection \<Rightarrow> connection" where
  "DisbaleRead c =
     (if cn_state c = kConnected \<and> ch_IsReading (cn_channel c) then on_channel ch_DisableReading c else c)"

definition EnableRead :: "connection \<Rightarrow> connection" where
  "EnableRead c =
     (if cn_state c = kConnected \<and> \<not> ch_IsReading (cn_channel c) then on_channel ch_EnableReading c else c)"

section \<open>Writing\<close>

definition stop_writing :: "connection \<Rightarrow> connection" where
  "stop_writing c = (if ch_IsWriting (cn_channel c) then on_channel ch_DisableWriting c else c)"

definition queue_if :: "bool \<Rightarrow> conn_functor \<Rightarrow> connection \<Rightarrow> connection" where
  "queue_if b f c = (if b then queue_functor f c else c)"

text \<open>The part of \<open>SendInLoop\<close> that keeps what was not written.\<close>

definition keep_remaining :: "conn_env \<Rightarrow> bytes \<Rightarrow> connection \<Rightarrow> connection res" where
  "keep_remaining E rest c =
     (if rest = [] then Inr c
      else
        let readable_len = ChunkList_GetReadableSize (cn_output c);
            c = queue_if (ce_high_water E \<noteq> None \<and> cn_high_water_mark c \<le> readable_len + length rest \<and>
                          readable_len < cn_high_water_mark c)
                  (FHighWaterMark (readable_len + length rest)) c in
        rbind (ChunkList_Append (ce_chunk_alloc E) (cn_output c) rest) (\<lambda>out.
        let c = c\<lparr>cn_output := out\<rparr> in
        Inr (if \<not> ch_IsWriting (cn_channel c) then on_channel ch_EnableWriting c else c)))"

definition SendInLoop :: "conn_env \<Rightarrow> sock_io \<Rightarrow> bytes \<Rightarrow> connection \<Rightarrow> connection res" where
  "SendInLoop E io data c =
     (if cn_state c \<noteq> kConnected then Inr c
      else if \<not> ChunkList_HasReadable (cn_output c) then
        let c = on_wire (taken (io_write io data) data) c in
        (case io_write io data of
           WOk n \<Rightarrow>
             if n \<noteq> length data then keep_remaining E (drop n data) c
             else Inr (stop_writing (queue_if (ce_write_complete E \<noteq> None) FWriteComplete c))
         | WErr e \<Rightarrow> Inr c)
      else keep_remaining E data c)"

definition SendInLoopForBuf :: "conn_env \<Rightarrow> sock_io \<Rightarrow> buffer \<Rightarrow> connection \<Rightarrow> connection res" where
  "SendInLoopForBuf E io buf c =
     (if cn_state c \<noteq> kConnected then Inr c
      else if \<not> ChunkList_HasReadable (cn_output c) then
        rbind (ChunkList_Append (ce_chunk_alloc E) (cn_output c) (sv_str (ToStringView buf))) (\<lambda>out.
        rbind (ChunkListWriteFd (io_write io) (io_writev io) out) (\<lambda>(n, saved_errno, wire).
        let c = on_wire wire (c\<lparr>cn_output := out\<rparr>) in
        if 0 < n then
          rbind (ChunkList_AdvanceRead out (unat n)) (\<lambda>out.
          let c = c\<lparr>cn_output := out\<rparr> in
          if ChunkList_HasReadable out then
            Inr (on_channel ch_EnableWriting
                  (queue_if (cn_high_water_mark c \<le> ChunkList_GetReadableSize out \<and> ce_high_water E \<noteq> None)
                     (FHighWaterMark (ChunkList_GetReadableSize out)) c))
          else Inr (stop_writing (queue_if (ce_write_complete E \<noteq> None) FWriteComplete c)))
        else Inr c))
      else SendInLoop E io (sv_str (ToStringView buf)) c)"

text \<open>Returns the caller's list too, which the function consumes or swaps.\<close>

definition SendInLoopForChunkList ::
  "conn_env \<Rightarrow> sock_io \<Rightarrow> chunk_list \<Rightarrow> connection \<Rightarrow> (chunk_list \<times> connection) res" where
  "SendInLoopForChunkList E io buf c =
     rbind (ChunkListWriteFd (io_write io) (io_writev io) buf) (\<lambda>(write_n, saved_errno, wire).
     let c = on_wire wire c in
     if 0 < write_n then
       rbind (ChunkList_AdvanceRead buf (unat write_n)) (\<lambda>buf.
       if ChunkList_HasReadable buf then
         let c = queue_if (ce_high_water E \<noteq> None \<and> cn_high_water_mark c < ChunkList_GetReadableSize buf)
                   (FHighWaterMark (cn_high_water_mark c)) c in
         if ChunkList_HasReadable (cn_output c) then
           rbind (ChunkList_AppendChunkList (cn_output c) buf) (\<lambda>(out, buf). Inr (buf, c\<lparr>cn_output := out\<rparr>))
         else let (out, buf) = ChunkList_swap (cn_output c) buf in Inr (buf, c\<lparr>cn_output := out\<rparr>)
       else Inr (buf, stop_writing (queue_if (ce_write_complete E \<noteq> None) FCallWriteComplete c)))
     else Inr (buf, c))"

definition Send :: "conn_env \<Rightarrow> sock_io \<Rightarrow> bool \<Rightarrow> bytes \<Rightarrow> connection \<Rightarrow> connection res" where
  "Send E io in_loop data c =
     (if cn_state c = kConnected
      then if in_loop then SendInLoop E io data c else Inr (queue_functor (FSendStr data) c)
      else Inr c)"

definition Send_InputBuffer :: "conn_env \<Rightarrow> sock_io \<Rightarrow> bool \<Rightarrow> buffer \<Rightarrow> connection \<Rightarrow> connection res" where
  "Send_InputBuffer E io in_loop buf c =
     (if cn_state c = kConnected
      then if in_loop then SendInLoopForBuf E io buf c else Inr (queue_functor (FSendBuf buf) c)
      else Inr c)"

definition Send_OutputBuffer ::
  "conn_env \<Rightarrow> sock_io \<Rightarrow> bool \<Rightarrow> chunk_list \<Rightarrow> connection \<Rightarrow> (chunk_list \<times> connection) res" where
  "Send_OutputBuffer E io in_loop buf c =
     (if cn_state c \<noteq> kConnected then Inr (buf, c)
      else if in_loop then SendInLoopForChunkList E io buf c
      else Inr (ChunkList, queue_functor (FSendChunkList buf) c))"

definition HandleLtWrite :: "conn_env \<Rightarrow> sock_io \<Rightarrow> connection \<Rightarrow> connection res" where
  "HandleLtWrite E io c =
     rbind (ChunkListWriteFd (io_write io) (io_writev io) (cn_output c)) (\<lambda>(n, saved_errno, wire).
     let c = on_wire wire c in
     if 0 < n then
       rbind (ChunkList_AdvanceRead (cn_output c) (unat n)) (\<lambda>out.
       let c = c\<lparr>cn_output := out\<rparr> in
       if \<not> ChunkList_HasReadable out then
         let c = (if ce_write_complete E \<noteq> None then queue_functor FCallWriteComplete c
                  else on_channel ch_DisableWriting c) in
         Inr (if cn_state c = kDisconnecting then ShutdownWrite E True c else c)
       else Inr c)
     else Inr c)"

text \<open>\<open>ios i\<close> is the outcome of the write number \<open>i\<close>.\<close>

partial_function (option) et_write_loop ::
  "(nat \<Rightarrow> sock_io) \<Rightarrow> nat \<Rightarrow> chunk_list \<Rightarrow> bytes \<Rightarrow> (chunk_list \<times> bytes) res option" where
  "et_write_loop ios i out wire =
     (case ChunkListWriteFd (io_write (ios i)) (io_writev (ios i)) out of
        Inl e \<Rightarrow> Some (Inl e)
      | Inr (writen, saved_errno, w) \<Rightarrow>
          (case ChunkList_AdvanceRead out (unat writen) of
             Inl e \<Rightarrow> Some (Inl e)
           | Inr out \<Rightarrow>
               if \<not> ChunkList_HasReadable out \<and> saved_errno = Some EAGAIN then Some (Inr (out, wire @ w))
               else et_write_loop ios (Suc i) out (wire @ w)))"

definition HandleEtWrite :: "conn_env \<Rightarrow> (nat \<Rightarrow> sock_io) \<Rightarrow> connection \<Rightarrow> connection res" where
  "HandleEtWrite E ios c =
     rbind (ended (et_write_loop ios 0 (cn_output c) [])) (\<lambda>(out, wire).
     let c = on_wire wire (c\<lparr>cn_output := out\<rparr>) in
     if ChunkList_HasReadable out then Inr (on_channel ch_EnableWriting c)
     else
       let c = queue_if (ce_write_complete E \<noteq> None) FCallWriteComplete c in
       Inr (if cn_state c = kDisconnecting then c\<lparr>cn_shutdown := True\<rparr> else c))"

definition HandleWrite :: "conn_env \<Rightarrow> (nat \<Rightarrow> sock_io) \<Rightarrow> connection \<Rightarrow> connection res" where
  "HandleWrite E ios c =
     (if \<not> ch_IsWriting (cn_channel c) then rbind (assertR (cn_state c = kDisconnected)) (\<lambda>_. Inr c)
      else if ce_et_mode E then HandleEtWrite E ios c
      else HandleLtWrite E (ios 0) c)"

definition CallWriteCompleteCallback :: "conn_env \<Rightarrow> connection \<Rightarrow> connection res" where
  "CallWriteCompleteCallback E c =
     (case ce_write_complete E of
        None \<Rightarrow> Inl Exn
      | Some f \<Rightarrow> rbind (f c) (\<lambda>(b, c). Inr (if b then stop_writing c else c)))"

section \<open>Functors\<close>

text \<open>The functor at the head of the queue, called in the third phase of the loop.\<close>

definition call_functor :: "conn_env \<Rightarrow> sock_io \<Rightarrow> conn_functor \<Rightarrow> connection \<Rightarrow> connection res" where
  "call_functor E io f c =
     (case f of
        FWriteComplete \<Rightarrow> (case ce_write_complete E of None \<Rightarrow> Inl Exn | Some g \<Rightarrow> rbind (g c) (\<lambda>(_, c). Inr c))
      | FCallWriteComplete \<Rightarrow> CallWriteCompleteCallback E c
      | FHighWaterMark n \<Rightarrow> (case ce_high_water E of None \<Rightarrow> Inl Exn | Some g \<Rightarrow> g n c)
      | FSendStr data \<Rightarrow> SendInLoop E io data c
      | FSendBuf buf \<Rightarrow> SendInLoopForBuf E io buf c
      | FSendChunkList buf \<Rightarrow> rbind (SendInLoopForChunkList E io buf c) (\<lambda>(_, c). Inr c)
      | FShutdown \<Rightarrow> Inr (shutdown_in_loop E c)
      | FHandleClose \<Rightarrow> HandleClose E c)"

definition run_functor :: "conn_env \<Rightarrow> sock_io \<Rightarrow> connection \<Rightarrow> connection res" where
  "run_functor E io c =
     (case cn_functors c of
        [] \<Rightarrow> Inr c
      | f # fs \<Rightarrow> call_functor E io f (c\<lparr>cn_functors := fs\<rparr>))"

fun State2String :: "conn_state \<Rightarrow> string" where
  "State2String kConnecting = ''Connecting''"
| "State2String kConnected = ''Connected''"
| "State2String kDisconnecting = ''Disconnecting''"
| "State2String kDisconnected = ''Disconnected''"

section \<open>State machine\<close>

fun state_rank :: "conn_state \<Rightarrow> nat" where
  "state_rank kConnecting = 0"
| "state_rank kConnected = 1"
| "state_rank kDisconnecting = 2"
| "state_rank kDisconnected = 3"

abbreviation (input) rank :: "connection \<Rightarrow> nat" where
  "rank c \<equiv> state_rank (cn_state c)"

text \<open>No event is watched before the connection is established and after it is down, a removed connection is down, and
  the write side is shut down, or about to be, only when the connection is being closed.\<close>

definition conn_inv :: "connection \<Rightarrow> bool" where
  "conn_inv c \<longleftrightarrow>
     (rank c = 0 \<or> rank c = 3 \<longrightarrow> ch_events (cn_channel c) = 0) \<and>
     (cn_removed c \<longrightarrow> rank c = 3) \<and>
     (cn_shutdown c \<or> FShutdown \<in> set (cn_functors c) \<longrightarrow> 2 \<le> rank c)"

definition conn_le :: "connection \<Rightarrow> connection \<Rightarrow> bool" where
  "conn_le c c' \<longleftrightarrow> conn_inv c' \<and> rank c \<le> rank c'"

definition safe_cb :: "(connection \<Rightarrow> connection res) \<Rightarrow> bool" where
  "safe_cb f \<longleftrightarrow> (\<forall>c c'. conn_inv c \<and> f c = Inr c' \<longrightarrow> conn_le c c')"

text \<open>Callbacks that respect the connection: what they do to it is what its interface can do.\<close>

definition safe_env :: "conn_env \<Rightarrow> bool" where
  "safe_env E \<longleftrightarrow>
     pred_option safe_cb (ce_connection E) \<and> pred_option safe_cb (ce_message E) \<and> pred_option safe_cb (ce_close E) \<and>
     pred_option (\<lambda>f. \<forall>n. safe_cb (f n)) (ce_high_water E) \<and>
     pred_option (\<lambda>f. safe_cb (\<lambda>c. rbind (f c) (\<lambda>(_, c). Inr c))) (ce_write_complete E)"

lemma conn_le_refl: "conn_inv c \<Longrightarrow> conn_le c c"
  by (simp add: conn_le_def)

lemma conn_le_trans: "conn_le c c' \<Longrightarrow> conn_le c' c'' \<Longrightarrow> conn_le c c''"
  by (simp add: conn_le_def)

lemma conn_leD: "conn_le c c' \<Longrightarrow> conn_inv c'"
  by (simp add: conn_le_def)

lemma state_rank_simps [simp]:
  "state_rank x = 0 \<longleftrightarrow> x = kConnecting" "state_rank x = Suc 0 \<longleftrightarrow> x = kConnected"
  "state_rank x = 2 \<longleftrightarrow> x = kDisconnecting" "state_rank x = 3 \<longleftrightarrow> x = kDisconnected"
  "state_rank x \<le> 3" "2 \<le> state_rank x \<longleftrightarrow> x = kDisconnecting \<or> x = kDisconnected"
  by (cases x; simp)+

lemma safe_cbD: "safe_cb f \<Longrightarrow> conn_inv c \<Longrightarrow> f c = Inr c' \<Longrightarrow> conn_le c c'"
  by (simp add: safe_cb_def)

lemma safe_call_cb:
  "pred_option safe_cb f \<Longrightarrow> call_cb f c = Inr c' \<Longrightarrow> conn_inv c \<Longrightarrow> conn_le c c'"
  by (auto simp: call_cb_def safe_cb_def split: option.splits)

lemmas channel_ops = on_channel_def ch_EnableReading_def ch_EnableWriting_def ch_DisableReading_def
  ch_DisableWriting_def ch_DisableAll_def NoneEvent_def

lemma ConnectionEstablished_le:
  assumes "safe_env E" "conn_inv c" "ConnectionEstablished E c = Inr c'"
  shows "conn_le c c'"
proof -
  let ?c = "on_channel ch_EnableReading (c\<lparr>cn_state := kConnected\<rparr>)"
  have s: "cn_state c = kConnecting" and r: "call_cb (ce_connection E) ?c = Inr c'"
    using assms(3) by (auto simp: ConnectionEstablished_def Let_def)
  have "conn_le c ?c" using assms(2) s by (auto simp: conn_le_def conn_inv_def on_channel_def)
  moreover have "conn_le ?c c'"
    using safe_call_cb[OF _ r] assms(1) conn_leD[OF calculation] by (simp add: safe_env_def)
  ultimately show ?thesis by (rule conn_le_trans)
qed

lemma closing_le:
  "conn_inv c \<Longrightarrow> cn_state c \<noteq> kConnecting \<Longrightarrow>
   conn_le c (on_channel ch_DisableAll (c\<lparr>cn_state := kDisconnected\<rparr>))"
  by (cases "cn_state c") (auto simp: conn_le_def conn_inv_def channel_ops)

lemma HandleClose_le:
  assumes "safe_env E" "conn_inv c" "HandleClose E c = Inr c'"
  shows "conn_le c c'"
proof -
  let ?c = "on_channel ch_DisableAll (c\<lparr>cn_state := kDisconnected\<rparr>)"
  obtain c1 where s: "cn_state c \<noteq> kConnecting" and c1: "call_cb (ce_connection E) ?c = Inr c1"
    and r: "(case ce_close E of None \<Rightarrow> Inr c1 | Some f \<Rightarrow> f c1) = Inr c'"
    using assms(3) by (auto simp: HandleClose_def)
  have 1: "conn_le c ?c" by (rule closing_le[OF assms(2) s])
  have 2: "conn_le ?c c1"
    using safe_call_cb[OF _ c1] assms(1) conn_leD[OF 1] by (simp add: safe_env_def)
  have 3: "conn_le c1 c'"
    using r assms(1) conn_leD[OF 2] by (auto simp: safe_env_def conn_le_refl safe_cbD split: option.splits)
  show ?thesis using 1 2 3 by (blast intro: conn_le_trans)
qed

lemma ConnectionDestroyed_le:
  assumes "safe_env E" "conn_inv c" "ConnectionDestroyed E c = Inr c'"
  shows "conn_le c c'"
proof -
  obtain c1 where c1: "(if cn_state c = kConnected
      then call_cb (ce_connection E) ((on_channel ch_DisableAll c)\<lparr>cn_state := kDisconnected\<rparr>) else Inr c) = Inr c1"
    and s: "cn_state c1 = kDisconnected" and r: "c' = c1\<lparr>cn_removed := True\<rparr>"
    using assms(3) by (auto simp: ConnectionDestroyed_def)
  have "conn_le c c1"
  proof (cases "cn_state c = kConnected")
    case True
    have e: "(on_channel ch_DisableAll c)\<lparr>cn_state := kDisconnected\<rparr> = on_channel ch_DisableAll (c\<lparr>cn_state := kDisconnected\<rparr>)"
      by (simp add: on_channel_def)
    have 1: "conn_le c (on_channel ch_DisableAll (c\<lparr>cn_state := kDisconnected\<rparr>))"
      by (rule closing_le) (use assms(2) True in simp_all)
    show ?thesis
      using c1 True safe_call_cb[of "ce_connection E" _ c1] assms(1) conn_leD[OF 1] conn_le_trans[OF 1]
      by (simp add: e safe_env_def)
  qed (use c1 assms(2) in \<open>simp add: conn_le_refl\<close>)
  then show ?thesis using s by (auto simp: r conn_le_def conn_inv_def)
qed

lemma conn_inv_updates [simp]:
  "conn_inv (c\<lparr>cn_output := out\<rparr>) = conn_inv c" "conn_inv (c\<lparr>cn_input := b\<rparr>) = conn_inv c"
  "conn_inv (c\<lparr>cn_high_water_mark := m\<rparr>) = conn_inv c" "conn_inv (on_wire bs c) = conn_inv c"
  "f \<noteq> FShutdown \<Longrightarrow> conn_inv (queue_if p f c) = conn_inv c"
  "f \<noteq> FShutdown \<Longrightarrow> conn_inv (queue_functor f c) = conn_inv c"
  by (auto simp: conn_inv_def queue_if_def queue_functor_def on_wire_def)

lemma cn_state_updates [simp]:
  "cn_state (on_wire bs c) = cn_state c"
  "cn_state (queue_if b f c) = cn_state c" "cn_state (queue_functor f c) = cn_state c"
  "cn_state (stop_writing c) = cn_state c" "cn_state (on_channel g c) = cn_state c"
  by (simp_all add: queue_if_def queue_functor_def stop_writing_def on_channel_def on_wire_def)

lemma conn_inv_events [simp]:
  "conn_inv c \<Longrightarrow> conn_inv (stop_writing c)" "conn_inv c \<Longrightarrow> conn_inv (on_channel ch_DisableWriting c)"
  "conn_inv c \<Longrightarrow> conn_inv (DisbaleRead c)" "conn_inv c \<Longrightarrow> conn_inv (EnableRead c)"
  by (auto simp: conn_inv_def stop_writing_def DisbaleRead_def EnableRead_def channel_ops)

lemma conn_inv_enable [simp]:
  "conn_inv c \<Longrightarrow> cn_state c = kConnected \<or> cn_state c = kDisconnecting \<Longrightarrow> conn_inv (on_channel ch_EnableWriting c)"
  by (auto simp: conn_inv_def on_channel_def)

lemma conn_inv_drop_functor: "conn_inv c \<Longrightarrow> cn_functors c = f # fs \<Longrightarrow> conn_inv (c\<lparr>cn_functors := fs\<rparr>)"
  by (auto simp: conn_inv_def)

text \<open>An operation that leaves \<open>state_\<close> alone.\<close>

lemma conn_le_same: "conn_inv c' \<Longrightarrow> cn_state c' = cn_state c \<Longrightarrow> conn_le c c'"
  by (simp add: conn_le_def)

lemma keep_remaining_inv:
  assumes "keep_remaining E rest c = Inr c'" "conn_inv c" "cn_state c = kConnected"
  shows "conn_inv c' \<and> cn_state c' = kConnected"
  using assms by (auto simp: keep_remaining_def Let_def split: if_splits)

lemma SendInLoop_inv:
  assumes "SendInLoop E io data c = Inr c'" "conn_inv c"
  shows "conn_inv c' \<and> cn_state c' = cn_state c"
  using assms keep_remaining_inv[of E _ "on_wire _ c" c'] keep_remaining_inv[of E _ c c']
  by (auto simp: SendInLoop_def Let_def split: if_splits write_result.splits)

lemma SendInLoopForBuf_inv:
  assumes "SendInLoopForBuf E io buf c = Inr c'" "conn_inv c"
  shows "conn_inv c' \<and> cn_state c' = cn_state c"
  using assms SendInLoop_inv[of E io _ c c']
  by (auto simp: SendInLoopForBuf_def Let_def split: if_splits prod.splits)

lemma SendInLoopForChunkList_inv:
  assumes "SendInLoopForChunkList E io buf c = Inr (buf', c')" "conn_inv c"
  shows "conn_inv c' \<and> cn_state c' = cn_state c"
  using assms by (auto simp: SendInLoopForChunkList_def ChunkList_swap_def Let_def split: if_splits prod.splits)

lemma ShutdownWrite_le: "conn_inv c \<Longrightarrow> conn_le c (ShutdownWrite E in_loop c)"
  by (auto simp: ShutdownWrite_def ShutdownWrite_rest_def shutdown_in_loop_def queue_functor_def conn_le_def conn_inv_def Let_def)

lemma ForceClose_le:
  assumes "safe_env E" "conn_inv c" "ForceClose E in_loop c = Inr c'"
  shows "conn_le c c'"
proof (cases "cn_state c = kConnected \<or> cn_state c = kDisconnecting")
  case True
  let ?c = "c\<lparr>cn_state := kDisconnecting\<rparr>"
  have 1: "conn_le c ?c" using True assms(2) by (auto simp: conn_le_def conn_inv_def)
  have "conn_le ?c c'"
    using assms(3) True HandleClose_le[OF assms(1) conn_leD[OF 1]] conn_leD[OF 1]
    by (auto simp: ForceClose_def ForceClose_rest_def Let_def intro!: conn_le_same split: if_splits)
  with 1 show ?thesis by (rule conn_le_trans)
qed (use assms in \<open>auto simp: ForceClose_def conn_le_refl\<close>)

lemma deliver_le:
  assumes "safe_env E" "conn_inv c" "deliver E c = Inr c'"
  shows "conn_le c c'"
  using assms by (auto simp: deliver_def safe_env_def safe_cbD intro!: conn_le_same split: option.splits)

lemma HandleLtRead_le:
  assumes "safe_env E" "conn_inv c" "HandleLtRead E r c = Inr c'"
  shows "conn_le c c'"
proof -
  obtain n err b where "BufferReadFromFd (ce_alloc E) r (cn_input c) = Inr (n, err, b)" and
    r: "(case err of Some e \<Rightarrow> Inr (c\<lparr>cn_input := b\<rparr>)
         | None \<Rightarrow> if n = 0 then HandleClose E (c\<lparr>cn_input := b\<rparr>)
           else rbind (assertR (0 < n \<and> n \<noteq> - 1)) (\<lambda>_. deliver E (c\<lparr>cn_input := b\<rparr>))) = Inr c'"
    using assms(3) by (auto simp: HandleLtRead_def Let_def split: prod.splits)
  let ?c = "c\<lparr>cn_input := b\<rparr>"
  have 1: "conn_le c ?c" by (rule conn_le_same) (use assms(2) in simp_all)
  have "conn_le ?c c'"
    using r conn_leD[OF 1] HandleClose_le[OF assms(1), of ?c c'] deliver_le[OF assms(1), of ?c c']
    by (auto simp: conn_le_refl split: option.splits if_splits)
  with 1 show ?thesis by (rule conn_le_trans)
qed

lemma et_read_loop_le:
  assumes "safe_env E" "conn_inv c" "et_read_loop E rs i err c = Some (Inr c')"
  shows "conn_le c c'"
proof -
  let ?P = "\<lambda>E (rs :: nat \<Rightarrow> io_result) (i :: nat) (err :: int option) c (r :: connection res).
      safe_env E \<longrightarrow> conn_inv c \<longrightarrow> (\<forall>c'. r = Inr c' \<longrightarrow> conn_le c c')"
  have "?P E rs i err c r" if "et_read_loop E rs i err c = Some r" for r
    using that
  proof (rule et_read_loop.raw_induct[where P = ?P, rotated])
    fix loop E rs i err c r
    assume IH: "\<And>E rs i err c r. loop E rs i err c = Some r \<Longrightarrow> ?P E rs i err c r"
    assume B: "(case BufferReadFromFd (ce_alloc E) (rs i) (cn_input c) of
        Inl e \<Rightarrow> Some (Inl e)
      | Inr (readn, err', b) \<Rightarrow>
          let c = c\<lparr>cn_input := b\<rparr>; err = (case err' of None \<Rightarrow> err | Some e \<Rightarrow> Some e) in
          if err = Some EAGAIN then Some (Inr c)
          else if readn = 0 then Some (HandleClose E c)
          else (case deliver E c of Inl e \<Rightarrow> Some (Inl e) | Inr c \<Rightarrow> loop E rs (Suc i) err c)) = Some r"
    show "?P E rs i err c r"
    proof (intro impI allI)
      fix c' assume E: "safe_env E" and c: "conn_inv c" and r: "r = Inr c'"
      then obtain n err' b where rd: "BufferReadFromFd (ce_alloc E) (rs i) (cn_input c) = Inr (n, err', b)"
        using B by (auto split: sum.splits)
      let ?c = "c\<lparr>cn_input := b\<rparr>"
      have 1: "conn_inv ?c" "cn_state ?c = cn_state c" using c by simp_all
      have "conn_le ?c c'"
        using B r rd 1 HandleClose_le[OF E, of ?c c'] deliver_le[OF E, of ?c] IH E
        by (auto simp: Let_def conn_le_refl split: if_splits sum.splits) (metis conn_leD conn_le_trans)+
      then show "conn_le c c'" by (simp add: conn_le_def)
    qed
  qed
  then show ?thesis using assms by blast
qed

lemma HandleRead_le:
  assumes "safe_env E" "conn_inv c" "HandleRead E rs c = Inr c'"
  shows "conn_le c c'"
  using assms HandleLtRead_le[OF assms(1,2)] et_read_loop_le[OF assms(1,2), of rs 0 None c']
  by (auto simp: HandleRead_def HandleEtRead_def ended_def split: if_splits option.splits)

lemma ShutdownWrite_not_connected: "cn_state c \<noteq> kConnected \<Longrightarrow> ShutdownWrite E in_loop c = c"
  by (simp add: ShutdownWrite_def)

lemma HandleLtWrite_inv:
  assumes "HandleLtWrite E io c = Inr c'" "conn_inv c"
  shows "conn_inv c' \<and> cn_state c' = cn_state c"
  using assms by (auto simp: HandleLtWrite_def Let_def ShutdownWrite_not_connected split: if_splits prod.splits)

lemma HandleEtWrite_inv:
  assumes "HandleEtWrite E ios c = Inr c'" "conn_inv c" "cn_state c = kConnected \<or> cn_state c = kDisconnecting"
  shows "conn_inv c' \<and> cn_state c' = cn_state c"
proof -
  have shut: "conn_inv d \<Longrightarrow> cn_state d = kDisconnecting \<Longrightarrow> conn_inv (d\<lparr>cn_shutdown := True\<rparr>)" for d
    by (simp add: conn_inv_def)
  show ?thesis
    using assms by (auto simp: HandleEtWrite_def Let_def shut split: if_splits)
qed

lemma writing_alive:
  "conn_inv c \<Longrightarrow> ch_IsWriting (cn_channel c) \<Longrightarrow> cn_state c = kConnected \<or> cn_state c = kDisconnecting"
  by (cases "cn_state c") (auto simp: conn_inv_def ch_IsWriting_def has_event_def)

lemma HandleWrite_inv:
  assumes "HandleWrite E ios c = Inr c'" "conn_inv c"
  shows "conn_inv c' \<and> cn_state c' = cn_state c"
proof (cases "ch_IsWriting (cn_channel c)")
  case True
  then show ?thesis
    using assms HandleEtWrite_inv[OF _ assms(2) writing_alive[OF assms(2) True]] HandleLtWrite_inv[OF _ assms(2)]
    by (auto simp: HandleWrite_def split: if_splits)
qed (use assms in \<open>auto simp: HandleWrite_def\<close>)

lemma write_complete_le:
  assumes "safe_env E" "conn_inv c" "ce_write_complete E = Some f" "f c = Inr (b, c')"
  shows "conn_le c c'"
  using assms by (auto simp: safe_env_def intro: safe_cbD)

lemma CallWriteCompleteCallback_le:
  assumes "safe_env E" "conn_inv c" "CallWriteCompleteCallback E c = Inr c'"
  shows "conn_le c c'"
proof -
  obtain f b d where f: "ce_write_complete E = Some f" "f c = Inr (b, d)" and r: "c' = (if b then stop_writing d else d)"
    using assms(3) by (auto simp: CallWriteCompleteCallback_def split: option.splits)
  have "conn_le c d" by (rule write_complete_le[OF assms(1,2) f])
  then show ?thesis by (simp add: r conn_le_def)
qed

lemma call_functor_le:
  assumes "safe_env E" "conn_inv c" "call_functor E io f c = Inr c'" "f = FShutdown \<Longrightarrow> 2 \<le> rank c"
  shows "conn_le c c'"
proof (cases f)
  case FWriteComplete
  then show ?thesis
    using assms write_complete_le[OF assms(1,2)] by (auto simp: call_functor_def split: option.splits)
next
  case (FHighWaterMark n)
  then show ?thesis
    using assms by (auto simp: call_functor_def safe_env_def intro: safe_cbD split: option.splits)
next
  case FShutdown
  then show ?thesis
    using assms by (auto simp: call_functor_def shutdown_in_loop_def conn_le_def conn_inv_def split: if_splits)
next
  case (FSendChunkList buf)
  then show ?thesis
    using assms SendInLoopForChunkList_inv[OF _ assms(2)] by (auto simp: call_functor_def conn_le_def)
qed (use assms SendInLoop_inv[OF _ assms(2)] SendInLoopForBuf_inv[OF _ assms(2)] CallWriteCompleteCallback_le[OF assms(1,2)]
       HandleClose_le[OF assms(1,2)] in \<open>auto simp: call_functor_def conn_le_same\<close>)

lemma run_functor_le:
  assumes "safe_env E" "conn_inv c" "run_functor E io c = Inr c'"
  shows "conn_le c c'"
proof (cases "cn_functors c")
  case (Cons f fs)
  let ?c = "c\<lparr>cn_functors := fs\<rparr>"
  have 1: "conn_inv ?c" by (rule conn_inv_drop_functor[OF assms(2) Cons])
  have "f = FShutdown \<Longrightarrow> 2 \<le> rank ?c" using assms(2) Cons by (simp add: conn_inv_def)
  then have "conn_le ?c c'"
    using call_functor_le[OF assms(1) 1] assms(3) Cons by (auto simp: run_functor_def)
  then show ?thesis by (simp add: conn_le_def)
qed (use assms in \<open>simp add: run_functor_def conn_le_refl\<close>)

text \<open>What user code can do to a connection in the loop thread: the calls of its interface, reading the input buffer, and setting the
  high-water mark.\<close>

inductive user_step :: "conn_env \<Rightarrow> connection \<Rightarrow> connection \<Rightarrow> bool" for E where
  send: "Send E io True data c = Inr c' \<Longrightarrow> user_step E c c'"
| send_buf: "Send_InputBuffer E io True buf c = Inr c' \<Longrightarrow> user_step E c c'"
| send_chunks: "Send_OutputBuffer E io True cl c = Inr (cl', c') \<Longrightarrow> user_step E c c'"
| shutdown: "user_step E c (ShutdownWrite E True c)"
| force_close: "ForceClose E True c = Inr c' \<Longrightarrow> user_step E c c'"
| disable_read: "user_step E c (DisbaleRead c)"
| enable_read: "user_step E c (EnableRead c)"
| read_input: "user_step E c (c\<lparr>cn_input := b\<rparr>)"
| set_mark: "user_step E c (c\<lparr>cn_high_water_mark := m\<rparr>)"

text \<open>The callbacks are user code: their effect on the connection is that of some such calls.\<close>

definition iface_cb :: "conn_env \<Rightarrow> (connection \<Rightarrow> connection res) \<Rightarrow> bool" where
  "iface_cb E f \<longleftrightarrow> (\<forall>c c'. f c = Inr c' \<longrightarrow> (user_step E)\<^sup>*\<^sup>* c c')"

definition iface_env :: "conn_env \<Rightarrow> bool" where
  "iface_env E \<longleftrightarrow>
     pred_option (iface_cb E) (ce_connection E) \<and> pred_option (iface_cb E) (ce_message E) \<and> pred_option (iface_cb E) (ce_close E) \<and>
     pred_option (\<lambda>f. \<forall>n. iface_cb E (f n)) (ce_high_water E) \<and>
     pred_option (\<lambda>f. iface_cb E (\<lambda>c. rbind (f c) (\<lambda>(_, c). Inr c))) (ce_write_complete E)"

lemma iface_cbD: "iface_cb E f \<Longrightarrow> f c = Inr c' \<Longrightarrow> (user_step E)\<^sup>*\<^sup>* c c'"
  by (simp add: iface_cb_def)

text \<open>When the connection is down the calls of the interface leave its state alone. So a callback called while it is being closed cannot
  close it again, and every callback keeps the invariant.\<close>

lemma user_step_down:
  assumes "user_step E c c'" "conn_inv c" "cn_state c = kDisconnected"
  shows "conn_inv c' \<and> cn_state c' = kDisconnected"
  using assms
  by cases (auto simp: Send_def Send_InputBuffer_def Send_OutputBuffer_def ShutdownWrite_def ForceClose_def DisbaleRead_def EnableRead_def)

lemma user_steps_down:
  "(user_step E)\<^sup>*\<^sup>* c c' \<Longrightarrow> conn_inv c \<Longrightarrow> cn_state c = kDisconnected \<Longrightarrow> conn_inv c' \<and> cn_state c' = kDisconnected"
  by (induction rule: rtranclp_induct) (auto dest: user_step_down)

lemma HandleClose_down:
  assumes "iface_env E" "conn_inv c" "HandleClose E c = Inr c'"
  shows "conn_inv c' \<and> cn_state c' = kDisconnected"
proof -
  let ?c = "on_channel ch_DisableAll (c\<lparr>cn_state := kDisconnected\<rparr>)"
  obtain c1 where s: "cn_state c \<noteq> kConnecting" and c1: "call_cb (ce_connection E) ?c = Inr c1"
    and r: "(case ce_close E of None \<Rightarrow> Inr c1 | Some f \<Rightarrow> f c1) = Inr c'"
    using assms(3) by (auto simp: HandleClose_def)
  have "(user_step E)\<^sup>*\<^sup>* ?c c1"
    using c1 assms(1) by (auto simp: call_cb_def iface_env_def dest: iface_cbD split: option.splits)
  moreover have "(user_step E)\<^sup>*\<^sup>* c1 c'"
    using r assms(1) by (auto simp: iface_env_def dest: iface_cbD split: option.splits)
  ultimately have "(user_step E)\<^sup>*\<^sup>* ?c c'" by simp
  then show ?thesis by (rule user_steps_down) (use conn_leD[OF closing_le[OF assms(2) s]] in simp_all)
qed

lemma sends_inv:
  "Send E io in_loop data c = Inr c' \<Longrightarrow> conn_inv c \<Longrightarrow> conn_le c c'"
  "Send_InputBuffer E io in_loop buf c = Inr c' \<Longrightarrow> conn_inv c \<Longrightarrow> conn_le c c'"
  "Send_OutputBuffer E io in_loop cl c = Inr (cl', c') \<Longrightarrow> conn_inv c \<Longrightarrow> conn_le c c'"
  by (auto simp: Send_def Send_InputBuffer_def Send_OutputBuffer_def conn_le_refl conn_le_same split: if_splits
      dest: SendInLoop_inv SendInLoopForBuf_inv SendInLoopForChunkList_inv)

lemma user_step_le:
  assumes "user_step E c c'" "iface_env E" "conn_inv c"
  shows "conn_le c c'"
  using assms(1)
proof cases
  case force_close
  let ?d = "c\<lparr>cn_state := kDisconnecting\<rparr>"
  show ?thesis
  proof (cases "cn_state c = kConnected \<or> cn_state c = kDisconnecting")
    case True
    then have "conn_inv ?d" using assms(3) by (auto simp: conn_inv_def)
    moreover have "HandleClose E ?d = Inr c'" using force_close True by (simp add: ForceClose_def ForceClose_rest_def)
    ultimately have "conn_inv c' \<and> cn_state c' = kDisconnected" by (rule HandleClose_down[OF assms(2)])
    then show ?thesis by (simp add: conn_le_def)
  qed (use force_close assms(3) in \<open>auto simp: ForceClose_def conn_le_refl\<close>)
next
  case disable_read
  have "conn_inv c'" using assms(3) by (simp add: disable_read)
  then show ?thesis by (rule conn_le_same) (simp add: disable_read DisbaleRead_def)
next
  case enable_read
  have "conn_inv c'" using assms(3) by (simp add: enable_read)
  then show ?thesis by (rule conn_le_same) (simp add: enable_read EnableRead_def)
qed (use assms(3) sends_inv ShutdownWrite_le in \<open>auto intro: conn_le_same\<close>)

lemma user_steps_le: "(user_step E)\<^sup>*\<^sup>* c c' \<Longrightarrow> iface_env E \<Longrightarrow> conn_inv c \<Longrightarrow> conn_le c c'"
  by (induction rule: rtranclp_induct) (blast intro: conn_le_refl conn_le_trans conn_leD user_step_le)+

lemma iface_env_safe: "iface_env E \<Longrightarrow> safe_env E"
  using user_steps_le[of E]
  by (auto simp: iface_env_def safe_env_def safe_cb_def iface_cb_def option.pred_set)

text \<open>The steps a connection can make without its owner: the handlers of its channel, the calls of users in the loop thread, and the
  functors it queued. A send by another thread tests the state at some time and queues its functor later. \<open>ShutdownWrite\<close> and
  \<open>ForceClose\<close> by other threads are not among the steps.\<close>

inductive act_step :: "conn_env \<Rightarrow> connection \<Rightarrow> connection \<Rightarrow> bool" for E where
  readable: "HandleRead E rs c = Inr c' \<Longrightarrow> act_step E c c'"
| writable: "HandleWrite E ios c = Inr c' \<Longrightarrow> act_step E c c'"
| hangup: "HandleClose E c = Inr c' \<Longrightarrow> act_step E c c'"
| user: "user_step E c c' \<Longrightarrow> act_step E c c'"
| remote_send: "act_step E c (queue_functor (FSendStr data) c)"
| remote_send_buf: "act_step E c (queue_functor (FSendBuf buf) c)"
| remote_send_chunks: "act_step E c (queue_functor (FSendChunkList cl) c)"
| queued: "run_functor E io c = Inr c' \<Longrightarrow> act_step E c c'"

text \<open>And those of its owner.\<close>

inductive conn_step :: "conn_env \<Rightarrow> connection \<Rightarrow> connection \<Rightarrow> bool" for E where
  established: "ConnectionEstablished E c = Inr c' \<Longrightarrow> conn_step E c c'"
| destroyed: "ConnectionDestroyed E c = Inr c' \<Longrightarrow> conn_step E c c'"
| act: "act_step E c c' \<Longrightarrow> conn_step E c c'"

lemma act_step_le: "act_step E c c' \<Longrightarrow> iface_env E \<Longrightarrow> conn_inv c \<Longrightarrow> conn_le c c'"
proof (induction rule: act_step.induct)
  case (writable ios c c')
  then show ?case using HandleWrite_inv by (blast intro: conn_le_same)
qed (auto intro: HandleRead_le HandleClose_le run_functor_le user_step_le conn_le_same dest: iface_env_safe)

lemma conn_step_le: "conn_step E c c' \<Longrightarrow> iface_env E \<Longrightarrow> conn_inv c \<Longrightarrow> conn_le c c'"
  by (induction rule: conn_step.induct) (auto intro: ConnectionEstablished_le ConnectionDestroyed_le act_step_le dest: iface_env_safe)

text \<open>A connection becomes established only by its owner.\<close>

lemma user_steps_connecting:
  "(user_step E)\<^sup>*\<^sup>* c c' \<Longrightarrow> cn_state c = kConnecting \<Longrightarrow> cn_state c' = kConnecting"
proof (induction rule: rtranclp_induct)
  case (step c1 c2)
  then have "cn_state c1 = kConnecting" by simp
  with step.hyps(2) show ?case
    by cases (auto simp: Send_def Send_InputBuffer_def Send_OutputBuffer_def ShutdownWrite_def ForceClose_def DisbaleRead_def EnableRead_def)
qed

lemma deliver_connecting:
  assumes "iface_env E" "deliver E c = Inr c'" "cn_state c = kConnecting"
  shows "cn_state c' = kConnecting"
proof (cases "ce_message E")
  case (Some f)
  then have "(user_step E)\<^sup>*\<^sup>* c c'" using assms(1,2) by (auto simp: deliver_def iface_env_def dest: iface_cbD)
  then show ?thesis using assms(3) by (rule user_steps_connecting)
qed (use assms in \<open>auto simp: deliver_def\<close>)

lemma HandleClose_connecting: "cn_state c = kConnecting \<Longrightarrow> HandleClose E c = Inl AssertFail"
  by (simp add: HandleClose_def)

lemma et_read_loop_connecting:
  assumes "iface_env E" "cn_state c = kConnecting" "et_read_loop E rs i err c = Some (Inr c')"
  shows "cn_state c' = kConnecting"
proof -
  let ?P = "\<lambda>E (rs :: nat \<Rightarrow> io_result) (i :: nat) (err :: int option) (c :: connection) (r :: connection res).
      iface_env E \<longrightarrow> cn_state c = kConnecting \<longrightarrow> (\<forall>c'. r = Inr c' \<longrightarrow> cn_state (c' :: connection) = kConnecting)"
  have "?P E rs i err c r" if "et_read_loop E rs i err c = Some r" for r
    using that
  proof (rule et_read_loop.raw_induct[where P = ?P, rotated])
    fix loop E rs i err c r
    assume IH: "\<And>E rs i err c r. loop E rs i err c = Some r \<Longrightarrow> ?P E rs i err c r"
    assume B: "(case BufferReadFromFd (ce_alloc E) (rs i) (cn_input c) of
        Inl e \<Rightarrow> Some (Inl e)
      | Inr (readn, err', b) \<Rightarrow>
          let c = c\<lparr>cn_input := b\<rparr>; err = (case err' of None \<Rightarrow> err | Some e \<Rightarrow> Some e) in
          if err = Some EAGAIN then Some (Inr c)
          else if readn = 0 then Some (HandleClose E c)
          else (case deliver E c of Inl e \<Rightarrow> Some (Inl e) | Inr c \<Rightarrow> loop E rs (Suc i) err c)) = Some r"
    show "?P E rs i err c r"
    proof (intro impI allI)
      fix c' assume E: "iface_env E" and c: "cn_state c = kConnecting" and r: "r = Inr c'"
      then obtain n err' b where rd: "BufferReadFromFd (ce_alloc E) (rs i) (cn_input c) = Inr (n, err', b)"
        using B by (auto split: sum.splits)
      have "cn_state (c\<lparr>cn_input := b\<rparr>) = kConnecting" using c by simp
      then show "cn_state c' = kConnecting"
        using B r rd HandleClose_connecting[of "c\<lparr>cn_input := b\<rparr>" E] deliver_connecting[OF E, of "c\<lparr>cn_input := b\<rparr>"] IH E
        by (auto simp: Let_def split: if_splits sum.splits)
    qed
  qed
  then show ?thesis using assms by blast
qed

lemma HandleRead_connecting:
  assumes "iface_env E" "cn_state c = kConnecting" "HandleRead E rs c = Inr c'"
  shows "cn_state c' = kConnecting"
proof (cases "ce_et_mode E")
  case True
  then show ?thesis
    using assms et_read_loop_connecting[OF assms(1,2), of rs 0 None c']
    by (auto simp: HandleRead_def HandleEtRead_def ended_def split: option.splits)
next
  case False
  then show ?thesis
    using assms HandleClose_connecting deliver_connecting[OF assms(1), of "c\<lparr>cn_input := _\<rparr>" c']
    by (auto simp: HandleRead_def HandleLtRead_def Let_def split: prod.splits option.splits if_splits)
qed

lemma run_functor_connecting:
  assumes "iface_env E" "conn_inv c" "cn_state c = kConnecting" "run_functor E io c = Inr c'"
  shows "cn_state c' = kConnecting"
proof (cases "cn_functors c")
  case (Cons f fs)
  let ?c = "c\<lparr>cn_functors := fs\<rparr>"
  have c: "conn_inv ?c" "cn_state ?c = kConnecting" using conn_inv_drop_functor[OF assms(2) Cons] assms(3) by simp_all
  have r: "call_functor E io f ?c = Inr c'" using assms(4) Cons by (simp add: run_functor_def)
  have cb: "cn_state d = kConnecting" if "(user_step E)\<^sup>*\<^sup>* ?c d" for d using user_steps_connecting[OF that c(2)] .
  have wc: "(user_step E)\<^sup>*\<^sup>* ?c d" if "ce_write_complete E = Some g" "g ?c = Inr (b, d)" for g b d
    using assms(1) that by (simp add: iface_env_def iface_cb_def)
  show ?thesis
  proof (cases f)
    case (FHighWaterMark n)
    then have "(user_step E)\<^sup>*\<^sup>* ?c c'"
      using r assms(1) by (auto simp: call_functor_def iface_env_def dest: iface_cbD split: option.splits)
    then show ?thesis by (rule cb)
  next
    case (FSendChunkList buf)
    then show ?thesis using r SendInLoopForChunkList_inv[OF _ c(1)] c(2) by (auto simp: call_functor_def)
  qed (use r c assms(3) wc cb HandleClose_connecting[OF c(2)] SendInLoop_inv[OF _ c(1)] SendInLoopForBuf_inv[OF _ c(1)] in
        \<open>auto simp: call_functor_def CallWriteCompleteCallback_def shutdown_in_loop_def split: option.splits if_splits\<close>)
qed (use assms in \<open>simp add: run_functor_def\<close>)

lemma act_step_connecting:
  assumes "act_step E c c'" "iface_env E" "conn_inv c" "cn_state c = kConnecting"
  shows "cn_state c' = kConnecting"
  using assms(1)
proof cases
  case user
  then have "(user_step E)\<^sup>*\<^sup>* c c'" by blast
  then show ?thesis using assms(4) by (rule user_steps_connecting)
next
  case (readable rs)
  from assms(2,4) readable show ?thesis by (rule HandleRead_connecting)
next
  case (writable ios)
  from HandleWrite_inv[OF writable assms(3)] assms(4) show ?thesis by simp
next
  case hangup
  then show ?thesis by (simp add: HandleClose_connecting[OF assms(4)])
next
  case (queued io)
  from assms(2-4) queued show ?thesis by (rule run_functor_connecting)
qed (use assms(4) in simp_all)

lemma conn_steps_le: "(conn_step E)\<^sup>*\<^sup>* c c' \<Longrightarrow> iface_env E \<Longrightarrow> conn_inv c \<Longrightarrow> conn_le c c'"
  by (induction rule: rtranclp_induct) (blast intro: conn_le_refl conn_le_trans conn_leD conn_step_le)+

lemma ConnectionBase_inv: "conn_inv (ConnectionBase fd b)"
  by (simp add: conn_inv_def ConnectionBase_def Channel_def)

text \<open>A thread that has tested the state before the loop thread closes the connection, and goes on after it, sets the state of the
  connection, which is down, back to \<open>kDisconnecting\<close>.\<close>

lemma remote_close_race:
  assumes "iface_env E" "conn_inv c" "HandleClose E c = Inr c'"
  shows "cn_state c' = kDisconnected \<and> cn_state (ShutdownWrite_rest E False c') = kDisconnecting \<and>
    (\<exists>c''. ForceClose_rest E False c' = Inr c'' \<and> cn_state c'' = kDisconnecting)"
  using HandleClose_down[OF assms] by (simp add: ShutdownWrite_rest_def ForceClose_rest_def)

section \<open>What is offered to the kernel\<close>

lemma ChunkListWriteFd_error:
  assumes "ChunkListWriteFd write writev cl = Inr (n, Some e, w)"
  shows "n = 0 \<and> cl_buffers cl \<noteq> []"
proof -
  let ?m = "length (cl_buffers cl)" and ?k = "RoundUpDivideIn2 (length (cl_buffers cl)) IOVEC_MAX"
  have m: "?m \<noteq> 1" and r: "write_rounds ?k writev ?m (cl_buffers cl) 0 None [] = Inr (n, Some e, w)"
    using assms by (auto simp: ChunkListWriteFd_def ChunkList_GetChunkSize_def Let_def split: if_splits write_result.splits)
  then obtain j where j: "?k = Suc j" by (cases ?k) auto
  then have ne: "cl_buffers cl \<noteq> []" by (auto simp: RoundUpDivideIn2_def)
  show ?thesis
    using r ne by (cases j) (auto simp: j Let_def split: write_result.splits)
qed

lemma single_chunk_content: "cl_buffers cl = [k] \<Longrightarrow> Chunk_ToStringView k = cl_content cl"
  by (simp add: cl_content_def)

text \<open>A kernel that takes at most \<open>k\<close> bytes of a call, and refuses a vector of more than \<open>IOV_MAX\<close> blocks, as \<open>writev(2)\<close> does.\<close>

definition takes :: "nat \<Rightarrow> sock_io" where
  "takes k = \<lparr>io_write = (\<lambda>bs. WOk (min k (length bs))),
              io_writev = (\<lambda>v. if 1024 < length v then WErr 22 else WOk (min k (length (concat v))))\<rparr>"

text \<open>The bytes it takes when the output is offered to it.\<close>

definition flushed :: "nat \<Rightarrow> chunk_list \<Rightarrow> bytes" where
  "flushed k cl = (if 1024 < length (cl_buffers cl) then [] else take k (cl_content cl))"

lemma sum_list_bound: "\<forall>x \<in> set xs. f x \<le> (n :: nat) \<Longrightarrow> sum_list (map f xs) \<le> length xs * n"
  by (induction xs) (simp_all add: add_mono)

lemma cl_content_bound:
  assumes "cl_ok cl"
  shows "length (cl_content cl) \<le> length (cl_buffers cl) * 4096"
  unfolding length_cl_content[OF assms]
proof (rule sum_list_bound, rule ballI)
  fix c
  assume "c \<in> set (cl_buffers cl)"
  from cl_okD(1)[OF assms this] show "Chunk_GetReadableSize c \<le> 4096"
    unfolding Chunk_GetReadableSize_def chunk_ok_def by linarith
qed

lemma unat_taken:
  assumes "cl_ok cl" "length (cl_buffers cl) \<le> 1024"
  shows "unat (of_nat (min k (length (cl_content cl))) :: usize) = min k (length (cl_content cl))"
proof (rule unat_of_nat_usize)
  have "length (cl_content cl) \<le> 1024 * 4096"
    using cl_content_bound[OF assms(1)] assms(2) by linarith
  then show "min k (length (cl_content cl)) < 2 ^ 64" by (simp add: min_def)
qed

lemma ChunkListWriteFd_takes:
  assumes "cl_ok cl"
  shows "\<exists>n err. ChunkListWriteFd (io_write (takes k)) (io_writev (takes k)) cl = Inr (n, err, flushed k cl) \<and>
    unat n = length (flushed k cl)"
proof -
  let ?m = "length (cl_buffers cl)"
  have view: "concat (map Chunk_ToStringView (cl_buffers cl)) = cl_content cl" by (simp add: cl_content_def)
  have tk: "take (min k (length bs)) bs = take k bs" for bs :: bytes by (cases "k \<le> length bs") simp_all
  consider "?m = 0" | "?m = 1" | "?m \<noteq> 1" "0 < ?m" "?m \<le> 1024" | "1024 < ?m" by linarith
  then show ?thesis
  proof cases
    case 1
    then show ?thesis
      by (simp add: ChunkListWriteFd_def ChunkList_GetChunkSize_def RoundUpDivideIn2_def flushed_def cl_content_def)
  next
    case 2
    then obtain c where c: "cl_buffers cl = [c]" by (auto simp: length_Suc_conv)
    show ?thesis
      using unat_taken[OF assms, of k] single_chunk_content[OF c]
      by (simp add: c ChunkListWriteFd_def ChunkList_GetChunkSize_def takes_def flushed_def Let_def tk min.commute)
  next
    case 3
    then show ?thesis
      using ChunkListWriteFd_vector[of cl] unat_taken[OF assms, of k]
      by (simp add: ChunkList_GetChunkSize_def takes_def flushed_def view tk min.commute)
  next
    case 4
    then have "?m \<noteq> 0" by linarith
    then have "RoundUpDivideIn2 ?m IOVEC_MAX = Suc ((?m - 1) div 1024)" by (simp only: RoundUpDivideIn2_def if_False Suc_eq_plus1)
    then show ?thesis
      using 4 by (simp add: ChunkListWriteFd_def ChunkList_GetChunkSize_def takes_def flushed_def Let_def)
  qed
qed

lemma flushed_prefix: "flushed k cl @ drop (length (flushed k cl)) (cl_content cl) = cl_content cl"
  by (cases "k \<le> length (cl_content cl)") (simp_all add: flushed_def)

section \<open>The stream of bytes sent\<close>

text \<open>Level-triggered mode, no write-complete and no high-water callback, and chunks can be allocated.\<close>

definition plain_env :: "conn_env \<Rightarrow> bool" where
  "plain_env E \<longleftrightarrow> \<not> ce_et_mode E \<and> ce_write_complete E = None \<and> ce_high_water E = None \<and>
     (\<forall>n. ca_ok (ce_chunk_alloc E) n)"

definition stream_ok :: "connection \<Rightarrow> bool" where
  "stream_ok c \<longleftrightarrow> cn_state c = kConnected \<and> cl_ok (cn_output c) \<and>
     (cl_content (cn_output c) \<noteq> [] \<longrightarrow> ch_IsWriting (cn_channel c)) \<and>
     (\<forall>f \<in> set (cn_functors c). \<exists>d. f = FSendStr d)"

text \<open>A send of a string in the loop thread, one by another thread, the functor at the head of the queue and a writable socket, the kernel
  taking at most \<open>k\<close> bytes of a call. The run records the bytes given to the connection, in the order in which the loop
  thread gets to send them.\<close>

datatype stream_op = StSend bytes nat | StRemoteSend bytes | StFunctor nat | StWritable nat

fun stream_step :: "conn_env \<Rightarrow> stream_op \<Rightarrow> connection \<times> bytes \<Rightarrow> (connection \<times> bytes) res" where
  "stream_step E (StSend d k) (c, given) = rbind (Send E (takes k) True d c) (\<lambda>c'. Inr (c', given @ d))"
| "stream_step E (StRemoteSend d) (c, given) = rbind (Send E (takes 0) False d c) (\<lambda>c'. Inr (c', given))"
| "stream_step E (StFunctor k) (c, given) =
     (case cn_functors c of
        FSendStr d # _ \<Rightarrow> rbind (run_functor E (takes k) c) (\<lambda>c'. Inr (c', given @ d))
      | _ \<Rightarrow> Inr (c, given))"
| "stream_step E (StWritable k) (c, given) =
     (if ch_IsWriting (cn_channel c)
      then rbind (HandleWrite E (\<lambda>_. takes k) c) (\<lambda>c'. Inr (c', given))
      else Inr (c, given))"

fun stream_run :: "conn_env \<Rightarrow> stream_op list \<Rightarrow> connection \<times> bytes \<Rightarrow> (connection \<times> bytes) res" where
  "stream_run E [] s = Inr s"
| "stream_run E (x # xs) s = rbind (stream_step E x s) (stream_run E xs)"

lemma plain_envD:
  "plain_env E \<Longrightarrow> \<not> ce_et_mode E" "plain_env E \<Longrightarrow> ce_write_complete E = None"
  "plain_env E \<Longrightarrow> ce_high_water E = None" "plain_env E \<Longrightarrow> \<forall>n. ca_ok (ce_chunk_alloc E) n"
  by (simp_all add: plain_env_def)

lemma keep_remaining_ok:
  assumes "plain_env E" "cl_ok (cn_output c)" "rest \<noteq> []"
  shows "\<exists>out ch. keep_remaining E rest c = Inr (c\<lparr>cn_output := out, cn_channel := ch\<rparr>) \<and> ch_IsWriting ch \<and> cl_ok out \<and>
    cl_content out = cl_content (cn_output c) @ rest"
proof -
  obtain out where out: "ChunkList_Append (ce_chunk_alloc E) (cn_output c) rest = Inr out" "cl_ok out"
    "cl_content out = cl_content (cn_output c) @ rest"
    using append_postI_Inr[OF ChunkList_Append_post plain_envD(4)[OF assms(1)]] assms(2,3) by blast
  have "keep_remaining E rest c = Inr (c\<lparr>cn_output := out, cn_channel :=
      (if ch_IsWriting (cn_channel c) then cn_channel c else ch_EnableWriting (cn_channel c))\<rparr>)"
    using assms(3) out(1) plain_envD(3)[OF assms(1)]
    by (simp add: keep_remaining_def queue_if_def Let_def on_channel_def)
  then show ?thesis using out writing_bits(1) by fastforce
qed

text \<open>What the kernel took, followed by what is in the output buffer.\<close>

abbreviation (input) stream :: "connection \<Rightarrow> bytes" where
  "stream c \<equiv> cn_wire c @ cl_content (cn_output c)"

lemma stream_ok_wire [simp]: "stream_ok (on_wire bs c) = stream_ok c"
  by (simp add: stream_ok_def on_wire_def)

lemma SendInLoop_stream:
  assumes "plain_env E" "stream_ok c"
  shows "\<exists>c'. SendInLoop E (takes k) d c = Inr c' \<and> stream_ok c' \<and> stream c' = stream c @ d"
proof -
  have st: "cn_state c = kConnected" and ok: "cl_ok (cn_output c)" using assms(2) by (simp_all add: stream_ok_def)
  note kr = keep_remaining_ok[OF assms(1) ok]
  note has = HasReadable_ok[OF ok]
  have w: "io_write (takes k) d = WOk (min k (length d))" by (simp add: takes_def)
  consider "cl_content (cn_output c) \<noteq> []" "d = []" | "cl_content (cn_output c) \<noteq> []" "d \<noteq> []"
    | "cl_content (cn_output c) = []" "min k (length d) = length d"
    | "cl_content (cn_output c) = []" "min k (length d) \<noteq> length d" by blast
  then show ?thesis
  proof cases
    case 1
    then show ?thesis using assms(2) st has by (simp add: SendInLoop_def keep_remaining_def)
  next
    case 2
    then show ?thesis using kr[of d] assms(2) st has by (auto simp: SendInLoop_def stream_ok_def)
  next
    case 3
    then show ?thesis
      using assms(2) st has plain_envD(2)[OF assms(1)]
      by (simp add: SendInLoop_def stream_ok_def w queue_if_def stop_writing_def on_channel_def on_wire_def Let_def)
  next
    case 4
    then have k: "k < length d" by (simp add: min_def split: if_splits)
    let ?c = "on_wire (take k d) c"
    have "cl_ok (cn_output ?c)" "cn_output ?c = cn_output c" using ok by (simp_all add: on_wire_def)
    from keep_remaining_ok[OF assms(1) this(1), of "drop k d"] show ?thesis
      using 4 k assms(2) st has by (auto simp: SendInLoop_def stream_ok_def w min_def on_wire_def Let_def)
  qed
qed

lemma HandleWrite_stream:
  assumes "plain_env E" "stream_ok c" "ch_IsWriting (cn_channel c)"
  shows "\<exists>c'. HandleWrite E (\<lambda>_. takes k) c = Inr c' \<and> stream_ok c' \<and> stream c' = stream c"
proof -
  have st: "cn_state c = kConnected" and ok: "cl_ok (cn_output c)" using assms(2) by (simp_all add: stream_ok_def)
  let ?f = "flushed k (cn_output c)"
  obtain n err where n: "ChunkListWriteFd (io_write (takes k)) (io_writev (takes k)) (cn_output c) = Inr (n, err, ?f)"
    "unat n = length ?f" using ChunkListWriteFd_takes[OF ok] by blast
  obtain out where out: "ChunkList_AdvanceRead (cn_output c) (unat n) = Inr out" "cl_ok out"
    "cl_content out = drop (unat n) (cl_content (cn_output c))" using ChunkList_AdvanceRead_ok[OF ok] by blast
  have split: "?f @ cl_content out = cl_content (cn_output c)"
    unfolding out(3) n(2) by (rule flushed_prefix)
  have run: "HandleWrite E (\<lambda>_. takes k) c = HandleLtWrite E (takes k) c"
    using assms(3) plain_envD(1)[OF assms(1)] by (simp add: HandleWrite_def)
  show ?thesis
  proof (cases "n = 0")
    case True
    then have "?f = []" using n(2) by simp
    then show ?thesis using True n(1) assms(2) by (simp add: run HandleLtWrite_def on_wire_def)
  next
    case False
    then show ?thesis
      using n(1) out(1,2) split st assms(2,3) plain_envD(2)[OF assms(1)] HasReadable_ok[OF out(2)]
      by (auto simp: run HandleLtWrite_def Let_def word_gt_0 stream_ok_def on_channel_def on_wire_def)
  qed
qed

lemma stream_ok_functors: "stream_ok c \<Longrightarrow> set fs \<subseteq> set (cn_functors c) \<Longrightarrow> stream_ok (c\<lparr>cn_functors := fs\<rparr>)"
  by (auto simp: stream_ok_def)

lemma stream_step_ok:
  assumes "plain_env E" "stream_ok c" "stream c = w @ given"
  shows "\<exists>c' given'. stream_step E x (c, given) = Inr (c', given') \<and> stream_ok c' \<and> stream c' = w @ given'"
proof -
  have st: "cn_state c = kConnected" using assms(2) by (simp add: stream_ok_def)
  show ?thesis
  proof (cases x)
    case (StSend d k)
    then show ?thesis using SendInLoop_stream[OF assms(1,2), of k d] st assms(3) by (auto simp: Send_def)
  next
    case (StRemoteSend d)
    then show ?thesis using st assms(2,3) by (simp add: Send_def queue_functor_def stream_ok_def)
  next
    case (StWritable k)
    then show ?thesis using HandleWrite_stream[OF assms(1,2), of k] assms(2,3) by auto
  next
    case (StFunctor k)
    show ?thesis
    proof (cases "cn_functors c")
      case (Cons f fs)
      then obtain d where f: "f = FSendStr d" using assms(2) by (auto simp: stream_ok_def)
      have "stream_ok (c\<lparr>cn_functors := fs\<rparr>)" by (rule stream_ok_functors[OF assms(2)]) (auto simp: Cons)
      from SendInLoop_stream[OF assms(1) this, of k d] show ?thesis
        using assms(3) by (auto simp: StFunctor Cons f run_functor_def call_functor_def)
    qed (use assms(2,3) StFunctor in simp)
  qed
qed

lemma stream_run_ok:
  assumes "plain_env E"
  shows "stream_ok c \<Longrightarrow> stream c = w @ given \<Longrightarrow>
    \<exists>c' given'. stream_run E xs (c, given) = Inr (c', given') \<and> stream_ok c' \<and> stream c' = w @ given'"
proof (induction xs arbitrary: c given)
  case (Cons x xs)
  from stream_step_ok[OF assms Cons.prems, of x] show ?case using Cons.IH by fastforce
qed simp

section \<open>Properties\<close>

text \<open>C1. Nothing is lost, duplicated or reordered on the way to the socket, as long as no callback and no error interferes. Take a
  level-triggered connection that is up, has no write-complete and no high-water callback and an empty output buffer, and
  can allocate chunks. On every sequence of sends of strings in the loop thread and by other threads, queued sends and
  writable events, where every call of \<open>write\<close> and \<open>writev\<close> takes any number of the bytes it is passed (a vector of more than 1024
  blocks is refused), no operation fails; the bytes the kernel took from these calls, followed by the
  bytes in the output buffer, are the bytes given to the connection in the order in which the loop thread sends them; and
  the socket is watched for writing while bytes are left.\<close>

theorem Connection_stream_integrity:
  assumes "plain_env E" "stream_ok c" "cl_content (cn_output c) = []"
  shows "\<exists>c' given. stream_run E xs (c, []) = Inr (c', given) \<and>
    cn_wire c' @ cl_content (cn_output c') = cn_wire c @ given \<and>
    (cl_content (cn_output c') \<noteq> [] \<longrightarrow> ch_IsWriting (cn_channel c'))"
  using stream_run_ok[OF assms(1,2), of "cn_wire c" "[]" xs] assms(3) by (auto simp: stream_ok_def)

definition demo_env :: conn_env where
  "demo_env = \<lparr>ce_et_mode = False, ce_alloc = demo_alloc, ce_chunk_alloc = demo_chunk_alloc, ce_connection = Some Inr,
     ce_message = None, ce_write_complete = None, ce_high_water = None, ce_close = None\<rparr>"

definition demo_conn :: connection where
  "demo_conn = (ConnectionBase 5 demo_buffer)\<lparr>cn_state := kConnected\<rparr>"

lemma demo_conn_ok:
  "plain_env demo_env" "stream_ok demo_conn" "cl_content (cn_output demo_conn) = []" "conn_inv demo_conn"
  "iface_env demo_env"
  by (simp_all add: plain_env_def demo_env_def demo_chunk_alloc_def stream_ok_def demo_conn_def ConnectionBase_def
      conn_inv_def iface_env_def iface_cb_def)

theorem Connection_stream_integrity_witness:
  "plain_env demo_env \<and> stream_ok demo_conn \<and>
   (\<exists>c' given.
      stream_run demo_env [StRemoteSend [5], StSend [1, 2, 3] 2, StFunctor 0, StWritable 10] (demo_conn, []) = Inr (c', given) \<and>
      cn_wire c' @ cl_content (cn_output c') = given)"
proof -
  have "cn_wire demo_conn = []" by (simp add: demo_conn_def ConnectionBase_def)
  then show ?thesis
    using Connection_stream_integrity[OF demo_conn_ok(1-3), of "[StRemoteSend [5], StSend [1, 2, 3] 2, StFunctor 0, StWritable 10]"]
      demo_conn_ok(1,2) by auto
qed

text \<open>C14. A connection never goes back, unless another thread closes it. Take any sequence of its handlers, the calls of its
  owner, calls of its interface in the loop thread, sends by other threads and the functors it queued, with
  callbacks whose effect on the connection is that of calls of its interface, and without calls of \<open>ShutdownWrite\<close> and
  \<open>ForceClose\<close> by other threads. In every state reached, no event is watched before the connection is established or after
  it is down, a removed connection is down, and the write side is shut down only when closing; and from there
  the state only moves forward in the order connecting, connected, disconnecting, disconnected.\<close>

theorem Connection_lifecycle:
  assumes "iface_env E" "(conn_step E)\<^sup>*\<^sup>* (ConnectionBase fd b) c" "(conn_step E)\<^sup>*\<^sup>* c c'"
  shows "(cn_state c = kConnecting \<or> cn_state c = kDisconnected \<longrightarrow> ch_events (cn_channel c) = 0) \<and>
    (cn_removed c \<longrightarrow> cn_state c = kDisconnected) \<and>
    (cn_shutdown c \<longrightarrow> cn_state c = kDisconnecting \<or> cn_state c = kDisconnected) \<and>
    state_rank (cn_state c) \<le> state_rank (cn_state c')"
proof -
  have i: "conn_inv c"
    using conn_steps_le[OF assms(2,1) ConnectionBase_inv] by (rule conn_leD)
  from conn_steps_le[OF assms(3,1) i] have "state_rank (cn_state c) \<le> state_rank (cn_state c')"
    by (simp add: conn_le_def)
  with i show ?thesis by (auto simp: conn_inv_def)
qed

lemma demo_established: "(conn_step demo_env)\<^sup>*\<^sup>* (ConnectionBase 5 demo_buffer) (on_channel ch_EnableReading demo_conn)"
  by (rule r_into_rtranclp, rule conn_step.established)
     (simp add: ConnectionEstablished_def call_cb_def demo_env_def demo_conn_def ConnectionBase_def Let_def)

lemma demo_shut: "(conn_step demo_env)\<^sup>*\<^sup>* (on_channel ch_EnableReading demo_conn)
  (ShutdownWrite demo_env True (on_channel ch_EnableReading demo_conn))"
  by (rule r_into_rtranclp, rule conn_step.act, rule act_step.user, rule user_step.shutdown)

theorem Connection_lifecycle_witness:
  "iface_env demo_env \<and>
   state_rank (cn_state (on_channel ch_EnableReading demo_conn)) \<le>
   state_rank (cn_state (ShutdownWrite demo_env True (on_channel ch_EnableReading demo_conn)))"
  using Connection_lifecycle[OF demo_conn_ok(5) demo_established demo_shut]
    demo_conn_ok(5) by blast

section \<open>The edge-triggered write handler\<close>

lemma advance_length:
  assumes "ChunkList_AdvanceRead cl n = Inr cl'"
  shows "length (cl_buffers cl') \<le> length (cl_buffers cl)"
proof -
  let ?P = "\<lambda>(cl :: chunk_list) (n :: nat) (r :: chunk_list res). \<forall>cl'. r = Inr cl' \<longrightarrow> length (cl_buffers cl') \<le> length (cl_buffers cl)"
  have "?P cl n r" if "advance_loop cl n = Some r" for r
    using that
  proof (rule advance_loop.raw_induct[where P = ?P, rotated])
    fix loop cl len r
    assume IH: "\<And>cl n r. loop cl n = Some r \<Longrightarrow> ?P cl n r"
    assume B: "(case cl_buffers cl of
        [] \<Rightarrow> Some (Inr cl)
      | first_block # _ \<Rightarrow>
          let rsize = Chunk_GetReadableSize first_block in
          if rsize \<le> len then
            (case ChunkList_PutToFreeChunk cl of
               Inl e \<Rightarrow> Some (Inl e)
             | Inr r \<Rightarrow> loop (snd r) (len - rsize))
          else Some (rbind (Chunk_AdvanceRead first_block len) (\<lambda>c. Inr (set_first c cl)))) = Some r"
    have put: "length (cl_buffers (snd q)) \<le> length (cl_buffers cl)" if "ChunkList_PutToFreeChunk cl = Inr q" for q
      using that by (auto simp: ChunkList_PutToFreeChunk_def split: if_splits)
    show "?P cl len r"
      using B put by (auto simp: Let_def dest!: IH split: list.splits if_splits sum.splits)
  qed
  then show ?thesis using assms by (auto simp: ChunkList_AdvanceRead_def ended_def split: option.splits)
qed

lemma ChunkListWriteFd_returns:
  assumes "length (cl_buffers cl) \<le> 1024"
  shows "\<exists>n err w. ChunkListWriteFd write writev cl = Inr (n, err, w)"
proof -
  consider "length (cl_buffers cl) = 0" | "length (cl_buffers cl) = 1" | "length (cl_buffers cl) \<noteq> 1" "0 < length (cl_buffers cl)"
    by linarith
  then show ?thesis
  proof cases
    case 3
    then show ?thesis
      using assms ChunkListWriteFd_vector[of cl]
      by (auto simp: ChunkList_GetChunkSize_def split: write_result.splits)
  qed (auto simp: ChunkListWriteFd_def ChunkList_GetChunkSize_def RoundUpDivideIn2_def Let_def split: write_result.splits)
qed

lemma et_write_loop_diverges:
  assumes "cl_ok out" "length (cl_buffers out) \<le> 1024"
  shows "et_write_loop ios i out wire = None"
proof -
  let ?P = "\<lambda>(ios :: nat \<Rightarrow> sock_io) (i :: nat) out (wire :: bytes) (r :: (chunk_list \<times> bytes) res).
    cl_ok out \<longrightarrow> 1024 < length (cl_buffers out)"
  have "?P ios i out wire r" if "et_write_loop ios i out wire = Some r" for r
    using that
  proof (rule et_write_loop.raw_induct[where P = ?P, rotated])
    fix loop ios i out wire r
    assume IH: "\<And>ios i out wire r. loop ios i out wire = Some r \<Longrightarrow> ?P ios i out wire r"
    assume B: "(case ChunkListWriteFd (io_write (ios i)) (io_writev (ios i)) out of
        Inl e \<Rightarrow> Some (Inl e)
      | Inr (writen, saved_errno, w) \<Rightarrow>
          (case ChunkList_AdvanceRead out (unat writen) of
             Inl e \<Rightarrow> Some (Inl e)
           | Inr out \<Rightarrow>
               if \<not> ChunkList_HasReadable out \<and> saved_errno = Some EAGAIN then Some (Inr (out, wire @ w))
               else loop ios (Suc i) out (wire @ w))) = Some r"
    show "?P ios i out wire r"
    proof (rule impI, rule ccontr)
      assume ok: "cl_ok out" and "\<not> 1024 < length (cl_buffers out)"
      then have len: "length (cl_buffers out) \<le> 1024" by simp
      obtain n err w where w: "ChunkListWriteFd (io_write (ios i)) (io_writev (ios i)) out = Inr (n, err, w)"
        using ChunkListWriteFd_returns[OF len] by blast
      obtain out' where o: "ChunkList_AdvanceRead out (unat n) = Inr out'" "cl_ok out'"
        "cl_content out' = drop (unat n) (cl_content out)" using ChunkList_AdvanceRead_ok[OF ok] by blast
      have "ChunkList_HasReadable out'" if "err = Some EAGAIN"
      proof -
        have n: "n = 0" "cl_buffers out \<noteq> []" using ChunkListWriteFd_error[of _ _ out n EAGAIN w] w that by blast+
        then have "ChunkList_HasReadable out" by (simp add: ChunkList_HasReadable_def ChunkList_IsEmpty_def)
        then show ?thesis using o(2,3) n(1) by (simp add: HasReadable_ok ok)
      qed
      then have "loop ios (Suc i) out' (wire @ w) = Some r" using B w o(1) by (auto split: if_splits)
      from IH[OF this] have "1024 < length (cl_buffers out')" using o(2) by blast
      with advance_length[OF o(1)] len show False by linarith
    qed
  qed
  then show ?thesis using assms by (cases "et_write_loop ios i out wire") auto
qed

text \<open>C31. The edge-triggered write handler never returns. Its loop ends only when the output is empty and the same write reported
  \<open>EAGAIN\<close>, which no outcome of the writes brings about: a failed \<open>writev\<close> leaves the output as it is, a failed \<open>write\<close> of
  a single chunk does not set the error number, and for an empty output no system call is made.\<close>

theorem HandleEtWrite_never_returns:
  assumes "cl_ok (cn_output c)" "length (cl_buffers (cn_output c)) \<le> 1024"
  shows "HandleEtWrite E ios c = Inl Diverge"
  by (simp add: HandleEtWrite_def et_write_loop_diverges[OF assms])

theorem HandleEtWrite_never_returns_witness:
  "HandleEtWrite demo_env (\<lambda>_. takes 10) (demo_conn\<lparr>cn_output := demo_chunk_list\<rparr>) = Inl Diverge"
  by (rule HandleEtWrite_never_returns) (simp_all add: demo_chunk_list_ok demo_chunk_list_def[THEN arg_cong[where f = cl_buffers]])

section \<open>Errors of the socket\<close>

text \<open>A send on an empty output drops its data when the kernel's buffer is full.\<close>

lemma SendInLoop_drops_on_error:
  assumes "cn_state c = kConnected" "\<not> ChunkList_HasReadable (cn_output c)" "io_write io data = WErr e"
  shows "SendInLoop E io data c = Inr c"
  using assms by (simp add: SendInLoop_def on_wire_def)

text \<open>A failed write discards the output. When the output is a single chunk and \<open>write\<close> fails, with \<open>EAGAIN\<close> or any other error,
  the level-triggered handler takes the result for 2^64 - 1 bytes written: it empties the output buffer and, as after a
  complete write, stops watching the socket for writing or queues the write-complete callback.\<close>

theorem HandleLtWrite_error_discards_output:
  assumes "cl_ok (cn_output c)" "length (cl_buffers (cn_output c)) = 1"
    "io_write io (cl_content (cn_output c)) = WErr e" "cn_state c = kConnected"
  shows "\<exists>c'. HandleLtWrite E io c = Inr c' \<and> cl_content (cn_output c') = [] \<and>
    (ce_write_complete E = None \<longrightarrow> \<not> ch_IsWriting (cn_channel c')) \<and>
    (ce_write_complete E \<noteq> None \<longrightarrow> cn_functors c' = cn_functors c @ [FCallWriteComplete])"
proof -
  obtain k where k: "cl_buffers (cn_output c) = [k]" using assms(2) by (auto simp: length_Suc_conv)
  have w: "ChunkListWriteFd (io_write io) (io_writev io) (cn_output c) = Inr (- 1, None, [])"
    using assms(3) single_chunk_content[OF k] by (simp add: ChunkListWriteFd_def ChunkList_GetChunkSize_def k Let_def)
  have len: "length (cl_content (cn_output c)) \<le> unat (- 1 :: usize)"
    using cl_content_bound[OF assms(1)] assms(2) by (simp add: unsigned_minus_1_eq_mask mask_eq_exp_minus_1)
  obtain out where out: "ChunkList_AdvanceRead (cn_output c) (unat (- 1 :: usize)) = Inr out" "cl_ok out" "cl_content out = []"
    using ChunkList_AdvanceRead_ok[OF assms(1), of "unat (- 1 :: usize)"] len by auto
  then have "\<not> ChunkList_HasReadable out" by (simp add: HasReadable_ok)
  then show ?thesis
    using w out assms(4)
    by (simp add: HandleLtWrite_def Let_def word_gt_0 on_channel_def queue_functor_def writing_bits on_wire_def)
qed

definition demo_pending :: connection where
  "demo_pending = on_channel ch_EnableWriting (demo_conn\<lparr>cn_output := demo_chunk_list\<rparr>)"

lemma demo_pending_simps:
  "cn_output demo_pending = demo_chunk_list" "cn_state demo_pending = kConnected"
  "ch_IsWriting (cn_channel demo_pending)" "cn_shutdown demo_pending = False" "cn_functors demo_pending = []"
  "length (cl_buffers demo_chunk_list) = 1"
  by (simp_all add: demo_pending_def demo_conn_def ConnectionBase_def on_channel_def writing_bits demo_chunk_list_def)

theorem HandleLtWrite_error_discards_output_witness:
  "cl_ok (cn_output demo_pending) \<and>
   (\<exists>c'. HandleLtWrite demo_env \<lparr>io_write = (\<lambda>_. WErr 11), io_writev = (\<lambda>_. WErr 11)\<rparr> demo_pending = Inr c' \<and>
      cl_content (cn_output c') = [])"
  using HandleLtWrite_error_discards_output[of demo_pending "\<lparr>io_write = (\<lambda>_. WErr 11), io_writev = (\<lambda>_. WErr 11)\<rparr>" 11 demo_env]
  by (auto simp: demo_pending_simps demo_chunk_list_ok)

section \<open>Closing\<close>

text \<open>A shutdown that waits for pending output is never carried out. If \<open>ShutdownWrite\<close> is called in level-triggered mode while the
  socket is watched for writing, and the write handler then writes everything that is left, \<open>shutdown(2)\<close> has still not
  been called: the handler calls \<open>ShutdownWrite\<close> again, which does nothing because the state is already disconnecting.\<close>

theorem delayed_shutdown_never_sent:
  assumes "plain_env E" "stream_ok c" "cl_content (cn_output c) \<noteq> []" "\<not> cn_shutdown c"
    "length (cl_buffers (cn_output c)) \<le> 1024" "length (cl_content (cn_output c)) \<le> k"
  shows "\<exists>c'. HandleLtWrite E (takes k) (ShutdownWrite E True c) = Inr c' \<and> cl_content (cn_output c') = [] \<and>
    cn_state c' = kDisconnecting \<and> \<not> cn_shutdown c' \<and> cn_functors c' = cn_functors c"
proof -
  let ?c = "c\<lparr>cn_state := kDisconnecting\<rparr>"
  have ok: "cl_ok (cn_output c)" and w: "ch_IsWriting (cn_channel c)" and st: "cn_state c = kConnected"
    using assms(2,3) by (simp_all add: stream_ok_def)
  have sd: "ShutdownWrite E True c = ?c"
    using st w plain_envD(1)[OF assms(1)] by (simp add: ShutdownWrite_def ShutdownWrite_rest_def shutdown_in_loop_def)
  have fl: "flushed k (cn_output c) = cl_content (cn_output c)" using assms(5,6) by (simp add: flushed_def)
  obtain n err where n: "ChunkListWriteFd (io_write (takes k)) (io_writev (takes k)) (cn_output c) = Inr (n, err, cl_content (cn_output c))"
    "unat n = length (cl_content (cn_output c))" using ChunkListWriteFd_takes[OF ok, of k] unfolding fl by blast
  obtain out where out: "ChunkList_AdvanceRead (cn_output c) (unat n) = Inr out" "cl_ok out" "cl_content out = []"
    using ChunkList_AdvanceRead_ok[OF ok, of "unat n"] n(2) by auto
  have "n \<noteq> 0" using n(2) assms(3) by auto
  then show ?thesis
    using n(1) out plain_envD(2)[OF assms(1)] assms(4)
    by (simp add: sd HandleLtWrite_def Let_def word_gt_0 HasReadable_ok ShutdownWrite_not_connected on_channel_def on_wire_def)
qed

theorem delayed_shutdown_never_sent_witness:
  "stream_ok demo_pending \<and> cl_content (cn_output demo_pending) \<noteq> [] \<and>
   (\<exists>c'. HandleLtWrite demo_env (takes 10) (ShutdownWrite demo_env True demo_pending) = Inr c' \<and>
      cl_content (cn_output c') = [] \<and> \<not> cn_shutdown c')"
proof -
  have l: "length (cl_content demo_chunk_list) = 1"
    by (simp add: length_cl_content[OF demo_chunk_list_ok])
       (simp add: demo_chunk_list_def demo_chunk_def Chunk_GetReadableSize_def)
  then have ne: "cl_content demo_chunk_list \<noteq> []" by auto
  have "stream_ok demo_pending" by (simp add: stream_ok_def demo_pending_simps demo_chunk_list_ok)
  then show ?thesis
    using delayed_shutdown_never_sent[OF demo_conn_ok(1), of demo_pending 10] ne l by (auto simp: demo_pending_simps)
qed

text \<open>Closing twice aborts. When two threads other than the loop call \<open>ForceClose\<close>, both calls queue \<open>HandleClose\<close>: the first one
  closes the connection and the second one fails the assertion on the state, if the callbacks leave the connection down.\<close>

theorem ForceClose_twice_aborts:
  assumes "cn_state c = kConnected" "cn_functors c = []" "\<And>d. \<exists>d'. call_cb (ce_connection E) d = Inr d' \<and>
      cn_state d' = cn_state d \<and> cn_functors d' = cn_functors d" "ce_close E = None"
  shows "rbind (ForceClose E False c) (\<lambda>c. rbind (ForceClose E False c) (\<lambda>c.
    rbind (run_functor E io c) (run_functor E io))) = Inl AssertFail"
proof -
  let ?c = "c\<lparr>cn_state := kDisconnecting, cn_functors := [FHandleClose]\<rparr>"
  obtain d where d: "call_cb (ce_connection E) (on_channel ch_DisableAll (?c\<lparr>cn_state := kDisconnected\<rparr>)) = Inr d"
    "cn_state d = kDisconnected" "cn_functors d = [FHandleClose]"
    using assms(3)[of "on_channel ch_DisableAll (?c\<lparr>cn_state := kDisconnected\<rparr>)"] by (auto simp: on_channel_def)
  show ?thesis
    using assms(1,2,4) d
    by (simp add: ForceClose_def ForceClose_rest_def queue_functor_def run_functor_def call_functor_def HandleClose_def on_channel_def)
qed

theorem ForceClose_twice_aborts_witness:
  "rbind (ForceClose demo_env False demo_conn) (\<lambda>c. rbind (ForceClose demo_env False c) (\<lambda>c.
    rbind (run_functor demo_env (takes 0) c) (run_functor demo_env (takes 0)))) = Inl AssertFail"
  by (rule ForceClose_twice_aborts) (simp_all add: demo_conn_def ConnectionBase_def demo_env_def call_cb_def)

section \<open>The write-complete callback\<close>

text \<open>If bytes are queued between the write that emptied the output and the call of the write-complete callback, which answers
  that the writing is complete, the socket is no longer watched for writing although bytes are left.\<close>

lemma write_complete_stalls_output:
  assumes "ce_write_complete E = Some (\<lambda>c. Inr (True, c))" "cl_content (cn_output c) \<noteq> []"
  shows "\<exists>c'. CallWriteCompleteCallback E c = Inr c' \<and> \<not> ch_IsWriting (cn_channel c') \<and> cl_content (cn_output c') \<noteq> []"
  using assms by (simp add: CallWriteCompleteCallback_def stop_writing_def on_channel_def writing_bits)

text \<open>A vector refused with \<open>EAGAIN\<close> leaves the data of \<open>SendInLoopForBuf\<close> in the output without watching the socket.\<close>

lemma SendInLoopForBuf_unwatched:
  assumes "cn_state c = kConnected" "\<not> ChunkList_HasReadable (cn_output c)"
    "ChunkList_Append (ce_chunk_alloc E) (cn_output c) (sv_str (ToStringView buf)) = Inr out"
    "ChunkListWriteFd (io_write io) (io_writev io) out = Inr (0, Some EAGAIN, [])"
  shows "SendInLoopForBuf E io buf c = Inr (c\<lparr>cn_output := out\<rparr>)"
  using assms by (simp add: SendInLoopForBuf_def on_wire_def)

text \<open>Sending a chunk list while output is pending writes ahead of it, and a rest is spliced after the null node.\<close>

lemma SendInLoopForChunkList_pending:
  assumes "ChunkList_HasReadable (cn_output c)" "ChunkListWriteFd (io_write io) (io_writev io) buf = Inr (n, err, w)" "0 < n"
    "ChunkList_AdvanceRead buf (unat n) = Inr buf'" "ChunkList_HasReadable buf'"
  shows "SendInLoopForChunkList E io buf c = Inl NullDeref"
  using assms
  by (simp add: SendInLoopForChunkList_def Let_def ChunkList_AppendChunkList_def ChunkList_HasReadable_def
      ChunkList_IsEmpty_def queue_if_def queue_functor_def on_wire_def)

end
