(* ===== verification/XX_Hash.thy ===== *)
theory XX_Hash
  imports Byte_Order
begin

unbundle bit_operations_syntax

text \<open>
  Model of the XXH32 family of \<^verbatim>\<open>third-party/xxHash/xxhash.h\<close>, the checksum of the message codec: the one-shot hash and the
  streaming hash. The library is compiled with its defaults for 64-bit platforms (\<open>XXH_FORCE_ALIGN_CHECK\<close> and
  \<open>XXH32_ENDJMP\<close> are 0); the unrolled finalizer that the other setting selects is modelled beside the default one. A pointer
  into the input is the list of the bytes from it to the end.
\<close>

section \<open>Memory access\<close>

datatype XXH_alignment = XXH_aligned | XXH_unaligned

definition XXH_rotl32 :: "32 word \<Rightarrow> nat \<Rightarrow> 32 word" where
  "XXH_rotl32 x r = push_bit r x OR drop_bit (32 - r) x"

definition XXH_swap32 :: "32 word \<Rightarrow> 32 word" where
  "XXH_swap32 x = bswap 4 x"

definition XXH_read32 :: "endian \<Rightarrow> bytes \<Rightarrow> 32 word" where
  "XXH_read32 e ptr = mem_word e (take 4 ptr)"

definition XXH_readLE32 :: "endian \<Rightarrow> bytes \<Rightarrow> 32 word" where
  "XXH_readLE32 e ptr = (if e = LittleEndian then XXH_read32 e ptr else XXH_swap32 (XXH_read32 e ptr))"

definition XXH_readBE32 :: "endian \<Rightarrow> bytes \<Rightarrow> 32 word" where
  "XXH_readBE32 e ptr = (if e = LittleEndian then XXH_swap32 (XXH_read32 e ptr) else XXH_read32 e ptr)"

text \<open>The read of an aligned pointer dereferences it as an integer.\<close>

definition XXH_readLE32_align :: "endian \<Rightarrow> bytes \<Rightarrow> XXH_alignment \<Rightarrow> 32 word" where
  "XXH_readLE32_align e ptr align =
     (if align = XXH_unaligned then XXH_readLE32 e ptr
      else if e = LittleEndian then mem_word e (take 4 ptr)
      else XXH_swap32 (mem_word e (take 4 ptr)))"

section \<open>The hash\<close>

abbreviation (input) XXH_PRIME32_1 :: "32 word" where "XXH_PRIME32_1 \<equiv> 0x9E3779B1"
abbreviation (input) XXH_PRIME32_2 :: "32 word" where "XXH_PRIME32_2 \<equiv> 0x85EBCA77"
abbreviation (input) XXH_PRIME32_3 :: "32 word" where "XXH_PRIME32_3 \<equiv> 0xC2B2AE3D"
abbreviation (input) XXH_PRIME32_4 :: "32 word" where "XXH_PRIME32_4 \<equiv> 0x27D4EB2F"
abbreviation (input) XXH_PRIME32_5 :: "32 word" where "XXH_PRIME32_5 \<equiv> 0x165667B1"

definition XXH32_round :: "32 word \<Rightarrow> 32 word \<Rightarrow> 32 word" where
  "XXH32_round acc inp = XXH_rotl32 (acc + inp * XXH_PRIME32_2) 13 * XXH_PRIME32_1"

definition XXH32_avalanche :: "32 word \<Rightarrow> 32 word" where
  "XXH32_avalanche h32 =
     (let h32 = h32 XOR drop_bit 15 h32;
          h32 = h32 * XXH_PRIME32_2;
          h32 = h32 XOR drop_bit 13 h32;
          h32 = h32 * XXH_PRIME32_3
      in h32 XOR drop_bit 16 h32)"

text \<open>\<open>XXH_PROCESS1\<close> and \<open>XXH_PROCESS4\<close> update the hash and move the pointer.\<close>

definition XXH_PROCESS1 :: "32 word \<times> bytes \<Rightarrow> 32 word \<times> bytes" where
  "XXH_PROCESS1 = (\<lambda>(h32, ptr). (XXH_rotl32 (h32 + ucast (hd ptr) * XXH_PRIME32_5) 11 * XXH_PRIME32_1, tl ptr))"

definition XXH_PROCESS4 :: "endian \<Rightarrow> XXH_alignment \<Rightarrow> 32 word \<times> bytes \<Rightarrow> 32 word \<times> bytes" where
  "XXH_PROCESS4 e align = (\<lambda>(h32, ptr).
     (XXH_rotl32 (h32 + XXH_readLE32_align e ptr align * XXH_PRIME32_3) 17 * XXH_PRIME32_4, drop 4 ptr))"

fun finalize4 :: "endian \<Rightarrow> XXH_alignment \<Rightarrow> 32 word \<times> bytes \<Rightarrow> nat \<Rightarrow> (32 word \<times> bytes) \<times> nat" where
  "finalize4 e align hp len =
     (if 4 \<le> len then finalize4 e align (XXH_PROCESS4 e align hp) (len - 4) else (hp, len))"

fun finalize1 :: "32 word \<times> bytes \<Rightarrow> nat \<Rightarrow> 32 word \<times> bytes" where
  "finalize1 hp 0 = hp"
| "finalize1 hp (Suc len) = finalize1 (XXH_PROCESS1 hp) len"

declare finalize4.simps [simp del]

definition XXH32_finalize :: "endian \<Rightarrow> 32 word \<Rightarrow> bytes \<Rightarrow> nat \<Rightarrow> XXH_alignment \<Rightarrow> 32 word" where
  "XXH32_finalize e h32 ptr len align =
     (let (hp, len) = finalize4 e align (h32, ptr) (len mod 16) in XXH32_avalanche (fst (finalize1 hp len)))"

text \<open>The branch of \<open>XXH32_ENDJMP\<close>: a \<open>switch\<close> whose cases fall through to the next smaller length with the same remainder,
  and for the remainder 3 to the single bytes.\<close>

fun finalize_switch :: "endian \<Rightarrow> XXH_alignment \<Rightarrow> nat \<Rightarrow> 32 word \<times> bytes \<Rightarrow> 32 word \<times> bytes" where
  "finalize_switch e align n hp =
     (let p4 = XXH_PROCESS4 e align; p1 = XXH_PROCESS1 in
      if n \<in> {12, 8} then finalize_switch e align (n - 4) (p4 hp)
      else if n = 4 then p4 hp
      else if n \<in> {13, 9} then finalize_switch e align (n - 4) (p4 hp)
      else if n = 5 then p1 (p4 hp)
      else if n \<in> {14, 10} then finalize_switch e align (n - 4) (p4 hp)
      else if n = 6 then p1 (p1 (p4 hp))
      else if n \<in> {15, 11, 7} then finalize_switch e align (n - 4) (p4 hp)
      else if n \<in> {3, 2, 1} then finalize_switch e align (n - 1) (p1 hp)
      else hp)"

declare finalize_switch.simps [simp del]

definition XXH32_finalize_endjmp :: "endian \<Rightarrow> 32 word \<Rightarrow> bytes \<Rightarrow> nat \<Rightarrow> XXH_alignment \<Rightarrow> 32 word" where
  "XXH32_finalize_endjmp e h32 ptr len align = XXH32_avalanche (fst (finalize_switch e align (len mod 16) (h32, ptr)))"

text \<open>The four lanes, and the loop over the stripes of 16 bytes, which leaves the pointer at the last incomplete one.\<close>

type_synonym lanes = "32 word \<times> 32 word \<times> 32 word \<times> 32 word"

definition lanes_init :: "32 word \<Rightarrow> lanes" where
  "lanes_init seed = (seed + XXH_PRIME32_1 + XXH_PRIME32_2, seed + XXH_PRIME32_2, seed + 0, seed - XXH_PRIME32_1)"

definition lanes_round :: "(bytes \<Rightarrow> 32 word) \<Rightarrow> lanes \<Rightarrow> bytes \<Rightarrow> lanes" where
  "lanes_round rd = (\<lambda>(v1, v2, v3, v4) p.
     (XXH32_round v1 (rd p), XXH32_round v2 (rd (drop 4 p)), XXH32_round v3 (rd (drop 8 p)), XXH32_round v4 (rd (drop 12 p))))"

fun stripes :: "(bytes \<Rightarrow> 32 word) \<Rightarrow> lanes \<Rightarrow> bytes \<Rightarrow> lanes \<times> bytes" where
  "stripes rd v p = (if 16 \<le> length p then stripes rd (lanes_round rd v p) (drop 16 p) else (v, p))"

declare stripes.simps [simp del]

definition lanes_merge :: "lanes \<Rightarrow> 32 word" where
  "lanes_merge = (\<lambda>(v1, v2, v3, v4). XXH_rotl32 v1 1 + XXH_rotl32 v2 7 + XXH_rotl32 v3 12 + XXH_rotl32 v4 18)"

definition XXH32_endian_align :: "endian \<Rightarrow> bytes \<Rightarrow> 32 word \<Rightarrow> XXH_alignment \<Rightarrow> 32 word" where
  "XXH32_endian_align e inp seed align =
     (let len = length inp;
          (h32, p) = (if 16 \<le> len
             then let (v, p) = stripes (\<lambda>p. XXH_readLE32_align e p align) (lanes_init seed) inp in (lanes_merge v, p)
             else (seed + XXH_PRIME32_5, inp));
          h32 = h32 + of_nat len
      in XXH32_finalize e h32 p (len mod 16) align)"

definition XXH32 :: "endian \<Rightarrow> bytes \<Rightarrow> 32 word \<Rightarrow> 32 word" where
  "XXH32 e inp seed = XXH32_endian_align e inp seed XXH_unaligned"

section \<open>Streaming\<close>

text \<open>\<open>mem32\<close> is treated as an array of 16 bytes.\<close>

record XXH32_state =
  total_len_32 :: "32 word"
  large_len :: "32 word"
  lanes_v :: lanes
  mem32 :: bytes
  memsize :: "32 word"

definition XXH32_reset :: "32 word \<Rightarrow> XXH32_state" where
  "XXH32_reset seed =
     \<lparr>total_len_32 = 0, large_len = 0, lanes_v = lanes_init seed, mem32 = replicate 16 0, memsize = 0\<rparr>"

text \<open>Completing the stripe left from the previous update, and the loop over the rest of the input.\<close>

definition update_fill :: "endian \<Rightarrow> XXH32_state \<Rightarrow> bytes \<Rightarrow> XXH32_state \<times> bytes" where
  "update_fill e s p =
     (if memsize s \<noteq> 0
      then let k = 16 - unat (memsize s);
               m = put_at (unat (memsize s)) (take k p) (mem32 s)
           in (s\<lparr>mem32 := m, lanes_v := lanes_round (XXH_readLE32 e) (lanes_v s) m, memsize := 0\<rparr>, drop k p)
      else (s, p))"

definition update_rest :: "endian \<Rightarrow> XXH32_state \<Rightarrow> bytes \<Rightarrow> XXH32_state" where
  "update_rest e s p =
     (let (v, p) = stripes (XXH_readLE32 e) (lanes_v s) p;
          s = s\<lparr>lanes_v := v\<rparr>
      in if p \<noteq> [] then s\<lparr>mem32 := put_at 0 p (mem32 s), memsize := of_nat (length p)\<rparr> else s)"

text \<open>A null pointer is allowed as an input of length 0.\<close>

definition XXH32_update :: "endian \<Rightarrow> XXH32_state \<Rightarrow> bytes option \<Rightarrow> XXH32_state" where
  "XXH32_update e s inp = (case inp of None \<Rightarrow> s | Some p \<Rightarrow>
     let len = length p;
         s = s\<lparr>total_len_32 := total_len_32 s + of_nat len\<rparr>;
         s = s\<lparr>large_len := large_len s OR (if 16 \<le> len \<or> 16 \<le> total_len_32 s then 1 else 0)\<rparr>
     in if unat (memsize s) + len < 16
        then s\<lparr>mem32 := put_at (unat (memsize s)) p (mem32 s), memsize := memsize s + of_nat len\<rparr>
        else let (s, p) = update_fill e s p in update_rest e s p)"

definition XXH32_digest :: "endian \<Rightarrow> XXH32_state \<Rightarrow> 32 word" where
  "XXH32_digest e s =
     (let h32 = (if large_len s \<noteq> 0 then lanes_merge (lanes_v s)
                 else (case lanes_v s of (v1, v2, v3, v4) \<Rightarrow> v3 + XXH_PRIME32_5));
          h32 = h32 + total_len_32 s
      in XXH32_finalize e h32 (mem32 s) (unat (memsize s)) XXH_aligned)"

text \<open>The canonical representation of a hash is big endian.\<close>

definition XXH32_canonicalFromHash :: "endian \<Rightarrow> 32 word \<Rightarrow> bytes" where
  "XXH32_canonicalFromHash e hash = mem_bytes e 4 (if e = LittleEndian then XXH_swap32 hash else hash)"

definition XXH32_hashFromCanonical :: "endian \<Rightarrow> bytes \<Rightarrow> 32 word" where
  "XXH32_hashFromCanonical e src = XXH_readBE32 e src"


section \<open>Reading is independent of alignment\<close>

lemma readLE32_align [simp]: "XXH_readLE32_align e p a = XXH_readLE32 e p"
  by (simp add: XXH_readLE32_align_def XXH_readLE32_def XXH_read32_def)

text \<open>The bytes are taken as a little-endian number on hosts of both byte orders.\<close>

lemma readLE32_value:
  "4 \<le> length p \<Longrightarrow> XXH_readLE32 e p = of_nat (bytes_nat (take 4 p))"
  by (cases e)
     (simp_all add: XXH_readLE32_def XXH_read32_def XXH_swap32_def bswap_def mem_word_def nat_bytes_of_nat
       del: nat_bytes_numeral)

lemma readLE32_take:
  assumes "take 4 p = take 4 q" "4 \<le> length p"
  shows "XXH_readLE32 e p = XXH_readLE32 e' q"
proof -
  have "4 \<le> length q" using arg_cong [OF assms(1), of length] assms(2) by simp
  with assms show ?thesis by (simp add: readLE32_value)
qed

section \<open>The finalizer\<close>

text \<open>It reads the first bytes only, so it may be given the whole array \<open>mem32\<close>.\<close>

lemma take_le_eq: "take n p = take n q \<Longrightarrow> k \<le> n \<Longrightarrow> take k p = take k q"
  by (metis min.absorb1 take_take)

lemma finalize4_prefix:
  assumes "take n p = take n q" "n \<le> length p" "finalize4 e a (h, p) n = ((h1, p1), m)"
  shows "\<exists>q1. finalize4 e' b (h, q) n = ((h1, q1), m) \<and> take m p1 = take m q1 \<and> m \<le> length p1"
  using assms
proof (induction n arbitrary: h p q rule: less_induct)
  case (less n)
  show ?case
  proof (cases "4 \<le> n")
    case True
    let ?h = "XXH_rotl32 (h + XXH_readLE32 e p * XXH_PRIME32_3) 17 * XXH_PRIME32_4"
    have rd: "XXH_readLE32 e' q = XXH_readLE32 e p"
      using readLE32_take [OF take_le_eq [OF less.prems(1) True], of e e'] less.prems(2) True by simp
    have dp: "take (n - 4) (drop 4 p) = take (n - 4) (drop 4 q)"
      using arg_cong [OF less.prems(1), of "drop 4"] by (simp add: drop_take)
    have "finalize4 e a (?h, drop 4 p) (n - 4) = ((h1, p1), m)"
      using less.prems(3) True by (subst (asm) finalize4.simps) (simp add: XXH_PROCESS4_def)
    from less.IH [OF _ dp _ this] True less.prems(2)
    have "\<exists>q1. finalize4 e' b (?h, drop 4 q) (n - 4) = ((h1, q1), m) \<and> take m p1 = take m q1 \<and> m \<le> length p1"
      by simp
    then show ?thesis
      using True by (subst finalize4.simps) (simp add: XXH_PROCESS4_def rd)
  next
    case False
    then have "finalize4 d x y n = (y, n)" for d x y by (subst finalize4.simps) simp
    then show ?thesis using less.prems by auto
  qed
qed

lemma finalize1_prefix:
  "take n p = take n q \<Longrightarrow> n \<le> length p \<Longrightarrow> fst (finalize1 (h, p) n) = fst (finalize1 (h, q) n)"
proof (induction n arbitrary: h p q)
  case (Suc n)
  then obtain x p' q' where "p = x # p'" "q = x # q'" "take n p' = take n q'" "n \<le> length p'"
    by (cases p; cases q) auto
  with Suc.IH [of p' q'] show ?case by (simp add: XXH_PROCESS1_def)
qed simp

lemma finalize_prefix:
  assumes "take (n mod 16) p = take (n mod 16) q" "n mod 16 \<le> length p"
  shows "XXH32_finalize e h p n a = XXH32_finalize e' h q n b"
proof -
  obtain h1 p1 m where f: "finalize4 e a (h, p) (n mod 16) = ((h1, p1), m)"
    by (metis surj_pair)
  from finalize4_prefix [OF assms f, of e' b]
  obtain q1 where "finalize4 e' b (h, q) (n mod 16) = ((h1, q1), m)" "take m p1 = take m q1" "m \<le> length p1" by auto
  with f finalize1_prefix [of m p1 q1 h1] show ?thesis by (simp add: XXH32_finalize_def)
qed

text \<open>The unrolled finalizer computes the same hash.\<close>

lemma finalize_switch_less4:
  "finalize_switch e a 0 hp = hp"
  "finalize_switch e a (Suc 0) hp = XXH_PROCESS1 hp"
  "finalize_switch e a 2 hp = XXH_PROCESS1 (XXH_PROCESS1 hp)"
  "finalize_switch e a 3 hp = XXH_PROCESS1 (XXH_PROCESS1 (XXH_PROCESS1 hp))"
proof -
  show f0: "finalize_switch e a 0 hp = hp" for hp by (subst finalize_switch.simps) simp
  show f1: "finalize_switch e a (Suc 0) hp = XXH_PROCESS1 hp" for hp by (subst finalize_switch.simps) (simp add: f0)
  show f2: "finalize_switch e a 2 hp = XXH_PROCESS1 (XXH_PROCESS1 hp)" for hp
    by (subst finalize_switch.simps) (simp add: f1)
  show "finalize_switch e a 3 hp = XXH_PROCESS1 (XXH_PROCESS1 (XXH_PROCESS1 hp))"
    by (subst finalize_switch.simps) (simp add: f2)
qed

lemma finalize1_less4:
  "finalize1 hp 2 = XXH_PROCESS1 (XXH_PROCESS1 hp)"
  "finalize1 hp 3 = XXH_PROCESS1 (XXH_PROCESS1 (XXH_PROCESS1 hp))"
  by (simp_all add: numeral_2_eq_2 numeral_3_eq_3)

lemma finalize_switch_4:
  assumes "4 \<le> n" "n < 16"
  shows "finalize_switch e a n hp = finalize_switch e a (n - 4) (XXH_PROCESS4 e a hp)"
proof -
  have "n \<in> {4, 5, 6} \<or> n \<in> {12, 8, 13, 9, 14, 10, 15, 11, 7}"
    using assms unfolding insert_iff empty_iff by presburger
  then show ?thesis
  proof
    assume "n \<in> {4, 5, 6}"
    then show ?thesis by (subst finalize_switch.simps) (auto simp: finalize_switch_less4)
  next
    assume "n \<in> {12, 8, 13, 9, 14, 10, 15, 11, 7}"
    then show ?thesis by (subst finalize_switch.simps) auto
  qed
qed

lemma finalize_switch_loop:
  "n < 16 \<Longrightarrow> finalize_switch e a n hp = (let (hp, m) = finalize4 e a hp n in finalize1 hp m)"
proof (induction n arbitrary: hp rule: less_induct)
  case (less n)
  show ?case
  proof (cases "n < 4")
    case True
    then have "n = 0 \<or> n = Suc 0 \<or> n = 2 \<or> n = 3" by arith
    with True show ?thesis
      by (subst finalize4.simps) (auto simp: finalize_switch_less4 finalize1_less4)
  next
    case False
    with less show ?thesis by (subst finalize4.simps) (simp add: finalize_switch_4)
  qed
qed

lemma XXH32_finalize_endjmp: "XXH32_finalize_endjmp e h p n a = XXH32_finalize e h p n a"
  by (simp add: XXH32_finalize_endjmp_def XXH32_finalize_def finalize_switch_loop split: prod.splits)

section \<open>Stripes\<close>

lemma stripes_short [simp]: "length p < 16 \<Longrightarrow> stripes rd v p = (v, p)"
  by (subst stripes.simps) simp

lemma stripes_long: "16 \<le> length p \<Longrightarrow> stripes rd v p = stripes rd (lanes_round rd v p) (drop 16 p)"
  by (subst stripes.simps) simp

lemma length_stripes: "length (snd (stripes rd v p)) = length p mod 16"
proof (induction p arbitrary: v rule: measure_induct_rule [of length])
  case (less p)
  show ?case
  proof (cases "16 \<le> length p")
    case True
    with less.IH [of "drop 16 p" "lanes_round rd v p"] show ?thesis by (simp add: stripes_long le_mod_geq)
  qed simp
qed

lemma lanes_round_prefix:
  assumes "take 16 p = take 16 q" "16 \<le> length p"
  shows "lanes_round (XXH_readLE32 e) v p = lanes_round (XXH_readLE32 e') v q"
proof -
  have "XXH_readLE32 e (drop k p) = XXH_readLE32 e' (drop k q)" if "k + 4 \<le> 16" for k
    using arg_cong [OF assms(1), of "\<lambda>x. take 4 (drop k x)"] that assms(2)
    by (intro readLE32_take) (simp_all add: drop_take min_absorb1)
  from this [of 0] this [of 4] this [of 8] this [of 12] show ?thesis
    by (simp add: lanes_round_def split_beta)
qed

lemma stripes_endian: "stripes (XXH_readLE32 e) v p = stripes (XXH_readLE32 e') v p"
proof (induction p arbitrary: v rule: measure_induct_rule [of length])
  case (less p)
  show ?case
  proof (cases "16 \<le> length p")
    case True
    from less.IH [of "drop 16 p" "lanes_round (XXH_readLE32 e) v p"] True
    have "stripes (XXH_readLE32 e) v p = stripes (XXH_readLE32 e') (lanes_round (XXH_readLE32 e) v p) (drop 16 p)"
      by (simp add: stripes_long)
    with lanes_round_prefix [OF refl True, of e v e'] True show ?thesis by (simp add: stripes_long)
  qed simp
qed

text \<open>The loop may be stopped after any part of the input and resumed on the incomplete stripe it left.\<close>

lemma stripes_append:
  "stripes (XXH_readLE32 e) v (p @ q) =
   (case stripes (XXH_readLE32 e) v p of (v', r) \<Rightarrow> stripes (XXH_readLE32 e) v' (r @ q))"
proof (induction p arbitrary: v rule: measure_induct_rule [of length])
  case (less p)
  show ?case
  proof (cases "16 \<le> length p")
    case True
    have "lanes_round (XXH_readLE32 e) v (p @ q) = lanes_round (XXH_readLE32 e) v p"
      using True by (intro lanes_round_prefix) simp_all
    with less.IH [of "drop 16 p" "lanes_round (XXH_readLE32 e) v p"] True show ?thesis by (simp add: stripes_long)
  qed simp
qed

section \<open>The streaming hash is the hash of everything it was given\<close>

text \<open>The state after the bytes \<open>data\<close>. The field \<open>large_len\<close> remembers that 16 bytes were seen when the total wraps around.\<close>

definition xxh_after :: "endian \<Rightarrow> 32 word \<Rightarrow> bytes \<Rightarrow> XXH32_state \<Rightarrow> bool" where
  "xxh_after e seed data s \<longleftrightarrow>
     total_len_32 s = of_nat (length data) \<and> (large_len s \<noteq> 0 \<longleftrightarrow> 16 \<le> length data) \<and>
     length (mem32 s) = 16 \<and> unat (memsize s) = length data mod 16 \<and>
     stripes (XXH_readLE32 e) (lanes_init seed) data = (lanes_v s, take (length data mod 16) (mem32 s))"

lemma xxh_after_reset: "xxh_after e seed [] (XXH32_reset seed)"
  by (simp add: xxh_after_def XXH32_reset_def)

lemma large_len_update:
  assumes "(l :: 32 word) \<noteq> 0 \<longleftrightarrow> 16 \<le> a"
  shows "(l OR (if 16 \<le> n \<or> 16 \<le> (of_nat a + of_nat n :: 32 word) then 1 else 0)) \<noteq> 0 \<longleftrightarrow> 16 \<le> a + n"
proof (cases "16 \<le> a \<or> 16 \<le> n")
  case True
  with assms show ?thesis by (auto simp: or_eq_0_iff)
next
  case False
  then have "unat (of_nat (a + n) :: 32 word) = a + n" unfolding unat_of_nat by simp
  then have "16 \<le> (of_nat a + of_nat n :: 32 word) \<longleftrightarrow> 16 \<le> a + n"
    by (simp add: word_le_nat_alt)
  with False assms show ?thesis by simp
qed

text \<open>Completing the stripe in the buffer is one round of the loop.\<close>

lemma stripes_fill:
  assumes "length m = 16" "k < 16" "16 \<le> k + length p"
  shows "stripes (XXH_readLE32 e) v (take k m @ p) =
    stripes (XXH_readLE32 e) (lanes_round (XXH_readLE32 e) v (put_at k (take (16 - k) p) m)) (drop (16 - k) p)"
proof -
  have "put_at k (take (16 - k) p) m = take 16 (take k m @ p)"
    using assms by (simp add: put_at_def min_absorb2)
  then have "lanes_round (XXH_readLE32 e) v (put_at k (take (16 - k) p) m) = lanes_round (XXH_readLE32 e) v (take k m @ p)"
    using assms by (intro lanes_round_prefix) (simp_all add: min_absorb2)
  then show ?thesis using assms by (simp add: stripes_long)
qed

lemma put_at_0: "length p \<le> length m \<Longrightarrow> take (length p) (put_at 0 p m) = p"
  by (simp add: put_at_def)

lemma update_fill_spec:
  assumes "update_fill e s p = (s', p')" "length (mem32 s) = 16" "unat (memsize s) < 16" "16 \<le> unat (memsize s) + length p"
  shows "stripes (XXH_readLE32 e) (lanes_v s') p' =
      stripes (XXH_readLE32 e) (lanes_v s) (take (unat (memsize s)) (mem32 s) @ p)"
    "length (mem32 s') = 16" "memsize s' = 0" "total_len_32 s' = total_len_32 s" "large_len s' = large_len s"
  using assms stripes_fill [of "mem32 s" "unat (memsize s)" p e "lanes_v s"]
  by (auto simp: update_fill_def Let_def split: if_splits)

lemma update_rest_spec:
  assumes "stripes (XXH_readLE32 e) (lanes_v s) p = (v, r)" "length (mem32 s) = 16" "memsize s = 0"
  shows "lanes_v (update_rest e s p) = v" "take (length r) (mem32 (update_rest e s p)) = r"
    "unat (memsize (update_rest e s p)) = length r" "length (mem32 (update_rest e s p)) = 16"
    "total_len_32 (update_rest e s p) = total_len_32 s" "large_len (update_rest e s p) = large_len s"
proof -
  have r: "length r < 16"
    using length_stripes [of "XXH_readLE32 e" "lanes_v s" p] assms(1) by simp
  have u: "unat (of_nat (length r) :: 32 word) = length r" unfolding unat_of_nat using r by simp
  show "lanes_v (update_rest e s p) = v" "take (length r) (mem32 (update_rest e s p)) = r"
    "unat (memsize (update_rest e s p)) = length r" "length (mem32 (update_rest e s p)) = 16"
    "total_len_32 (update_rest e s p) = total_len_32 s" "large_len (update_rest e s p) = large_len s"
    using assms r u by (auto simp: update_rest_def Let_def put_at_0)
qed

lemma xxh_after_update:
  assumes "xxh_after e seed data s"
  shows "xxh_after e seed (data @ p) (XXH32_update e s (Some p))"
proof -
  let ?rd = "XXH_readLE32 e" and ?k = "length data mod 16" and ?n = "length (data @ p) mod 16"
  let ?s = "s\<lparr>total_len_32 := total_len_32 s + of_nat (length p),
    large_len := large_len s OR (if 16 \<le> length p \<or> 16 \<le> total_len_32 s + of_nat (length p) then 1 else 0)\<rparr>"
  from assms have t: "total_len_32 s = of_nat (length data)" and l: "large_len s \<noteq> 0 \<longleftrightarrow> 16 \<le> length data"
    and m: "length (mem32 s) = 16" and k: "unat (memsize s) = ?k"
    and st: "stripes ?rd (lanes_init seed) data = (lanes_v s, take ?k (mem32 s))"
    by (auto simp: xxh_after_def)
  have all: "stripes ?rd (lanes_init seed) (data @ p) = stripes ?rd (lanes_v s) (take ?k (mem32 s) @ p)"
    by (subst stripes_append) (simp add: st)
  show ?thesis
  proof (cases "?k + length p < 16")
    case True
    have "?n = (?k + length p) mod 16" by (simp add: mod_add_left_eq)
    with True have n: "?n = ?k + length p" by simp
    have ms: "unat (memsize s + of_nat (length p)) = ?k + length p"
      using True k by (simp add: unat_word_ariths unat_of_nat)
    have "take ?n (put_at ?k p (mem32 s)) = take ?k (mem32 s) @ p"
      using m n by (simp add: put_at_def)
    with True m k n ms large_len_update [OF l, of "length p"] show ?thesis
      by (simp add: xxh_after_def XXH32_update_def Let_def t all)
  next
    case False
    obtain s' p' where fill: "update_fill e ?s p = (s', p')" by (metis surj_pair)
    obtain v r where rest: "stripes ?rd (lanes_v s') p' = (v, r)" by (metis surj_pair)
    have kb: "unat (memsize ?s) < 16" "16 \<le> unat (memsize ?s) + length p" "length (mem32 ?s) = 16"
      using False k m by simp_all
    note f = update_fill_spec [OF fill kb(3,1,2)]
    have res: "stripes ?rd (lanes_init seed) (data @ p) = (v, r)" using f(1) rest k by (simp add: all)
    then have n: "length r = ?n" using length_stripes [of ?rd "lanes_init seed" "data @ p"] by simp
    have "XXH32_update e s (Some p) = update_rest e s' p'"
      using False k fill by (simp add: XXH32_update_def Let_def)
    with update_rest_spec [OF rest f(2,3)] f(4,5) n res show ?thesis
      by (simp add: xxh_after_def t large_len_update [OF l])
  qed
qed

lemma xxh_after_updates:
  "xxh_after e seed data s \<Longrightarrow>
   xxh_after e seed (data @ concat ps) (fold (\<lambda>p s. XXH32_update e s (Some p)) ps s)"
proof (induction ps arbitrary: data s)
  case (Cons p ps)
  from Cons.IH [OF xxh_after_update [OF Cons.prems]] show ?case by simp
qed simp

lemma xxh_after_digest:
  assumes "xxh_after e seed data s"
  shows "XXH32_digest e s = XXH32 e data seed"
proof -
  let ?rd = "XXH_readLE32 e" and ?k = "length data mod 16"
  have k: "unat (memsize s) = ?k" and st: "stripes ?rd (lanes_init seed) data = (lanes_v s, take ?k (mem32 s))"
    and m: "length (mem32 s) = 16"
    using assms by (auto simp: xxh_after_def)
  have fin: "XXH32_finalize e h (mem32 s) ?k XXH_aligned = XXH32_finalize e h (take ?k (mem32 s)) ?k XXH_unaligned" for h
    by (rule finalize_prefix) (simp_all add: m less_imp_le)
  show ?thesis
  proof (cases "16 \<le> length data")
    case True
    with assms st k fin show ?thesis
      by (simp add: XXH32_digest_def XXH32_def XXH32_endian_align_def xxh_after_def Let_def)
  next
    case False
    with st have "lanes_v s = lanes_init seed" "data = take ?k (mem32 s)" by simp_all
    with assms False k fin show ?thesis
      by (simp add: XXH32_digest_def XXH32_def XXH32_endian_align_def xxh_after_def Let_def lanes_init_def)
  qed
qed

text \<open>The hash does not depend on the byte order of the host.\<close>

lemma XXH32_endian: "XXH32 e data seed = XXH32 e' data seed"
proof -
  let ?k = "length data mod 16"
  obtain v r where st: "stripes (XXH_readLE32 e) (lanes_init seed) data = (v, r)" by (metis surj_pair)
  with length_stripes [of "XXH_readLE32 e" "lanes_init seed" data] have r: "length r = ?k" by simp
  have "stripes (XXH_readLE32 e') (lanes_init seed) data = (v, r)" using st by (metis stripes_endian)
  moreover have "XXH32_finalize e h p ?k XXH_unaligned = XXH32_finalize e' h p ?k XXH_unaligned" if "?k \<le> length p" for h p
    using that by (intro finalize_prefix) simp_all
  from this [of r] this [of data] r
  have "XXH32_finalize e h r ?k XXH_unaligned = XXH32_finalize e' h r ?k XXH_unaligned"
    "XXH32_finalize e h data ?k XXH_unaligned = XXH32_finalize e' h data ?k XXH_unaligned" for h
    by simp_all
  ultimately show ?thesis using st by (cases "16 \<le> length data") (simp_all add: XXH32_def XXH32_endian_align_def Let_def)
qed

lemma XXH32_digest_fold:
  "XXH32_digest e (fold (\<lambda>c s. XXH32_update e s (Some (f c))) cs (XXH32_reset seed)) = XXH32 e' (concat (map f cs)) seed"
proof -
  have "fold (\<lambda>c s. XXH32_update e s (Some (f c))) cs s = fold (\<lambda>p s. XXH32_update e s (Some p)) (map f cs) s" for s
    by (induction cs arbitrary: s) simp_all
  with xxh_after_digest [OF xxh_after_updates [OF xxh_after_reset, of e seed "map f cs"]] show ?thesis
    by (simp add: XXH32_endian [of e' _ _ e])
qed

text \<open>C4. Streaming is equivalent to hashing at once: after a reset and any sequence of updates, whatever the sizes of their
  inputs, the digest is \<open>XXH32\<close> of the concatenation of the inputs, also when it is computed on a host of the other byte
  order, and also when the 32-bit counter of the total length wraps around.\<close>

theorem XXH32_streaming:
  "XXH32_digest e (fold (\<lambda>p s. XXH32_update e s (Some p)) ps (XXH32_reset seed)) = XXH32 e' (concat ps) seed"
  using XXH32_digest_fold [of e "\<lambda>p. p" ps seed e'] by simp

text \<open>The canonical form is read back on every host.\<close>

lemma XXH32_canonical_roundtrip: "XXH32_hashFromCanonical e' (XXH32_canonicalFromHash e h) = h"
  by (cases e; cases e')
     (simp_all add: XXH32_hashFromCanonical_def XXH32_canonicalFromHash_def XXH_readBE32_def XXH_read32_def XXH_swap32_def
       bswap_def mem_word_def mem_bytes_def nat_bytes_of_nat of_nat_nat_bytes del: nat_bytes_numeral)

text \<open>A concrete hash, the same on every host.\<close>

lemma XXH32_example: "XXH32 e [84, 1, 2] 0 = 0x7724DA17"
  by (simp add: XXH32_def XXH32_endian_align_def XXH32_finalize_def finalize4.simps finalize1_less4 XXH_PROCESS1_def
      XXH_rotl32_def XXH32_avalanche_def Let_def)

end
