(* ===== verification/Pb_Codec.thy ===== *)
theory Pb_Codec
  imports Buffer Chunk_List XX_Hash "HOL-Library.Sublist"
begin

text \<open>
  Model of \<^verbatim>\<open>kanon/protobuf/generic_pb_codec.{h,cc}\<close>: messages framed by a length, a tag and a checksum. Protobuf
  is code outside of the library: parsing a message and serializing one into a chunk list are parameters.
  The callbacks are recorded in the order they are called.
\<close>

section \<open>The codec\<close>

datatype ErrorCode = kNoError | kParseError | kInvalidLength | kInvalidMessage | kInvalidChecksum

record 'm codec =
  cd_tag :: bytes
  cd_parse :: "bytes \<Rightarrow> 'm option"
  cd_endian :: endian
  cd_alloc :: allocator
  cd_chunk_alloc :: chunk_alloc

datatype 'm codec_event = OnMessageCb 'm | OnErrorCb ErrorCode

abbreviation (input) kMaxMessageLength :: usize where "kMaxMessageLength \<equiv> 0x4000000"

fun ErrorToString :: "ErrorCode \<Rightarrow> string" where
  "ErrorToString kInvalidLength = ''Invalid Length''"
| "ErrorToString kInvalidMessage = ''Invalid Message''"
| "ErrorToString kInvalidChecksum = ''Invalid Checksum''"
| "ErrorToString kParseError = ''Parse Error''"
| "ErrorToString kNoError = ''No Error''"

section \<open>The output stream of protobuf\<close>

text \<open>\<open>ChunkStream::Next\<close> offers the writable region of the last chunk, or of a new one, and takes it for written; the offset in
  the chunk and the size of the region are returned. \<open>BackUp\<close> adds the negated count to an \<open>unsigned int\<close>.\<close>

definition ChunkStream_Next :: "chunk_alloc \<Rightarrow> chunk_list \<Rightarrow> (nat \<times> nat \<times> chunk_list) res" where
  "ChunkStream_Next A cl =
     rbind (if ChunkList_IsEmpty cl \<or> Chunk_GetWritableSize (last (cl_buffers cl)) = 0
            then ChunkList_ReserveChunk A cl 1 else Inr cl) (\<lambda>cl.
     rbind (ChunkList_GetLastChunk cl) (\<lambda>c.
     rbind (Chunk_AdvanceWriteAll c) (\<lambda>c'.
       Inr (ck_write_index c, Chunk_GetWritableSize c, set_last c' cl))))"

definition ChunkStream_BackUp :: "chunk_list \<Rightarrow> 32 word \<Rightarrow> chunk_list res" where
  "ChunkStream_BackUp cl count =
     rbind (ChunkList_GetLastChunk cl) (\<lambda>c.
     let w = of_nat (ck_write_index c) - count in
     rbind (assertR (ck_write_index c \<le> ck_max_size c)) (\<lambda>_.
     rbind (assertR (unat w \<le> ck_max_size c)) (\<lambda>_.
       Inr (set_last (c\<lparr>ck_write_index := unat w\<rparr>) cl))))"

definition ChunkStream_ByteCount :: "chunk_list \<Rightarrow> nat" where
  "ChunkStream_ByteCount cl = ChunkList_GetReadableSize cl"

definition ChunkStream_WriteAliasedRaw :: "chunk_alloc \<Rightarrow> chunk_list \<Rightarrow> bytes \<Rightarrow> chunk_list res" where
  "ChunkStream_WriteAliasedRaw A cl data = ChunkList_Append A cl data"

section \<open>Sending\<close>

text \<open>The loop over the chunks: \<open>AdvanceWriteAll\<close> on each but the last one, which are full, and the update of the checksum with
  each.\<close>

fun hash_chunks :: "endian \<Rightarrow> chunk list \<Rightarrow> XXH32_state \<Rightarrow> (chunk list \<times> XXH32_state) res" where
  "hash_chunks e [] s = Inl NullDeref"
| "hash_chunks e [c] s = Inr ([c], XXH32_update e s (Some (Chunk_ToStringView c)))"
| "hash_chunks e (c # cs) s =
     rbind (Chunk_AdvanceWriteAll c) (\<lambda>c.
     rbind (hash_chunks e cs (XXH32_update e s (Some (Chunk_ToStringView c)))) (\<lambda>(cs, s). Inr (c # cs, s)))"

text \<open>The list that \<open>Send\<close> hands to the connection. \<open>ser\<close> is \<open>SerializePartialToZeroCopyStream\<close> on the list and \<open>bytes\<close>
  the size of the message it caches.\<close>

definition codec_Send :: "'m codec \<Rightarrow> (chunk_list \<Rightarrow> chunk_list res) \<Rightarrow> 32 word \<Rightarrow> chunk_list res" where
  "codec_Send C ser bytes =
     (let n = length (cd_tag C) in
      rbind (ChunkList_Append (cd_chunk_alloc C) ChunkList (cd_tag C)) (\<lambda>buf.
      rbind (assertR (ChunkList_GetReadableSize buf = n)) (\<lambda>_.
      rbind (ser buf) (\<lambda>buf.
      rbind (assertR (ChunkList_GetReadableSize buf = unat bytes + n)) (\<lambda>_.
      rbind (hash_chunks (cd_endian C) (cl_buffers buf) (XXH32_reset 0)) (\<lambda>(cs, state).
      let buf = buf\<lparr>cl_buffers := cs\<rparr>;
          check_sum = XXH32_digest (cd_endian C) state in
      rbind (ChunkList_Prepend32 (cd_chunk_alloc C) (cd_endian C) buf (of_nat n + bytes + 4)) (\<lambda>buf.
      rbind (ChunkList_Append32 (cd_chunk_alloc C) (cd_endian C) buf check_sum) (\<lambda>buf.
      rbind (assertR (ChunkList_GetReadableSize buf = n + 4 + unat bytes + 4)) (\<lambda>_. Inr buf)))))))))"

section \<open>Receiving\<close>

text \<open>\<open>CheckCheckSum\<close> of the first \<open>len\<close> bytes, with the checksum behind them.\<close>

definition CheckCheckSum :: "'m codec \<Rightarrow> bytes \<Rightarrow> nat \<Rightarrow> bool res" where
  "CheckCheckSum C buf len =
     (if length buf < len + 4 then Inl OutOfBounds
      else Inr (XXH32 (cd_endian C) (take len buf) 0 = ToHostByteOrder32 (cd_endian C) (mem_word (cd_endian C) (take 4 (drop len buf)))))"

text \<open>\<open>Parse\<close> of the \<open>sz\<close> bytes behind the size header.\<close>

definition Parse :: "'m codec \<Rightarrow> bytes \<Rightarrow> 32 word \<Rightarrow> (ErrorCode + 'm) res" where
  "Parse C buf sz =
     rbind (CheckCheckSum C buf (unat (sz - 4))) (\<lambda>ok.
     if ok then
       if length buf < length (cd_tag C) then Inl OutOfBounds
       else if take (length (cd_tag C)) buf = cd_tag C then
         (let size = unat (ucast (sz - 4) - of_nat (length (cd_tag C)) :: usize) in
          if length buf < length (cd_tag C) + size then Inl OutOfBounds
          else (case cd_parse C (take size (drop (length (cd_tag C)) buf)) of
              None \<Rightarrow> Inr (Inl kParseError)
            | Some m \<Rightarrow> Inr (Inr m)))
       else Inr (Inl kInvalidMessage)
     else Inr (Inl kInvalidChecksum))"

partial_function (option) decode_loop ::
  "'m codec \<Rightarrow> buffer \<Rightarrow> 'm codec_event list \<Rightarrow> (buffer \<times> 'm codec_event list) res option" where
  "decode_loop C b log =
     (if GetReadableSize b < 8 then Some (Inr (b, log))
      else (case GetReadBegin32 (cd_endian C) b of
          Inl e \<Rightarrow> Some (Inl e)
        | Inr size_header \<Rightarrow>
            if ucast size_header < (4 + of_nat (length (cd_tag C)) :: usize) \<or> kMaxMessageLength \<le> ucast size_header
            then Some (Inr (b, log @ [OnErrorCb kInvalidLength]))
            else if ucast (4 + size_header) \<le> GetReadableSize b then
              (case Parse C (drop 4 (GetReadBegin b)) size_header of
                 Inl e \<Rightarrow> Some (Inl e)
               | Inr (Inl err) \<Rightarrow> Some (Inr (b, log @ [OnErrorCb err]))
               | Inr (Inr m) \<Rightarrow>
                   (case AdvanceRead b (ucast (4 + size_header)) of
                      Inl e \<Rightarrow> Some (Inl e)
                    | Inr b \<Rightarrow> decode_loop C b (log @ [OnMessageCb m])))
            else Some (Inr (b, log))))"

definition OnMessage :: "'m codec \<Rightarrow> buffer \<Rightarrow> (buffer \<times> 'm codec_event list) res" where
  "OnMessage C b =
     (if kMaxMessageLength \<le> GetReadableSize b then
        rbind (AdvanceAll b) (\<lambda>b.
        rbind (Shrink (cd_alloc C) b 0) (\<lambda>b. Inr (b, [OnErrorCb kInvalidLength])))
      else ended (decode_loop C b []))"

section \<open>The wire format\<close>

text \<open>A message on the wire; the length counts everything behind it.\<close>

definition wire_frame :: "'m codec \<Rightarrow> bytes \<Rightarrow> bytes" where
  "wire_frame C payload =
     be_bytes 4 (of_nat (length (cd_tag C) + length payload + 4) :: 32 word) @ cd_tag C @ payload @
     be_bytes 4 (XXH32 (cd_endian C) (cd_tag C @ payload) 0)"

definition frame_fits :: "'m codec \<Rightarrow> bytes \<Rightarrow> bool" where
  "frame_fits C payload \<longleftrightarrow> length (cd_tag C) + length payload + 4 < 2 ^ 26"

lemma length_wire_frame [simp]: "length (wire_frame C payload) = length (cd_tag C) + length payload + 8"
  by (simp add: wire_frame_def)

lemma take_GetReadBegin: "buf_ok b \<Longrightarrow> n \<le> length (buf_content b) \<Longrightarrow> take n (GetReadBegin b) = take n (buf_content b)"
  using peek_ok[of b n] by (auto simp: peek_def split: if_splits)

lemma length_GetReadBegin: "buf_ok b \<Longrightarrow> length (buf_content b) \<le> length (GetReadBegin b)"
  using peek_ok[of b "length (buf_content b)"] by (auto simp: peek_def split: if_splits)

lemma GetReadBegin_split:
  assumes "buf_ok b"
  shows "\<exists>garbage. GetReadBegin b = buf_content b @ garbage"
  using take_GetReadBegin[OF assms order_refl] by (metis append_take_drop_id take_all_iff order_refl)

lemma unat_small32: "n < 2 ^ 32 \<Longrightarrow> unat (of_nat n :: 32 word) = n"
  by (simp add: unsigned_of_nat take_bit_nat_eq_self)

lemma CheckCheckSum_frame:
  "CheckCheckSum C (xs @ be_bytes 4 (XXH32 (cd_endian C) xs 0) @ rest) (length xs) = Inr True"
  by (simp add: CheckCheckSum_def wire_simps)

text \<open>The comparisons and differences of lengths, as numbers.\<close>

lemma unat_ucast_32: "unat (ucast (h :: 32 word) :: usize) = unat h"
proof -
  have "unat h < 2 ^ 32" using unsigned_less[of h] by simp
  then show ?thesis by (simp add: unsigned_ucast_eq take_bit_nat_eq_self)
qed

lemma header_bounds:
  assumes "t < 2 ^ 32"
  shows "ucast (h :: 32 word) < (4 + of_nat t :: usize) \<longleftrightarrow> unat h < 4 + t"
    and "kMaxMessageLength \<le> ucast h \<longleftrightarrow> 2 ^ 26 \<le> unat h"
proof -
  have "unat (of_nat t :: usize) = t" by (rule unat_of_nat_usize) (use assms in simp)
  then have "unat (4 + of_nat t :: usize) = 4 + t" using assms by (subst unat_add_usize) simp_all
  then show "ucast h < (4 + of_nat t :: usize) \<longleftrightarrow> unat h < 4 + t"
    by (simp add: word_less_nat_alt unat_ucast_32)
  show "kMaxMessageLength \<le> ucast h \<longleftrightarrow> 2 ^ 26 \<le> unat h"
    by (simp add: word_le_nat_alt unat_ucast_32)
qed

lemma frame_words:
  assumes "unat (h :: 32 word) < 2 ^ 26" "4 + t \<le> unat h"
  shows "unat (h - 4) = unat h - 4"
    and "unat (ucast (h - 4) - of_nat t :: usize) = unat h - 4 - t"
    and "unat (ucast (4 + h) :: usize) = 4 + unat h"
proof -
  show h4: "unat (h - 4) = unat h - 4" using assms by (subst unat_sub) (simp_all add: word_le_nat_alt)
  have t: "unat (of_nat t :: usize) = t" by (rule unat_of_nat_usize) (use assms in simp)
  have "(of_nat t :: usize) \<le> ucast (h - 4)" using assms by (simp add: word_le_nat_alt unat_ucast_32 h4 t)
  then show "unat (ucast (h - 4) - of_nat t :: usize) = unat h - 4 - t"
    by (simp add: unat_sub_usize unat_ucast_32 h4 t)
  have "unat (4 + h) = 4 + unat h" using assms by (simp add: unat_word_ariths)
  then show "unat (ucast (4 + h) :: usize) = 4 + unat h" by (simp add: unat_ucast_32)
qed

lemma GetReadBegin32_ok:
  assumes "buf_ok b" "4 \<le> length (buf_content b)"
  shows "GetReadBegin32 e b = Inr (be_word (take 4 (buf_content b)))"
  using peek_ok[OF assms] assms(2) by (simp add: GetReadBegin32_def wire_simps min_def)

text \<open>On every input \<open>Parse\<close> stays inside the bytes of the frame, and what is behind them does not matter.\<close>

lemma Parse_Inr:
  assumes "unat sz < 2 ^ 26" "4 + length (cd_tag C) \<le> unat sz" "unat sz \<le> length buf"
  shows "\<exists>r. Parse C buf sz = Inr r"
  using assms frame_words(1,2)[OF assms(1,2)]
  by (auto simp: Parse_def CheckCheckSum_def Let_def split: option.splits)

lemma Parse_append:
  assumes "unat sz < 2 ^ 26" "4 + length (cd_tag C) \<le> unat sz" "unat sz \<le> length buf"
  shows "Parse C (buf @ garbage) sz = Parse C buf sz"
  using assms frame_words(1,2)[OF assms(1,2)] by (auto simp: Parse_def CheckCheckSum_def Let_def)

text \<open>One turn of the loop, over the contents of the buffer.\<close>

lemma decode_loop_step:
  assumes "buf_ok b" "length (cd_tag C) < 2 ^ 32" "8 \<le> length (buf_content b)"
  defines "h \<equiv> be_word (take 4 (buf_content b)) :: 32 word"
  shows "unat h < 4 + length (cd_tag C) \<or> 2 ^ 26 \<le> unat h \<Longrightarrow>
      decode_loop C b log = Some (Inr (b, log @ [OnErrorCb kInvalidLength]))"
    and "4 + length (cd_tag C) \<le> unat h \<Longrightarrow> unat h < 2 ^ 26 \<Longrightarrow> length (buf_content b) < 4 + unat h \<Longrightarrow>
      decode_loop C b log = Some (Inr (b, log))"
    and "4 + length (cd_tag C) \<le> unat h \<Longrightarrow> unat h < 2 ^ 26 \<Longrightarrow> 4 + unat h \<le> length (buf_content b) \<Longrightarrow>
      Parse C (drop 4 (GetReadBegin b)) h = Inr (Inl err) \<Longrightarrow>
      decode_loop C b log = Some (Inr (b, log @ [OnErrorCb err]))"
    and "4 + length (cd_tag C) \<le> unat h \<Longrightarrow> unat h < 2 ^ 26 \<Longrightarrow> 4 + unat h \<le> length (buf_content b) \<Longrightarrow>
      Parse C (drop 4 (GetReadBegin b)) h = Inr (Inr m) \<Longrightarrow>
      \<exists>b'. decode_loop C b log = decode_loop C b' (log @ [OnMessageCb m]) \<and> buf_ok b' \<and> (buf_std b \<longrightarrow> buf_std b') \<and>
        buf_content b' = drop (4 + unat h) (buf_content b)"
proof -
  have rs: "unat (GetReadableSize b) = length (buf_content b)" by (simp add: length_buf_content[OF assms(1)])
  have r8: "\<not> GetReadableSize b < 8" using assms(3) by (simp add: word_less_nat_alt rs)
  have gh: "GetReadBegin32 (cd_endian C) b = Inr h"
    unfolding h_def by (rule GetReadBegin32_ok[OF assms(1)]) (use assms(3) in simp)
  note hb = header_bounds[OF assms(2), of h]
  note unf = decode_loop.simps[of C b log]
  show "unat h < 4 + length (cd_tag C) \<or> 2 ^ 26 \<le> unat h \<Longrightarrow>
      decode_loop C b log = Some (Inr (b, log @ [OnErrorCb kInvalidLength]))"
    using r8 gh hb by (simp add: unf)
  assume h: "4 + length (cd_tag C) \<le> unat h" "unat h < 2 ^ 26"
  note fw = frame_words[OF h(2,1)]
  have le: "ucast (4 + h) \<le> GetReadableSize b \<longleftrightarrow> 4 + unat h \<le> length (buf_content b)"
    by (simp add: word_le_nat_alt fw(3) rs)
  show "length (buf_content b) < 4 + unat h \<Longrightarrow> decode_loop C b log = Some (Inr (b, log))"
    using r8 gh hb h le by (simp add: unf)
  assume c: "4 + unat h \<le> length (buf_content b)"
  show "Parse C (drop 4 (GetReadBegin b)) h = Inr (Inl err) \<Longrightarrow> decode_loop C b log = Some (Inr (b, log @ [OnErrorCb err]))"
    using r8 gh hb h le c by (simp add: unf)
  obtain b' where b': "AdvanceRead b (ucast (4 + h)) = Inr b'" "buf_ok b'" "buf_std b \<longrightarrow> buf_std b'"
    "buf_content b' = drop (4 + unat h) (buf_content b)"
    using AdvanceRead_ok[OF assms(1), of "ucast (4 + h)"] c by (auto simp: fw(3))
  show "\<exists>b'. decode_loop C b log = decode_loop C b' (log @ [OnMessageCb m]) \<and> buf_ok b' \<and> (buf_std b \<longrightarrow> buf_std b') \<and>
        buf_content b' = drop (4 + unat h) (buf_content b)" if "Parse C (drop 4 (GetReadBegin b)) h = Inr (Inr m)"
    using r8 gh hb h le c b' that by (intro exI[of _ b']) (simp add: unf)
qed

lemma decode_loop_short:
  assumes "buf_ok b" "length (buf_content b) < 8"
  shows "decode_loop C b log = Some (Inr (b, log))"
proof -
  have "GetReadableSize b < 8" using assms(2) by (simp add: word_less_nat_alt length_buf_content[OF assms(1)])
  then show ?thesis by (simp add: decode_loop.simps[of C b log])
qed

text \<open>The loop ends without an error, and what it does is determined by the contents of the buffer.\<close>

lemma decode_loop_total:
  assumes "length (cd_tag C) < 2 ^ 32"
  shows "\<exists>rest evs. suffix rest xs \<and> (\<forall>b. buf_std b \<and> buf_content b = xs \<longrightarrow>
    (\<exists>b'. decode_loop C b log = Some (Inr (b', evs)) \<and> buf_std b' \<and> buf_content b' = rest))"
proof (induction "length xs" arbitrary: xs log rule: less_induct)
  case less
  have std: "buf_std b \<Longrightarrow> buf_ok b" for b by (simp add: buf_std_def)
  show ?case
  proof (cases "length xs < 8")
    case True
    then show ?thesis using decode_loop_short[OF std] by blast
  next
    case False
    define h where "h = (be_word (take 4 xs) :: 32 word)"
    have step: "buf_ok b" "length (cd_tag C) < 2 ^ 32" "8 \<le> length (buf_content b)" "h = be_word (take 4 (buf_content b))"
      if "buf_std b" "buf_content b = xs" for b using that assms False std by (simp_all add: h_def)
    consider "unat h < 4 + length (cd_tag C) \<or> 2 ^ 26 \<le> unat h"
      | "4 + length (cd_tag C) \<le> unat h" "unat h < 2 ^ 26" "length xs < 4 + unat h"
      | "4 + length (cd_tag C) \<le> unat h" "unat h < 2 ^ 26" "4 + unat h \<le> length xs" by linarith
    then show ?thesis
    proof cases
      case 1
      have "decode_loop C b log = Some (Inr (b, log @ [OnErrorCb kInvalidLength]))" if "buf_std b" "buf_content b = xs" for b
        using decode_loop_step(1)[OF step(1-3)[OF that], of log] step(4)[OF that] 1 by simp
      then show ?thesis by blast
    next
      case 2
      have "decode_loop C b log = Some (Inr (b, log))" if "buf_std b" "buf_content b = xs" for b
        using decode_loop_step(2)[OF step(1-3)[OF that], of log] step(4)[OF that] 2 that by simp
      then show ?thesis by blast
    next
      case 3
      have len: "unat h \<le> length (drop 4 xs)" using 3(3) by simp
      obtain r where r: "Parse C (drop 4 xs) h = Inr r" using Parse_Inr[OF 3(2,1) len] by blast
      have p: "Parse C (drop 4 (GetReadBegin b)) h = Inr r" if b: "buf_std b" "buf_content b = xs" for b
      proof -
        obtain g where "GetReadBegin b = xs @ g" using GetReadBegin_split[OF std[OF b(1)]] b(2) by blast
        then show ?thesis using Parse_append[OF 3(2,1) len, of g] r False by simp
      qed
      show ?thesis
      proof (cases r)
        case (Inl err)
        have "decode_loop C b log = Some (Inr (b, log @ [OnErrorCb err]))" if "buf_std b" "buf_content b = xs" for b
          using decode_loop_step(3)[OF step(1-3)[OF that], of err log] step(4)[OF that] 3 that p[OF that] Inl by simp
        then show ?thesis by blast
      next
        case (Inr m)
        have one: "\<exists>b'. decode_loop C b log = decode_loop C b' (log @ [OnMessageCb m]) \<and> buf_std b' \<and>
            buf_content b' = drop (4 + unat h) xs" if "buf_std b" "buf_content b = xs" for b
          using decode_loop_step(4)[OF step(1-3)[OF that], of m log] step(4)[OF that] 3 that p[OF that] Inr by auto
        have "length (drop (4 + unat h) xs) < length xs" using 3(3) by simp
        from less[OF this, of "log @ [OnMessageCb m]"] one show ?thesis by (metis suffix_drop suffix_order.order_trans)
      qed
    qed
  qed
qed

section \<open>Properties\<close>

text \<open>C17. No input breaks the decoder. Take a well-formed buffer with less than 64 MB of arbitrary bytes, and a codec with a tag of less
  than 2^32 bytes and any parser. \<open>OnMessage\<close> returns, fails no assertion and reads nothing outside of the array; it leaves the buffer
  well-formed, and what it leaves in it is the end of what was received. It does not depend on what is in the array behind the received
  bytes: on every buffer with the same contents it makes the same callbacks and leaves the same bytes.\<close>

theorem OnMessage_safe:
  assumes "buf_std b" "length (buf_content b) < 2 ^ 26" "length (cd_tag C) < 2 ^ 32"
  shows "\<exists>b' evs. OnMessage C b = Inr (b', evs) \<and> buf_std b' \<and> suffix (buf_content b') (buf_content b) \<and>
    (\<forall>b2. buf_std b2 \<and> buf_content b2 = buf_content b \<longrightarrow>
      (\<exists>b2'. OnMessage C b2 = Inr (b2', evs) \<and> buf_content b2' = buf_content b'))"
proof -
  have small: "OnMessage C b2 = ended (decode_loop C b2 [])" if "buf_std b2" "buf_content b2 = buf_content b" for b2
  proof -
    have "length (buf_content b2) = unat (GetReadableSize b2)" using that(1) by (simp add: length_buf_content buf_std_def)
    then have "\<not> kMaxMessageLength \<le> GetReadableSize b2" using assms(2) unfolding that(2) by (simp add: word_le_nat_alt)
    then show ?thesis by (simp add: OnMessage_def)
  qed
  from decode_loop_total[OF assms(3), of "buf_content b" "[]"] obtain rest evs where d: "suffix rest (buf_content b)"
    "\<And>b2. buf_std b2 \<Longrightarrow> buf_content b2 = buf_content b \<Longrightarrow>
      \<exists>b'. decode_loop C b2 [] = Some (Inr (b', evs)) \<and> buf_std b' \<and> buf_content b' = rest" by blast
  from d(2)[OF assms(1) refl] obtain b' where b': "OnMessage C b = Inr (b', evs)" "buf_std b'" "buf_content b' = rest"
    using small[OF assms(1) refl] by auto
  moreover have "\<exists>b2'. OnMessage C b2 = Inr (b2', evs) \<and> buf_content b2' = rest" if "buf_std b2" "buf_content b2 = buf_content b" for b2
    using d(2)[OF that] small[OF that] by auto
  ultimately show ?thesis using d(1) by blast
qed

definition demo_codec :: "bytes codec" where
  "demo_codec = \<lparr>cd_tag = [84], cd_parse = Some, cd_endian = LittleEndian,
     cd_alloc = demo_alloc, cd_chunk_alloc = demo_chunk_alloc\<rparr>"

theorem OnMessage_safe_witness:
  "buf_std demo_lines \<and> (\<exists>b' evs. OnMessage demo_codec demo_lines = Inr (b', evs) \<and> buf_std b')"
proof -
  have h: "buf_std demo_lines" "length (buf_content demo_lines) < 2 ^ 26"
    by (simp_all add: demo_lines_def buf_std_def buf_ok_def ra_wf_def ra_bytes_def buf_content_def seg_def)
  then show ?thesis using OnMessage_safe[OF h, of demo_codec] by (auto simp: demo_codec_def)
qed

section \<open>Frames\<close>

lemma frame_header:
  assumes "frame_fits C p"
  shows "unat (be_word (take 4 (wire_frame C p @ rest)) :: 32 word) = length (cd_tag C) + length p + 4"
  using assms by (simp add: frame_fits_def wire_frame_def be_word_be_bytes unat_small32 del: of_nat_add)

lemma Parse_frame:
  assumes "frame_fits C p" "cd_parse C p = Some m" "unat h = length (cd_tag C) + length p + 4"
  shows "Parse C (drop 4 (wire_frame C p @ rest)) h = Inr (Inr m)"
proof -
  let ?t = "length (cd_tag C)"
  have h: "unat h < 2 ^ 26" "4 + ?t \<le> unat h" using assms(1,3) by (simp_all add: frame_fits_def)
  note fw = frame_words[OF h]
  have bytes: "drop 4 (wire_frame C p @ rest) = (cd_tag C @ p) @ be_bytes 4 (XXH32 (cd_endian C) (cd_tag C @ p) 0) @ rest"
    by (simp add: wire_frame_def)
  have "unat (h - 4) = length (cd_tag C @ p)" using fw(1) assms(3) by simp
  then have cs: "CheckCheckSum C (drop 4 (wire_frame C p @ rest)) (unat (h - 4)) = Inr True"
    unfolding bytes by (simp only: CheckCheckSum_frame)
  show ?thesis
    using cs[unfolded bytes] fw(2) assms(2,3) unfolding bytes by (simp add: Parse_def Let_def)
qed

text \<open>The start of a frame that has not been received completely.\<close>

definition incomplete :: "'m codec \<Rightarrow> bytes \<Rightarrow> bool" where
  "incomplete C rest \<longleftrightarrow> length rest < 8 \<or> (\<exists>p r. frame_fits C p \<and> r \<noteq> [] \<and> wire_frame C p = rest @ r)"

lemma decode_incomplete:
  assumes "buf_ok b" "incomplete C (buf_content b)" "length (cd_tag C) < 2 ^ 32"
  shows "decode_loop C b log = Some (Inr (b, log))"
proof (cases "length (buf_content b) < 8")
  case True
  then show ?thesis by (rule decode_loop_short[OF assms(1)])
next
  case False
  then obtain p r where p: "frame_fits C p" "r \<noteq> []" "wire_frame C p = buf_content b @ r"
    using assms(2) by (auto simp: incomplete_def)
  define h where "h = (be_word (take 4 (buf_content b)) :: 32 word)"
  have "take 4 (wire_frame C p @ []) = take 4 (buf_content b)" using False p(3) by simp
  then have h: "unat h = length (cd_tag C) + length p + 4" using frame_header[OF p(1), of "[]"] by (simp add: h_def)
  have "length (buf_content b) < 4 + unat h"
    using arg_cong[OF p(3), of length] p(2) h by (cases r) simp_all
  then show ?thesis
    using decode_loop_step(2)[OF assms(1,3), of log] False h p(1) by (simp add: h_def frame_fits_def)
qed

lemma decode_frames:
  assumes "length (cd_tag C) < 2 ^ 32" "\<forall>m \<in> set ms. frame_fits C (enc m) \<and> cd_parse C (enc m) = Some m" "incomplete C rest"
  shows "buf_std b \<Longrightarrow> buf_content b = concat (map (\<lambda>m. wire_frame C (enc m)) ms) @ rest \<Longrightarrow>
    \<exists>b'. decode_loop C b log = Some (Inr (b', log @ map OnMessageCb ms)) \<and> buf_std b' \<and> buf_content b' = rest"
  using assms(2)
proof (induction ms arbitrary: b log)
  case Nil
  then show ?case using decode_incomplete[of b C log] assms(1,3) by (auto simp: buf_std_def)
next
  case (Cons m ms)
  let ?tl = "concat (map (\<lambda>m. wire_frame C (enc m)) ms) @ rest"
  have ok: "buf_ok b" using Cons.prems(1) by (simp add: buf_std_def)
  have m: "frame_fits C (enc m)" "cd_parse C (enc m) = Some m" using Cons.prems(3) by simp_all
  have c: "buf_content b = wire_frame C (enc m) @ ?tl" using Cons.prems(2) by simp
  define h where "h = (be_word (take 4 (buf_content b)) :: 32 word)"
  have h: "unat h = length (cd_tag C) + length (enc m) + 4" using frame_header[OF m(1)] by (simp add: h_def c)
  obtain g where "GetReadBegin b = buf_content b @ g" using GetReadBegin_split[OF ok] by blast
  then have "Parse C (drop 4 (GetReadBegin b)) h = Inr (Inr m)" using Parse_frame[OF m h, of "?tl @ g"] by (simp add: c)
  from decode_loop_step(4)[OF ok assms(1), folded h_def, OF _ _ _ _ this, of log] obtain b' where
    b': "decode_loop C b log = decode_loop C b' (log @ [OnMessageCb m])" "buf_std b'" "buf_content b' = ?tl"
    using h m(1) Cons.prems(1) by (auto simp: c frame_fits_def)
  show ?case unfolding b'(1) using Cons.IH[OF b'(2,3), of "log @ [OnMessageCb m]"] Cons.prems(3) by simp
qed

section \<open>Writing through the stream\<close>

text \<open>Where the last chunk has the room, taking the region it offers, storing the bytes at its start and backing up the rest
  is the same as appending the bytes.\<close>

lemma ChunkStream_write_appends:
  assumes "cl_ok cl" "cl_buffers cl \<noteq> []" "length xs \<le> Chunk_GetWritableSize (last (cl_buffers cl))" "xs \<noteq> []"
  shows "rbind (ChunkStream_Next A cl) (\<lambda>(off, n, cl).
      rbind (ck_store (last (cl_buffers cl)) off xs) (\<lambda>c.
      ChunkStream_BackUp (set_last c cl) (of_nat (n - length xs)))) = ChunkList_Append A cl xs"
proof -
  let ?c = "last (cl_buffers cl)"
  have c: "chunk_ok ?c" using cl_okD(1)[OF assms(1)] assms(2) by simp
  define w where "w = ck_write_index ?c"
  have w: "w + length xs \<le> 4096" "ck_max_size ?c = 4096" "length (ck_buf ?c) = 4096" "w < 4096"
    using c assms(3,4) by (auto simp: chunk_ok_def Chunk_GetWritableSize_def w_def neq_Nil_conv)
  have "(of_nat 4096 - of_nat (4096 - w - length xs) :: 32 word) = of_nat (w + length xs)"
    using w(1) by (simp add: of_nat_diff)
  moreover have "unat (of_nat (w + length xs) :: 32 word) = w + length xs" by (rule unat_small32) (use w(1) in simp)
  ultimately have b: "unat (4096 - of_nat (4096 - w - length xs) :: 32 word) = w + length xs" by simp
  show ?thesis
    using assms w b
    by (simp add: ChunkStream_Next_def ChunkStream_BackUp_def ChunkList_IsEmpty_def ChunkList_GetLastChunk_def
        Chunk_AdvanceWriteAll_def Chunk_AdvanceWrite_def Chunk_GetWritableSize_def ck_store_def ChunkList_Append_def
        Chunk_Append_def Let_def w_def[symmetric])
qed

section \<open>Sent messages\<close>

lemma AdvanceWriteAll_full: "chunk_ok c \<Longrightarrow> ck_write_index c = 4096 \<Longrightarrow> Chunk_AdvanceWriteAll c = Inr c"
  by (simp add: Chunk_AdvanceWriteAll_def Chunk_AdvanceWrite_def Chunk_GetWritableSize_def chunk_ok_def)

lemma hash_chunks_full:
  "cs \<noteq> [] \<Longrightarrow> \<forall>c \<in> set cs. chunk_ok c \<Longrightarrow> \<forall>c \<in> set (butlast cs). ck_write_index c = 4096 \<Longrightarrow>
   hash_chunks e cs s = Inr (cs, fold (\<lambda>c s. XXH32_update e s (Some (Chunk_ToStringView c))) cs s)"
  by (induction e cs s rule: hash_chunks.induct) (simp_all add: AdvanceWriteAll_full)

text \<open>The checksum computed over the chunks is the one the receiver computes over the contiguous text.\<close>

lemma hash_chunks_ok:
  assumes "cl_ok cl" "cl_buffers cl \<noteq> []"
  shows "\<exists>s. hash_chunks e (cl_buffers cl) (XXH32_reset 0) = Inr (cl_buffers cl, s) \<and>
    XXH32_digest e s = XXH32 e (cl_content cl) 0"
  using hash_chunks_full[OF assms(2), of e "XXH32_reset 0"] assms(1)
  by (auto simp: cl_ok_def cl_content_def XXH32_digest_fold[of _ _ _ _ e])

text \<open>What protobuf's serialization into a stream is documented to do: the bytes of the message are appended to the output.\<close>

definition serializes :: "(chunk_list \<Rightarrow> chunk_list res) \<Rightarrow> bytes \<Rightarrow> bool" where
  "serializes ser payload \<longleftrightarrow>
     (\<forall>cl. cl_ok cl \<and> cl_buffers cl \<noteq> [] \<longrightarrow>
        (\<exists>cl'. ser cl = Inr cl' \<and> cl_ok cl' \<and> cl_content cl' = cl_content cl @ payload \<and> front_index cl' = front_index cl))"

lemma cl_buffers_nonempty: "cl_content cl \<noteq> [] \<Longrightarrow> cl_buffers cl \<noteq> []"
  by (auto simp: cl_content_def)

lemma codec_Send_frame:
  assumes "serializes ser p" "cd_tag C \<noteq> []" "\<forall>n. ca_ok (cd_chunk_alloc C) n" "frame_fits C p"
  shows "\<exists>cl. codec_Send C ser (of_nat (length p)) = Inr cl \<and> cl_ok cl \<and> cl_content cl = wire_frame C p"
proof -
  let ?A = "cd_chunk_alloc C" and ?t = "cd_tag C" and ?e = "cd_endian C"
  have lp: "unat (of_nat (length p) :: 32 word) = length p" using assms(4) by (intro unat_small32) (simp add: frame_fits_def)
  have "append_post ?A ChunkList ?t (ChunkList_Append ?A ChunkList ?t)"
    by (rule ChunkList_Append_post) (use assms(2) in simp_all)
  from append_postI_Inr[OF this assms(3)] obtain c1 where c1: "ChunkList_Append ?A ChunkList ?t = Inr c1" "cl_ok c1"
    "cl_content c1 = ?t" "front_index c1 = HEADER_SIZE" by (auto simp: front_index_def[of ChunkList])
  obtain c2 where c2: "ser c1 = Inr c2" "cl_ok c2" "cl_content c2 = ?t @ p" "front_index c2 = HEADER_SIZE"
    using assms(1,2) c1 cl_buffers_nonempty[of c1] by (auto simp: serializes_def)
  have ne2: "cl_buffers c2 \<noteq> []" by (rule cl_buffers_nonempty) (use c2(3) assms(2) in simp)
  let ?h = "of_nat (length ?t) + of_nat (length p) + 4 :: 32 word" and ?s = "XXH32 ?e (?t @ p) 0"
  obtain c3 where c3: "ChunkList_Prepend ?A c2 (be_bytes 4 ?h) = Inr c3" "cl_ok c3" "cl_buffers c3 \<noteq> []"
    "cl_content c3 = be_bytes 4 ?h @ ?t @ p"
    using ChunkList_Prepend_ok[OF c2(2) ne2, of "be_bytes 4 ?h" ?A] c2(3,4) by auto
  have "append_post ?A c3 (be_bytes 4 ?s) (ChunkList_Append ?A c3 (be_bytes 4 ?s))"
    by (rule ChunkList_Append_post) (use c3 in simp_all)
  from append_postI_Inr[OF this assms(3)] obtain c4 where c4: "ChunkList_Append ?A c3 (be_bytes 4 ?s) = Inr c4" "cl_ok c4"
    "cl_content c4 = be_bytes 4 ?h @ ?t @ p @ be_bytes 4 ?s" using c3(4) by auto
  obtain st where st: "hash_chunks ?e (cl_buffers c2) (XXH32_reset 0) = Inr (cl_buffers c2, st)" "XXH32_digest ?e st = ?s"
    using hash_chunks_ok[OF c2(2) ne2, of ?e] c2(3) by auto
  have "codec_Send C ser (of_nat (length p)) = Inr c4"
    using c1(1,3) c2(1,3) c3(1) c4(1,3) st
    by (simp add: codec_Send_def Let_def GetReadableSize_ok c1(2) c2(2) c4(2) lp ChunkList_Prepend32_def
        ChunkList_Append32_def wire_simps cl_content_def[symmetric])
  then show ?thesis using c4(2,3) by (simp add: wire_frame_def add.assoc)
qed

text \<open>C3. Messages survive the wire. If protobuf parses what it serialized, then for every list of messages, the frames that the
  sending codec builds for them, received one after the other and followed by the incomplete start of another frame, make
  the receiving codec deliver exactly these messages, in order, without an error, and keep the incomplete frame; the
  byte orders of the two hosts may differ. The tag is the same on both sides and not empty, chunks can be allocated, every frame
  has less than 64 MB, and so have the bytes in the buffer together.\<close>

theorem codec_roundtrip:
  assumes "\<And>m. serializes (ser m) (enc m)" "\<And>m. cd_parse R (enc m) = Some m"
    "cd_tag R = cd_tag S" "cd_tag S \<noteq> []" "length (cd_tag S) < 2 ^ 32"
    "\<forall>n. ca_ok (cd_chunk_alloc S) n" "\<forall>m \<in> set ms. frame_fits S (enc m)"
  shows "\<exists>sent. (\<forall>m \<in> set ms. codec_Send S (ser m) (of_nat (length (enc m))) = Inr (sent m)) \<and>
    (\<forall>b rest. buf_std b \<and> incomplete R rest \<and> buf_content b = concat (map (\<lambda>m. cl_content (sent m)) ms) @ rest \<and>
       length (buf_content b) < 2 ^ 26 \<longrightarrow>
       (\<exists>b'. OnMessage R b = Inr (b', map OnMessageCb ms) \<and> buf_std b' \<and> buf_content b' = rest))"
proof -
  have "\<forall>m \<in> set ms. \<exists>cl. codec_Send S (ser m) (of_nat (length (enc m))) = Inr cl \<and> cl_content cl = wire_frame S (enc m)"
    using codec_Send_frame[OF assms(1,4,6)] assms(7) by blast
  then obtain sent where sent: "\<forall>m \<in> set ms. codec_Send S (ser m) (of_nat (length (enc m))) = Inr (sent m) \<and>
      cl_content (sent m) = wire_frame S (enc m)" by metis
  have fr: "wire_frame S (enc m) = wire_frame R (enc m)" for m 
    using XXH32_endian[of "cd_endian S" "cd_tag S @ enc m" 0 "cd_endian R"] by (simp add: wire_frame_def assms(3))
  have ms: "\<forall>m \<in> set ms. frame_fits R (enc m) \<and> cd_parse R (enc m) = Some m"
    using assms(2,3,7) by (simp add: frame_fits_def)
  have cat: "concat (map (\<lambda>m. cl_content (sent m)) ms) = concat (map (\<lambda>m. wire_frame R (enc m)) ms)"
    by (rule arg_cong[of _ _ concat], rule map_cong) (use sent fr in simp_all)
  have "\<exists>b'. OnMessage R b = Inr (b', map OnMessageCb ms) \<and> buf_std b' \<and> buf_content b' = rest"
    if b: "buf_std b" "incomplete R rest" "buf_content b = concat (map (\<lambda>m. cl_content (sent m)) ms) @ rest"
      "length (buf_content b) < 2 ^ 26" for b rest
  proof -
    have "\<not> kMaxMessageLength \<le> GetReadableSize b"
      using b(1,4) by (simp add: word_le_nat_alt length_buf_content buf_std_def)
    then show ?thesis
      using decode_frames[OF _ ms b(2,1), of "[]"] assms(3,5) b(3) cat by (simp add: OnMessage_def) force
  qed
  then show ?thesis using sent by blast
qed

text \<open>The frame of the message [1, 2] in a buffer.\<close>

definition demo_wire :: buffer where
  "demo_wire = \<lparr>b_read_index = 8, b_write_index = 19,
     b_data = \<lparr>ra_data = Some ([0, 0, 0, 0, 0, 0, 0, 0] @ [0, 0, 0, 7, 84, 1, 2, 119, 36, 218, 23])\<rparr>\<rparr>"

lemma demo_wire_ok: "buf_std demo_wire" "buf_content demo_wire = [0, 0, 0, 7, 84, 1, 2, 119, 36, 218, 23]"
  by (simp_all add: demo_wire_def buf_std_def buf_ok_def ra_wf_def ra_bytes_def buf_content_def seg_def)

lemma demo_frame: "wire_frame demo_codec [1, 2] = [0, 0, 0, 7, 84, 1, 2, 119, 36, 218, 23]"
  by (simp add: wire_frame_def demo_codec_def XXH32_example be_bytes_def)

lemma Append_serializes: "serializes (\<lambda>cl. ChunkStream_WriteAliasedRaw demo_chunk_alloc cl m) m"
  unfolding serializes_def ChunkStream_WriteAliasedRaw_def
  using append_postI_Inr[OF ChunkList_Append_post, of _ m demo_chunk_alloc] by (auto simp: demo_chunk_alloc_def)

theorem codec_roundtrip_witness:
  "\<exists>cl b'. codec_Send demo_codec (\<lambda>cl. ChunkStream_WriteAliasedRaw demo_chunk_alloc cl [1, 2]) 2 = Inr cl \<and>
     cl_content cl = buf_content demo_wire \<and> OnMessage demo_codec demo_wire = Inr (b', [OnMessageCb [1, 2]])"
proof -
  let ?ser = "\<lambda>m cl. ChunkStream_WriteAliasedRaw demo_chunk_alloc cl m"
  have h: "cd_tag demo_codec \<noteq> []" "length (cd_tag demo_codec) < 2 ^ 32" "\<forall>n. ca_ok (cd_chunk_alloc demo_codec) n"
    "\<forall>m \<in> set [[1, 2]]. frame_fits demo_codec m"
    by (simp_all add: demo_codec_def demo_chunk_alloc_def frame_fits_def)
  have p: "cd_parse demo_codec m = Some m" for m by (simp add: demo_codec_def)
  from codec_roundtrip[where ser = ?ser and enc = "\<lambda>m. m" and R = demo_codec and S = demo_codec and ms = "[[1, 2]]",
      OF Append_serializes p refl h]
  obtain sent :: "bytes \<Rightarrow> chunk_list" where s: "codec_Send demo_codec (?ser [1, 2]) 2 = Inr (sent [1, 2])" and
    r: "\<forall>b rest. buf_std b \<and> incomplete demo_codec rest \<and> buf_content b = cl_content (sent [1, 2]) @ rest \<and>
      length (buf_content b) < 2 ^ 26 \<longrightarrow>
      (\<exists>b'. OnMessage demo_codec b = Inr (b', [OnMessageCb [1, 2]]) \<and> buf_std b' \<and> buf_content b' = rest)" by auto
  have c: "cl_content (sent [1, 2]) = buf_content demo_wire"
    using codec_Send_frame[OF Append_serializes h(1,3), of "[1, 2]"] h(4) s by (simp add: demo_frame demo_wire_ok)
  have "\<exists>b'. OnMessage demo_codec demo_wire = Inr (b', [OnMessageCb [1, 2]])"
    using r[rule_format, of demo_wire "[]"] c by (auto simp: demo_wire_ok incomplete_def)
  then show ?thesis using s c by blast
qed

section \<open>Too many bytes\<close>

text \<open>C39. A client that sends 64 MB ruins the input buffer. The branch of \<open>OnMessage\<close> for too large inputs frees the array of the
  buffer and leaves the indices at 8: the writable size, and with it the length passed to the next \<open>readv\<close>, is 2^64 - 8.\<close>

theorem OnMessage_oversized_breaks_buffer:
  assumes "buf_std b" "2 ^ 26 \<le> length (buf_content b)"
  shows "\<exists>b'. OnMessage C b = Inr (b', [OnErrorCb kInvalidLength]) \<and> ra_data (b_data b') = None \<and> \<not> buf_ok b' \<and>
    GetWritableSize b' = - 8"
proof -
  have ok: "buf_ok b" using assms(1) by (simp add: buf_std_def)
  note D = buf_okD[OF ok]
  have big: "kMaxMessageLength \<le> GetReadableSize b" using assms(2) by (simp add: word_le_nat_alt length_buf_content[OF ok])
  let ?b = "b\<lparr>b_read_index := 8, b_write_index := 8\<rparr>"
  have "unat (ra_size (b_data b)) = length (ra_bytes (b_data b))" by (rule unat_ra_size) (rule D(5))
  then have "\<not> ra_size (b_data b) \<le> 0" using D(3) by auto
  then have "ra_Shrink (cd_alloc C) (b_data b) 0 = Inr ((b_data b)\<lparr>ra_data := None\<rparr>)"
    by (simp add: ra_Shrink_def ra_Shrink_impl_def split: option.splits)
  then have "Shrink (cd_alloc C) ?b 0 = Inr (?b\<lparr>b_data := (b_data b)\<lparr>ra_data := None\<rparr>\<rparr>)"
    by (simp add: Shrink_def GetReadableSize_def)
  then show ?thesis
    using big by (simp add: OnMessage_def AdvanceAll_def AdvanceRead_def buf_ok_def ra_bytes_def GetWritableSize_def ra_size_def)
qed

definition demo_flood :: buffer where
  "demo_flood = \<lparr>b_read_index = 8, b_write_index = 8 + 2 ^ 26, b_data = \<lparr>ra_data = Some (replicate (8 + 2 ^ 26) 0)\<rparr>\<rparr>"

lemma demo_flood_ok: "buf_std demo_flood" "2 ^ 26 \<le> length (buf_content demo_flood)"
proof -
  show "buf_std demo_flood"
    by (simp add: demo_flood_def buf_std_def buf_ok_def ra_wf_def ra_bytes_def)
  then show "2 ^ 26 \<le> length (buf_content demo_flood)"
    by (simp add: buf_std_def length_buf_content) (simp add: demo_flood_def GetReadableSize_def)
qed

theorem OnMessage_oversized_breaks_buffer_witness:
  "\<exists>b'. OnMessage demo_codec demo_flood = Inr (b', [OnErrorCb kInvalidLength]) \<and> GetWritableSize b' = - 8"
  using OnMessage_oversized_breaks_buffer[OF demo_flood_ok] by blast

end
