(* ===== verification/Memory_Pool.thy ===== *)
theory Memory_Pool
  imports Kanon_Prelude
begin

text \<open>
  Model of \<^verbatim>\<open>kanon/mem/fixed_chunk_memory_pool.{h,cc}\<close> and \<^verbatim>\<open>kanon/mem/linear_fixed_memory_pool.h\<close>: pools that hand out
  chunks of one size. \<open>malloc\<close> is a parameter. A block of the first pool is an object of the heap with its chunks; the
  address of a chunk is its block and its index there. The \<open>next\<close> pointer of a chunk overlaps the memory its user writes.
\<close>

section \<open>The fixed chunk pool\<close>

type_synonym chunk_addr = "nat \<times> nat"

datatype ChunkStatus = ALLOCATED | FREE

record pool_chunk =
  pc_status :: ChunkStatus
  pc_next :: "chunk_addr option"

record pool_block =
  pb_next :: "nat option"
  pb_sz :: usize
  pb_chunks :: "pool_chunk list"

type_synonym pool_heap = "nat \<rightharpoonup> pool_block"

record pool =
  chunk_per_block :: usize
  free_chunk_header :: "chunk_addr option"
  block_chain :: "nat option"
  block_count :: usize
  pool_mem :: pool_heap

text \<open>\<open>malloc\<close> of a number of bytes: the address of a block that is not in use, or null.\<close>

type_synonym pool_malloc = "usize \<Rightarrow> pool_heap \<Rightarrow> nat option"

definition chunk_of :: "pool_heap \<Rightarrow> chunk_addr \<Rightarrow> pool_chunk option" where
  "chunk_of h a =
     (case h (fst a) of None \<Rightarrow> None
      | Some b \<Rightarrow> if snd a < length (pb_chunks b) then Some (pb_chunks b ! snd a) else None)"

definition deref :: "pool_heap \<Rightarrow> chunk_addr option \<Rightarrow> pool_chunk res" where
  "deref h p =
     (case p of None \<Rightarrow> Inl NullDeref
      | Some a \<Rightarrow> (case h (fst a) of None \<Rightarrow> Inl UseAfterFree
          | Some b \<Rightarrow> (case chunk_of h a of None \<Rightarrow> Inl OutOfBounds | Some c \<Rightarrow> Inr c)))"

definition upd_chunk :: "pool_heap \<Rightarrow> chunk_addr \<Rightarrow> (pool_chunk \<Rightarrow> pool_chunk) \<Rightarrow> pool_heap" where
  "upd_chunk h a f =
     (case h (fst a) of None \<Rightarrow> h
      | Some b \<Rightarrow> h(fst a \<mapsto> b\<lparr>pb_chunks := (pb_chunks b)[snd a := f (pb_chunks b ! snd a)]\<rparr>))"

text \<open>A \<open>Block\<close> is one pointer, the status of a chunk takes 8 bytes and its \<open>next\<close> another 8.\<close>

definition BLOCK_SPACE :: "usize \<Rightarrow> usize \<Rightarrow> usize" where
  "BLOCK_SPACE n sz = 8 + (8 + sz) * n"

definition ALIGN_SIZE :: "usize \<Rightarrow> usize" where
  "ALIGN_SIZE sz = (if sz < 8 then 8 else sz)"

definition FixedChunkMemoryPool :: "usize \<Rightarrow> pool" where
  "FixedChunkMemoryPool n =
     \<lparr>chunk_per_block = n, free_chunk_header = None, block_chain = None, block_count = 0, pool_mem = Map.empty\<rparr>"

text \<open>The chunks that the loop of \<open>AllocBlock\<close> links, from the chunk before the index \<open>i\<close>.\<close>

function link_chunks :: "nat \<Rightarrow> nat \<Rightarrow> nat \<Rightarrow> pool_chunk list" where
  "link_chunks b i n =
     (if i < n then \<lparr>pc_status = FREE, pc_next = Some (b, i)\<rparr> # link_chunks b (Suc i) n
      else [\<lparr>pc_status = FREE, pc_next = None\<rparr>])"
  by pat_completeness auto
termination by (relation "measure (\<lambda>(b, i, n). n - i)") auto

declare link_chunks.simps [simp del]

text \<open>The writes to the header of the last chunk lie in the block unless the computed size has wrapped around or no chunk was
  asked for.\<close>

definition AllocBlock :: "pool_malloc \<Rightarrow> pool \<Rightarrow> usize \<Rightarrow> (chunk_addr option \<times> pool) res" where
  "AllocBlock malloc p sz =
     rbind (assertR (8 \<le> sz)) (\<lambda>_.
     case malloc (BLOCK_SPACE (chunk_per_block p) sz) (pool_mem p) of
       None \<Rightarrow> Inr (None, p)
     | Some b \<Rightarrow>
         let cs = link_chunks b (Suc 0) (unat (chunk_per_block p)) in
         if unat (BLOCK_SPACE (chunk_per_block p) sz) < 8 + (8 + unat sz) * (length cs - 1) + 16 then Inl OutOfBounds
         else Inr (Some (b, 0), p\<lparr>free_chunk_header := Some (b, 0), block_chain := Some b,
           block_count := block_count p + 1,
           pool_mem := (pool_mem p)(b \<mapsto> \<lparr>pb_next = block_chain p, pb_sz = sz, pb_chunks = cs\<rparr>)\<rparr>))"

definition Malloc :: "pool_malloc \<Rightarrow> pool \<Rightarrow> usize \<Rightarrow> (chunk_addr option \<times> pool) res" where
  "Malloc malloc p sz =
     (if sz = 0 then Inr (None, p)
      else
        let sz = ALIGN_SIZE sz in
        rbind (if free_chunk_header p = None then AllocBlock malloc p sz else Inr (free_chunk_header p, p)) (\<lambda>(header, p).
        case header of
          None \<Rightarrow> rbind (assertR (free_chunk_header p = None)) (\<lambda>_. Inr (None, p))
        | Some a \<Rightarrow>
            rbind (deref (pool_mem p) (free_chunk_header p)) (\<lambda>c.
            Inr (Some a, p\<lparr>free_chunk_header := pc_next c, pool_mem := upd_chunk (pool_mem p) a (pc_status_update (\<lambda>_. ALLOCATED))\<rparr>))))"

definition Free :: "pool \<Rightarrow> chunk_addr option \<Rightarrow> pool res" where
  "Free p ptr =
     (case ptr of None \<Rightarrow> Inr p
      | Some a \<Rightarrow>
          rbind (deref (pool_mem p) (Some a)) (\<lambda>c.
          rbind (assertR (pc_status c = ALLOCATED)) (\<lambda>_.
          Inr (p\<lparr>free_chunk_header := Some a,
            pool_mem := upd_chunk (pool_mem p) a (\<lambda>c. c\<lparr>pc_status := FREE, pc_next := free_chunk_header p\<rparr>)\<rparr>))))"

text \<open>The user of a chunk writes over its \<open>next\<close>.\<close>

definition user_write :: "pool \<Rightarrow> chunk_addr \<Rightarrow> chunk_addr option \<Rightarrow> pool" where
  "user_write p a x = p\<lparr>pool_mem := upd_chunk (pool_mem p) a (pc_next_update (\<lambda>_. x))\<rparr>"

text \<open>The walk over the chunks of a block. With another size than the one the block was built for it does not meet the chunk
  headers; a null block is dereferenced at the first chunk.\<close>

definition walk_chunk :: "pool \<Rightarrow> nat option \<Rightarrow> usize \<Rightarrow> nat \<Rightarrow> pool_chunk res" where
  "walk_chunk p blk sz i =
     (case blk of None \<Rightarrow> Inl NullDeref
      | Some b \<Rightarrow> (case pool_mem p b of None \<Rightarrow> Inl UseAfterFree
          | Some bk \<Rightarrow> if sz = pb_sz bk then deref (pool_mem p) (Some (b, i)) else Inl OutOfBounds))"

function free_from :: "pool \<Rightarrow> nat option \<Rightarrow> usize \<Rightarrow> nat \<Rightarrow> nat \<Rightarrow> bool res" where
  "free_from p blk sz i n =
     (if i < n then rbind (walk_chunk p blk sz i) (\<lambda>c.
        if pc_status c = ALLOCATED then Inr False else free_from p blk sz (Suc i) n)
      else Inr True)"
  by pat_completeness auto
termination by (relation "measure (\<lambda>(p, blk, sz, i, n). n - i)") auto

declare free_from.simps [simp del]

definition IsBlockFree :: "pool \<Rightarrow> nat option \<Rightarrow> usize \<Rightarrow> bool res" where
  "IsBlockFree p blk sz = rbind (assertR (8 \<le> sz)) (\<lambda>_. free_from p blk sz 0 (unat (chunk_per_block p)))"

function count_free_from :: "pool \<Rightarrow> nat option \<Rightarrow> usize \<Rightarrow> nat \<Rightarrow> nat \<Rightarrow> usize \<Rightarrow> usize res" where
  "count_free_from p blk sz i n ret =
     (if i < n then rbind (walk_chunk p blk sz i) (\<lambda>c.
        count_free_from p blk sz (Suc i) n (if pc_status c = FREE then ret + 1 else ret))
      else Inr ret)"
  by pat_completeness auto
termination by (relation "measure (\<lambda>(p, blk, sz, i, n, ret). n - i)") auto

declare count_free_from.simps [simp del]

definition GetFreeChunkNumInBlock :: "pool \<Rightarrow> nat option \<Rightarrow> usize \<Rightarrow> usize res" where
  "GetFreeChunkNumInBlock p blk sz =
     rbind (assertR (8 \<le> sz)) (\<lambda>_. count_free_from p blk sz 0 (unat (chunk_per_block p)) 0)"

definition block_deref :: "pool_heap \<Rightarrow> nat option \<Rightarrow> pool_block res" where
  "block_deref h p =
     (case p of None \<Rightarrow> Inl NullDeref | Some b \<Rightarrow> (case h b of None \<Rightarrow> Inl UseAfterFree | Some bk \<Rightarrow> Inr bk))"

text \<open>The loops over the chain of blocks end because the chain does; that is proved below, here a cyclic chain is a loop that
  never ends.\<close>

partial_function (option) free_chunk_num :: "pool \<Rightarrow> usize \<Rightarrow> nat option \<Rightarrow> usize \<Rightarrow> usize res option" where
  "free_chunk_num p sz iter ret =
     (case iter of None \<Rightarrow> Some (Inr ret)
      | Some b \<Rightarrow> (case GetFreeChunkNumInBlock p (Some b) sz of
            Inl e \<Rightarrow> Some (Inl e)
          | Inr k \<Rightarrow> (case block_deref (pool_mem p) (Some b) of
                Inl e \<Rightarrow> Some (Inl e)
              | Inr bk \<Rightarrow> free_chunk_num p sz (pb_next bk) (ret + k))))"

definition GetFreeChunkNum :: "pool \<Rightarrow> usize \<Rightarrow> usize res" where
  "GetFreeChunkNum p sz = ended (free_chunk_num p (ALIGN_SIZE sz) (block_chain p) 0)"

definition SetChunkPerBlock :: "pool \<Rightarrow> usize \<Rightarrow> pool" where
  "SetChunkPerBlock p n = p\<lparr>chunk_per_block := n\<rparr>"

text \<open>\<open>Shrink\<close>: the loop that frees the blocks at the head of the chain, and the one over the blocks behind.\<close>

partial_function (option) shrink_head :: "usize \<Rightarrow> pool \<Rightarrow> pool res option" where
  "shrink_head sz p =
     (case IsBlockFree p (block_chain p) sz of
        Inl e \<Rightarrow> Some (Inl e)
      | Inr is_free \<Rightarrow>
          if \<not> is_free then Some (Inr p)
          else (case block_deref (pool_mem p) (block_chain p) of
            Inl e \<Rightarrow> Some (Inl e)
          | Inr bk \<Rightarrow> shrink_head sz (p\<lparr>block_chain := pb_next bk, block_count := block_count p - 1,
              pool_mem := (pool_mem p)(the (block_chain p) := None)\<rparr>)))"

partial_function (option) shrink_rest :: "usize \<Rightarrow> nat option \<Rightarrow> pool \<Rightarrow> pool res option" where
  "shrink_rest sz iter p =
     (case block_deref (pool_mem p) iter of
        Inl e \<Rightarrow> Some (Inl e)
      | Inr bk \<Rightarrow> (case pb_next bk of
            None \<Rightarrow> Some (Inr p)
          | Some t \<Rightarrow> (case IsBlockFree p (Some t) sz of
                Inl e \<Rightarrow> Some (Inl e)
              | Inr is_free \<Rightarrow>
                  if \<not> is_free then shrink_rest sz (Some t) p
                  else (case block_deref (pool_mem p) (Some t) of
                    Inl e \<Rightarrow> Some (Inl e)
                  | Inr tk \<Rightarrow> shrink_rest sz (pb_next tk) (p\<lparr>block_count := block_count p - 1,
                      pool_mem := (pool_mem p)(the iter \<mapsto> bk\<lparr>pb_next := pb_next tk\<rparr>, t := None)\<rparr>)))))"

definition Shrink :: "pool \<Rightarrow> usize \<Rightarrow> pool res" where
  "Shrink p sz =
     (let sz = ALIGN_SIZE sz in
      rbind (ended (shrink_head sz p)) (\<lambda>p. ended (shrink_rest sz (block_chain p) p)))"

text \<open>The destructor frees the blocks of the chain.\<close>

partial_function (option) destroy_pool :: "pool \<Rightarrow> pool res option" where
  "destroy_pool p =
     (case block_chain p of None \<Rightarrow> Some (Inr p)
      | Some b \<Rightarrow> (case block_deref (pool_mem p) (Some b) of
            Inl e \<Rightarrow> Some (Inl e)
          | Inr bk \<Rightarrow> destroy_pool (p\<lparr>block_chain := pb_next bk, pool_mem := (pool_mem p)(b := None)\<rparr>)))"


text \<open>\<open>ObjectPoolAllocator<T>\<close> over a pool; allocators rebound to another type share the pool.\<close>

definition allocate :: "pool_malloc \<Rightarrow> pool \<Rightarrow> usize \<Rightarrow> usize \<Rightarrow> (chunk_addr option \<times> pool) res" where
  "allocate malloc p sizeof_T n = (if 1 < n then Inl Exn else Malloc malloc p sizeof_T)"

definition deallocate :: "pool \<Rightarrow> chunk_addr option \<Rightarrow> usize \<Rightarrow> pool res" where
  "deallocate p ptr n = noexcept (Free p ptr)"

section \<open>The linear pool\<close>

text \<open>An array of \<open>size_\<close> slots and the set of the free ones; when no slot is free, objects come from \<open>malloc\<close>. The order of the
  hash set is a parameter, as are \<open>malloc\<close> and \<open>reallocarray\<close>; the size of the array in bytes is taken not to wrap around. A
  pointer is a slot of an array or an object of its own.\<close>

datatype lin_ptr = Slot nat nat | Obj nat

record lin_pool =
  lp_pool :: "nat option"
  lp_free_hset :: "nat list"
  lp_size :: nat
  lp_objs :: "nat list"

definition LinearFixedMemoryPool :: "nat option \<Rightarrow> nat \<Rightarrow> lin_pool res" where
  "LinearFixedMemoryPool malloced n =
     (case malloced of None \<Rightarrow> Inl BadAlloc
      | Some b \<Rightarrow> Inr \<lparr>lp_pool = Some b, lp_free_hset = [0..<n], lp_size = n, lp_objs = []\<rparr>)"

definition lin_Malloc :: "(nat list \<Rightarrow> nat) \<Rightarrow> (nat list \<Rightarrow> nat option) \<Rightarrow> lin_pool \<Rightarrow> (lin_ptr option \<times> lin_pool) res" where
  "lin_Malloc first malloc p =
     (if lp_free_hset p = [] then
        (case malloc (lp_objs p) of None \<Rightarrow> Inr (None, p) | Some x \<Rightarrow> Inr (Some (Obj x), p\<lparr>lp_objs := x # lp_objs p\<rparr>))
      else
        let ret = first (lp_free_hset p) in
        (case lp_pool p of None \<Rightarrow> Inl NullDeref
         | Some b \<Rightarrow> Inr (Some (Slot b ret), p\<lparr>lp_free_hset := remove1 ret (lp_free_hset p)\<rparr>)))"

text \<open>\<open>Reserve\<close> stores what \<open>reallocarray\<close> returned; the new array may be another one, or null.\<close>

definition lin_Reserve :: "nat option \<Rightarrow> lin_pool \<Rightarrow> nat \<Rightarrow> lin_pool" where
  "lin_Reserve realloced p sz =
     (if sz \<le> lp_size p then p
      else p\<lparr>lp_pool := realloced, lp_free_hset := lp_free_hset p @ [lp_size p..<sz], lp_size := sz\<rparr>)"

text \<open>A pointer that is neither in the array nor an object of \<open>malloc\<close> is a pointer to released memory.\<close>

definition lin_Free :: "lin_pool \<Rightarrow> lin_ptr \<Rightarrow> lin_pool res" where
  "lin_Free p ptr =
     (case ptr of
        Slot b i \<Rightarrow>
          if lp_pool p = Some b \<and> i < lp_size p then Inr (p\<lparr>lp_free_hset := List.insert i (lp_free_hset p)\<rparr>)
          else Inl UseAfterFree
      | Obj x \<Rightarrow> if x \<in> set (lp_objs p) then Inr (p\<lparr>lp_objs := remove1 x (lp_objs p)\<rparr>) else Inl UseAfterFree)"

section \<open>Linked structures\<close>

text \<open>\<open>xs\<close> are the elements met from the pointer \<open>p\<close> along the successor function, up to null.\<close>

fun linked :: "('k \<Rightarrow> 'k option option) \<Rightarrow> 'k option \<Rightarrow> 'k list \<Rightarrow> bool" where
  "linked nx p [] = (p = None)"
| "linked nx p (x # xs) = (p = Some x \<and> (\<exists>q. nx x = Some q \<and> linked nx q xs))"

lemma linked_cong: "(\<And>x. x \<in> set xs \<Longrightarrow> nx' x = nx x) \<Longrightarrow> linked nx' p xs = linked nx p xs"
  by (induction xs arbitrary: p) auto

lemma linked_None: "linked nx None xs \<longleftrightarrow> xs = []"
  by (cases xs) auto

lemma linked_Some: "linked nx (Some x) xs \<Longrightarrow> \<exists>q ys. xs = x # ys \<and> nx x = Some q \<and> linked nx q ys"
  by (cases xs) auto

lemma linked_upt:
  assumes "\<And>j. j < k \<Longrightarrow> nx (b, j) = Some (if Suc j < k then Some (b, Suc j) else None)" "i < k"
  shows "linked nx (Some (b, i)) (map (Pair b) [i..<k])"
  using assms(2)
proof (induction "k - i" arbitrary: i)
  case (Suc d)
  then have "[i..<k] = i # [Suc i..<k]" by (simp add: upt_conv_Cons)
  with Suc assms(1) [of i] show ?case by (cases "Suc i < k") auto
qed simp

abbreviation (input) block_next :: "pool_heap \<Rightarrow> nat \<Rightarrow> nat option option" where
  "block_next h \<equiv> \<lambda>b. map_option pb_next (h b)"

abbreviation (input) chunk_next :: "pool_heap \<Rightarrow> chunk_addr \<Rightarrow> chunk_addr option option" where
  "chunk_next h \<equiv> \<lambda>a. map_option pc_next (chunk_of h a)"

section \<open>Chunks of the heap\<close>

definition status_of :: "pool_heap \<Rightarrow> chunk_addr \<Rightarrow> ChunkStatus option" where
  "status_of h a = map_option pc_status (chunk_of h a)"

lemma block_next_upd [simp]: "map_option pb_next (upd_chunk h a f b) = map_option pb_next (h b)"
  by (simp add: upd_chunk_def split: option.split)

lemma dom_upd_chunk [simp]: "dom (upd_chunk h a f) = dom h"
  by (auto simp: upd_chunk_def split: option.splits if_splits)

lemma chunk_of_upd: "chunk_of (upd_chunk h a f) a' = (if a' = a then map_option f (chunk_of h a) else chunk_of h a')"
  by (cases a; cases a') (auto simp: chunk_of_def upd_chunk_def split: option.splits)

lemma chunk_of_new:
  "chunk_of (h(b \<mapsto> bk)) a =
   (if fst a = b then if snd a < length (pb_chunks bk) then Some (pb_chunks bk ! snd a) else None else chunk_of h a)"
  by (simp add: chunk_of_def)

lemma chunk_of_freed: "chunk_of (h(b := None)) a = (if fst a = b then None else chunk_of h a)"
  by (simp add: chunk_of_def)

lemma deref_chunk: "chunk_of h a = Some c \<Longrightarrow> deref h (Some a) = Inr c"
  by (auto simp: deref_def chunk_of_def split: option.splits)

lemma length_link_chunks: "length (link_chunks b i n) = Suc (n - i)"
proof (induction b i n rule: link_chunks.induct)
  case (1 b i n)
  then show ?case by (subst link_chunks.simps) (simp add: Suc_diff_Suc)
qed

lemma nth_link_chunks:
  "j \<le> n - i \<Longrightarrow> link_chunks b i n ! j = \<lparr>pc_status = FREE, pc_next = (if i + j < n then Some (b, i + j) else None)\<rparr>"
proof (induction b i n arbitrary: j rule: link_chunks.induct)
  case (1 b i n)
  show ?case
  proof (cases j)
    case (Suc k)
    with 1 show ?thesis by (subst link_chunks.simps) auto
  qed (subst link_chunks.simps, simp)
qed

section \<open>The invariant\<close>

definition malloc_ok :: "pool_malloc \<Rightarrow> bool" where
  "malloc_ok malloc \<longleftrightarrow> (\<forall>n h b. malloc n h = Some b \<longrightarrow> b \<notin> dom h)"

text \<open>The chain holds every block once, and the free list every free chunk once.\<close>

definition pool_wf :: "pool \<Rightarrow> bool" where
  "pool_wf p \<longleftrightarrow>
     (\<exists>bs. linked (block_next (pool_mem p)) (block_chain p) bs \<and> distinct bs \<and> set bs = dom (pool_mem p) \<and>
        block_count p = of_nat (length bs)) \<and>
     (\<exists>fs. linked (chunk_next (pool_mem p)) (free_chunk_header p) fs \<and> distinct fs \<and>
        set fs = {a. status_of (pool_mem p) a = Some FREE})"

text \<open>The pool is used with one size and one number of chunks per block, and the size of a block does not wrap around.\<close>

definition pool_uniform :: "usize \<Rightarrow> pool \<Rightarrow> bool" where
  "pool_uniform sz p \<longleftrightarrow> (\<forall>b bk. pool_mem p b = Some bk \<longrightarrow>
     pb_sz bk = ALIGN_SIZE sz \<and> length (pb_chunks bk) = unat (chunk_per_block p))"

definition pool_inv :: "pool_malloc \<Rightarrow> usize \<Rightarrow> pool \<Rightarrow> bool" where
  "pool_inv malloc sz p \<longleftrightarrow> malloc_ok malloc \<and> sz \<noteq> 0 \<and> chunk_per_block p \<noteq> 0 \<and>
     8 + (8 + unat (ALIGN_SIZE sz)) * unat (chunk_per_block p) < 2 ^ 64 \<and> pool_wf p \<and> pool_uniform sz p"

definition pool_live :: "pool \<Rightarrow> chunk_addr set" where
  "pool_live p = {a. status_of (pool_mem p) a = Some ALLOCATED}"

lemma pool_wf_new: "pool_wf (FixedChunkMemoryPool n)"
  by (auto simp: pool_wf_def FixedChunkMemoryPool_def status_of_def chunk_of_def intro!: exI [of _ "[]"])

lemma unat_BLOCK_SPACE:
  assumes "8 + (8 + unat sz) * unat n < 2 ^ 64" "n \<noteq> 0"
  shows "unat (BLOCK_SPACE n sz) = 8 + (8 + unat sz) * unat n"
proof -
  have "8 + unat sz \<le> (8 + unat sz) * unat n" using assms(2) by (cases "unat n") (auto simp: unat_eq_0)
  with assms(1) have "8 + unat sz < 2 ^ 64" by linarith
  then have s: "unat (8 + sz) = 8 + unat sz" by (subst unat_add_usize) simp_all
  have "unat ((8 + sz) * n) = (8 + unat sz) * unat n"
    using assms(1) by (simp add: unat_word_ariths(2) s)
  with assms(1) show ?thesis unfolding BLOCK_SPACE_def by (subst unat_add_usize) simp_all
qed

lemma ALIGN_SIZE_ge: "8 \<le> ALIGN_SIZE sz"
  by (simp add: ALIGN_SIZE_def not_less)

lemma new_block_chunks:
  assumes "0 < k" "pb_chunks bk = link_chunks b (Suc 0) k"
  shows "chunk_of (h(b \<mapsto> bk)) (b, j) =
      (if j < k then Some \<lparr>pc_status = FREE, pc_next = (if Suc j < k then Some (b, Suc j) else None)\<rparr> else None)"
    "status_of (h(b \<mapsto> bk)) a = (if fst a = b then if snd a < k then Some FREE else None else status_of h a)"
    "linked (chunk_next (h(b \<mapsto> bk))) (Some (b, 0)) (map (Pair b) [0..<k])"
proof -
  show new: "chunk_of (h(b \<mapsto> bk)) (b, j) =
      (if j < k then Some \<lparr>pc_status = FREE, pc_next = (if Suc j < k then Some (b, Suc j) else None)\<rparr> else None)" for j
    using assms nth_link_chunks [of j k "Suc 0" b] by (simp add: chunk_of_new length_link_chunks)
  show "status_of (h(b \<mapsto> bk)) a = (if fst a = b then if snd a < k then Some FREE else None else status_of h a)"
    using new [of "snd a"] by (cases a) (auto simp: status_of_def chunk_of_new)
  show "linked (chunk_next (h(b \<mapsto> bk))) (Some (b, 0)) (map (Pair b) [0..<k])"
    by (rule linked_upt) (simp_all only: assms new if_True option.map pool_chunk.select_convs)
qed

lemma pool_wf_new_block:
  assumes "pool_wf p" "free_chunk_header p = None" "b \<notin> dom (pool_mem p)" "0 < k"
    "pb_chunks bk = link_chunks b (Suc 0) k" "pb_next bk = block_chain p"
  defines "p' \<equiv> p\<lparr>free_chunk_header := Some (b, 0), block_chain := Some b, block_count := block_count p + 1,
    pool_mem := (pool_mem p)(b \<mapsto> bk)\<rparr>"
  shows "pool_wf p'" "pool_live p' = pool_live p"
proof -
  note new = new_block_chunks [OF assms(4,5), of "pool_mem p"]
  from assms(1,2) obtain bs where bs: "linked (block_next (pool_mem p)) (block_chain p) bs" "distinct bs"
    "set bs = dom (pool_mem p)" "block_count p = of_nat (length bs)" and
    nofree: "{a. status_of (pool_mem p) a = Some FREE} = {}"
    by (auto simp: pool_wf_def linked_None)
  have "linked (block_next ((pool_mem p)(b \<mapsto> bk))) (block_chain p) bs"
    by (subst linked_cong [where nx = "block_next (pool_mem p)"]) (use bs(1,3) assms(3) in auto)
  then have "linked (block_next (pool_mem p')) (block_chain p') (b # bs)" using assms(6) by (simp add: p'_def)
  moreover have "set (map (Pair b) [0..<k]) = {a. status_of ((pool_mem p)(b \<mapsto> bk)) a = Some FREE}"
    using nofree by (auto simp: new(2))
  moreover have "distinct (map (Pair b) [0..<k])" by (simp add: distinct_map inj_on_def)
  ultimately show "pool_wf p'"
    unfolding pool_wf_def using bs new(3) assms(3)
    by (intro conjI exI [of _ "b # bs"] exI [of _ "map (Pair b) [0..<k]"]) (simp_all add: p'_def)
  have "status_of (pool_mem p) a \<noteq> Some s" if "fst a = b" for a s
    using that assms(3) by (auto simp: status_of_def chunk_of_def)
  then show "pool_live p' = pool_live p" by (auto simp: pool_live_def p'_def new(2))
qed

text \<open>A new block is taken when the free list is empty; afterwards the free list is its chunks.\<close>

lemma AllocBlock_ok:
  assumes "pool_inv malloc sz p" "free_chunk_header p = None"
  shows "AllocBlock malloc p (ALIGN_SIZE sz) = Inr (None, p) \<or>
    (\<exists>b p'. AllocBlock malloc p (ALIGN_SIZE sz) = Inr (Some (b, 0), p') \<and> free_chunk_header p' = Some (b, 0) \<and>
       pool_inv malloc sz p' \<and> pool_live p' = pool_live p)"
proof (cases "malloc (BLOCK_SPACE (chunk_per_block p) (ALIGN_SIZE sz)) (pool_mem p)")
  case None
  then show ?thesis by (simp add: AllocBlock_def ALIGN_SIZE_ge)
next
  case (Some b)
  let ?k = "unat (chunk_per_block p)"
  let ?bk = "\<lparr>pb_next = block_chain p, pb_sz = ALIGN_SIZE sz, pb_chunks = link_chunks b (Suc 0) ?k\<rparr>"
  have k: "0 < ?k" using assms(1) by (simp add: pool_inv_def unat_gt_0)
  have b: "b \<notin> dom (pool_mem p)" using Some assms(1) by (auto simp: pool_inv_def malloc_ok_def)
  have "unat (BLOCK_SPACE (chunk_per_block p) (ALIGN_SIZE sz)) = 8 + (8 + unat (ALIGN_SIZE sz)) * ?k"
    by (rule unat_BLOCK_SPACE) (use assms(1) in \<open>simp_all add: pool_inv_def\<close>)
  moreover have "8 \<le> unat (ALIGN_SIZE sz)" using ALIGN_SIZE_ge [of sz] by (simp add: word_le_nat_alt)
  ultimately have "\<not> unat (BLOCK_SPACE (chunk_per_block p) (ALIGN_SIZE sz)) < 8 + (8 + unat (ALIGN_SIZE sz)) * (?k - 1) + 16"
    using k by (cases ?k) simp_all
  then have "AllocBlock malloc p (ALIGN_SIZE sz) = Inr (Some (b, 0), p\<lparr>free_chunk_header := Some (b, 0),
      block_chain := Some b, block_count := block_count p + 1, pool_mem := (pool_mem p)(b \<mapsto> ?bk)\<rparr>)"
    using Some k by (simp add: AllocBlock_def ALIGN_SIZE_ge Let_def length_link_chunks)
  moreover have "pool_uniform sz (p\<lparr>free_chunk_header := Some (b, 0), block_chain := Some b, block_count := block_count p + 1,
      pool_mem := (pool_mem p)(b \<mapsto> ?bk)\<rparr>)"
    using assms(1) k by (auto simp: pool_inv_def pool_uniform_def length_link_chunks)
  ultimately show ?thesis
    using pool_wf_new_block [OF _ assms(2) b k, of ?bk] assms(1) by (simp add: pool_inv_def)
qed

text \<open>Taking the first free chunk, giving one back, and writing to one in use.\<close>

lemma pool_wf_take:
  assumes "pool_wf p" "free_chunk_header p = Some a"
  obtains c where "chunk_of (pool_mem p) a = Some c" "pc_status c = FREE"
    "pool_wf (p\<lparr>free_chunk_header := pc_next c, pool_mem := upd_chunk (pool_mem p) a (pc_status_update (\<lambda>_. ALLOCATED))\<rparr>)"
    "pool_live (p\<lparr>free_chunk_header := pc_next c, pool_mem := upd_chunk (pool_mem p) a (pc_status_update (\<lambda>_. ALLOCATED))\<rparr>) =
      insert a (pool_live p)"
proof -
  let ?h = "upd_chunk (pool_mem p) a (pc_status_update (\<lambda>_. ALLOCATED))"
  from assms obtain bs fs where bs: "linked (block_next (pool_mem p)) (block_chain p) bs" "distinct bs"
    "set bs = dom (pool_mem p)" "block_count p = of_nat (length bs)" and
    fs: "linked (chunk_next (pool_mem p)) (Some a) fs" "distinct fs" "set fs = {a. status_of (pool_mem p) a = Some FREE}"
    by (auto simp: pool_wf_def)
  from linked_Some [OF fs(1)] obtain c gs where g: "fs = a # gs" "chunk_of (pool_mem p) a = Some c"
    "linked (chunk_next (pool_mem p)) (pc_next c) gs" by auto
  have st: "status_of ?h x = (if x = a then Some ALLOCATED else status_of (pool_mem p) x)" for x
    by (simp add: status_of_def chunk_of_upd g(2))
  have "a \<in> {a. status_of (pool_mem p) a = Some FREE}" using fs(3) g(1) by (metis list.set_intros(1))
  then have free: "pc_status c = FREE" using g(2) by (simp add: status_of_def)
  have "linked (chunk_next ?h) (pc_next c) gs"
    by (subst linked_cong [where nx = "chunk_next (pool_mem p)"]) (use g fs(2) in \<open>auto simp: chunk_of_upd\<close>)
  moreover have "set gs = {x. status_of ?h x = Some FREE}" using fs(2,3) g(1) by (auto simp: st)
  ultimately have "pool_wf (p\<lparr>free_chunk_header := pc_next c, pool_mem := ?h\<rparr>)"
    unfolding pool_wf_def using bs fs(2) g(1) by (intro conjI exI [of _ bs] exI [of _ gs]) simp_all
  moreover have "pool_live (p\<lparr>free_chunk_header := pc_next c, pool_mem := ?h\<rparr>) = insert a (pool_live p)"
    by (auto simp: pool_live_def st)
  ultimately show ?thesis using that g(2) free by blast
qed

lemma pool_wf_give:
  assumes "pool_wf p" "a \<in> pool_live p"
  defines "p' \<equiv> p\<lparr>free_chunk_header := Some a,
    pool_mem := upd_chunk (pool_mem p) a (\<lambda>c. c\<lparr>pc_status := FREE, pc_next := free_chunk_header p\<rparr>)\<rparr>"
  shows "pool_wf p'" "pool_live p' = pool_live p - {a}"
proof -
  let ?h = "upd_chunk (pool_mem p) a (\<lambda>c. c\<lparr>pc_status := FREE, pc_next := free_chunk_header p\<rparr>)"
  from assms obtain bs fs where bs: "linked (block_next (pool_mem p)) (block_chain p) bs" "distinct bs"
    "set bs = dom (pool_mem p)" "block_count p = of_nat (length bs)" and
    fs: "linked (chunk_next (pool_mem p)) (free_chunk_header p) fs" "distinct fs"
      "set fs = {a. status_of (pool_mem p) a = Some FREE}"
    by (auto simp: pool_wf_def)
  from assms(2) obtain c where c: "chunk_of (pool_mem p) a = Some c" by (auto simp: pool_live_def status_of_def)
  have a: "a \<notin> set fs" using assms(2) fs(3) by (simp add: pool_live_def)
  have st: "status_of ?h x = (if x = a then Some FREE else status_of (pool_mem p) x)" for x
    by (simp add: status_of_def chunk_of_upd c)
  have "linked (chunk_next ?h) (free_chunk_header p) fs"
    by (subst linked_cong [where nx = "chunk_next (pool_mem p)"]) (use fs(1) a in \<open>auto simp: chunk_of_upd\<close>)
  then have "linked (chunk_next ?h) (Some a) (a # fs)" by (simp add: chunk_of_upd c)
  moreover have "set (a # fs) = {x. status_of ?h x = Some FREE}" using fs(3) by (auto simp: st)
  ultimately show "pool_wf p'"
    unfolding pool_wf_def p'_def using bs fs(2) a by (intro conjI exI [of _ bs] exI [of _ "a # fs"]) simp_all
  show "pool_live p' = pool_live p - {a}" by (auto simp: pool_live_def st p'_def)
qed

lemma pool_wf_write:
  assumes "pool_wf p" "a \<in> pool_live p"
  shows "pool_wf (user_write p a x)" "pool_live (user_write p a x) = pool_live p"
proof -
  let ?h = "upd_chunk (pool_mem p) a (pc_next_update (\<lambda>_. x))"
  have st: "status_of ?h = status_of (pool_mem p)"
    by (rule ext) (auto simp: status_of_def chunk_of_upd option.map_comp comp_def)
  have "linked (chunk_next ?h) q fs = linked (chunk_next (pool_mem p)) q fs"
    if "set fs = {a. status_of (pool_mem p) a = Some FREE}" for q fs
    by (rule linked_cong) (use that assms(2) in \<open>auto simp: chunk_of_upd pool_live_def\<close>)
  then show "pool_wf (user_write p a x)"
    using assms(1) by (auto simp: pool_wf_def user_write_def st)
  show "pool_live (user_write p a x) = pool_live p" by (simp add: pool_live_def user_write_def st)
qed

lemma pool_uniform_upd: "pool_uniform sz (p\<lparr>free_chunk_header := q, pool_mem := upd_chunk (pool_mem p) a f\<rparr>) = pool_uniform sz p"
  "pool_uniform sz (p\<lparr>pool_mem := upd_chunk (pool_mem p) a f\<rparr>) = pool_uniform sz p"
  by (auto simp: pool_uniform_def upd_chunk_def split: option.splits if_splits)

lemma Malloc_ok:
  assumes "pool_inv malloc sz p"
  shows "\<exists>r p'. Malloc malloc p sz = Inr (r, p') \<and> pool_inv malloc sz p' \<and>
    (case r of None \<Rightarrow> pool_live p' = pool_live p | Some a \<Rightarrow> a \<notin> pool_live p \<and> pool_live p' = insert a (pool_live p))"
proof -
  have take: "\<exists>p'. Malloc malloc p sz = Inr (Some a, p') \<and> pool_inv malloc sz p' \<and> a \<notin> pool_live q \<and>
      pool_live p' = insert a (pool_live q)"
    if q: "(if free_chunk_header p = None then AllocBlock malloc p (ALIGN_SIZE sz) else Inr (free_chunk_header p, p)) = Inr (Some a, q)"
      "pool_inv malloc sz q" "free_chunk_header q = Some a" for a q
  proof -
    from q(2) have "pool_wf q" by (simp add: pool_inv_def)
    from pool_wf_take [OF this q(3)] obtain c where c: "chunk_of (pool_mem q) a = Some c" "pc_status c = FREE"
      "pool_wf (q\<lparr>free_chunk_header := pc_next c, pool_mem := upd_chunk (pool_mem q) a (pc_status_update (\<lambda>_. ALLOCATED))\<rparr>)"
      "pool_live (q\<lparr>free_chunk_header := pc_next c, pool_mem := upd_chunk (pool_mem q) a (pc_status_update (\<lambda>_. ALLOCATED))\<rparr>) =
        insert a (pool_live q)" by blast
    have "a \<notin> pool_live q" using c(1,2) by (simp add: pool_live_def status_of_def)
    with c q assms show ?thesis
      by (simp add: Malloc_def Let_def deref_chunk pool_inv_def pool_uniform_upd)
  qed
  show ?thesis
  proof (cases "free_chunk_header p")
    case None
    from AllocBlock_ok [OF assms None] show ?thesis
    proof (elim disjE exE conjE)
      assume "AllocBlock malloc p (ALIGN_SIZE sz) = Inr (None, p)"
      with None assms have "Malloc malloc p sz = Inr (None, p)" by (simp add: Malloc_def pool_inv_def)
      with assms show ?thesis by auto
    next
      fix b q
      assume "AllocBlock malloc p (ALIGN_SIZE sz) = Inr (Some (b, 0), q)" "free_chunk_header q = Some (b, 0)"
        "pool_inv malloc sz q" "pool_live q = pool_live p"
      with take [of "(b, 0)" q] None show ?thesis by force
    qed
  next
    case (Some a)
    with take [of a p] assms show ?thesis by force
  qed
qed

lemma Free_ok:
  assumes "pool_inv malloc sz p" "a \<in> pool_live p"
  shows "\<exists>p'. Free p (Some a) = Inr p' \<and> pool_inv malloc sz p' \<and> pool_live p' = pool_live p - {a}"
proof -
  from assms(2) obtain c where c: "chunk_of (pool_mem p) a = Some c" "pc_status c = ALLOCATED"
    by (auto simp: pool_live_def status_of_def)
  with pool_wf_give [OF _ assms(2)] assms(1) show ?thesis
    by (simp add: Free_def deref_chunk pool_inv_def pool_uniform_upd)
qed

text \<open>Giving back a chunk that is not in use is detected as long as its block exists.\<close>

lemma Free_twice:
  "status_of (pool_mem p) a = Some FREE \<Longrightarrow> Free p (Some a) = Inl AssertFail"
  by (auto simp: Free_def status_of_def deref_chunk)

section \<open>What a pool promises\<close>

text \<open>The objects handed out and not given back are the live ones. The user may write to them.\<close>

locale object_pool =
  fixes inv :: "'p \<Rightarrow> bool" and live :: "'p \<Rightarrow> 'a set"
    and alloc :: "'p \<Rightarrow> ('a option \<times> 'p) res" and release :: "'p \<Rightarrow> 'a \<Rightarrow> 'p res"
    and scribble :: "'p \<Rightarrow> 'a \<Rightarrow> 'w \<Rightarrow> 'p"
  assumes alloc_ok: "inv p \<Longrightarrow> \<exists>r p'. alloc p = Inr (r, p') \<and> inv p' \<and>
      (case r of None \<Rightarrow> live p' = live p | Some a \<Rightarrow> a \<notin> live p \<and> live p' = insert a (live p))"
    and release_ok: "inv p \<Longrightarrow> a \<in> live p \<Longrightarrow> \<exists>p'. release p a = Inr p' \<and> inv p' \<and> live p' = live p - {a}"
    and scribble_ok: "inv p \<Longrightarrow> a \<in> live p \<Longrightarrow> inv (scribble p a w) \<and> live (scribble p a w) = live p"

text \<open>A user that keeps a list of its objects: it allocates one, gives the \<open>i\<close>-th back, or writes to it.\<close>

datatype 'w pool_op = OpMalloc | OpFree nat | OpWrite nat 'w

fun pool_user ::
  "('p \<Rightarrow> ('a option \<times> 'p) res) \<Rightarrow> ('p \<Rightarrow> 'a \<Rightarrow> 'p res) \<Rightarrow> ('p \<Rightarrow> 'a \<Rightarrow> 'w \<Rightarrow> 'p) \<Rightarrow>
   'w pool_op list \<Rightarrow> 'p \<times> 'a list \<Rightarrow> ('p \<times> 'a list) res" where
  "pool_user al re sc [] (p, objs) = Inr (p, objs)"
| "pool_user al re sc (OpMalloc # ops) (p, objs) =
     rbind (al p) (\<lambda>(r, p). pool_user al re sc ops (p, case r of None \<Rightarrow> objs | Some a \<Rightarrow> objs @ [a]))"
| "pool_user al re sc (OpFree i # ops) (p, objs) =
     (if i < length objs
      then rbind (re p (objs ! i)) (\<lambda>p. pool_user al re sc ops (p, take i objs @ drop (Suc i) objs))
      else pool_user al re sc ops (p, objs))"
| "pool_user al re sc (OpWrite i w # ops) (p, objs) =
     pool_user al re sc ops (if i < length objs then sc p (objs ! i) w else p, objs)"

lemma set_remove_nth:
  assumes "distinct xs" "i < length xs"
  shows "set (take i xs @ drop (Suc i) xs) = set xs - {xs ! i}" "distinct (take i xs @ drop (Suc i) xs)"
proof -
  have "xs = take i xs @ xs ! i # drop (Suc i) xs" using assms(2) by (rule id_take_nth_drop)
  with assms(1) have d: "distinct (take i xs @ xs ! i # drop (Suc i) xs)" by simp
  then show "distinct (take i xs @ drop (Suc i) xs)" by simp
  have "set xs = set (take i xs @ xs ! i # drop (Suc i) xs)" using assms(2) by (metis id_take_nth_drop)
  with d show "set (take i xs @ drop (Suc i) xs) = set xs - {xs ! i}" by auto
qed

context object_pool
begin

lemma user_safe:
  "inv p \<Longrightarrow> live p = set objs \<Longrightarrow> distinct objs \<Longrightarrow>
   \<exists>p' objs'. pool_user alloc release scribble ops (p, objs) = Inr (p', objs') \<and> inv p' \<and> live p' = set objs' \<and> distinct objs'"
proof (induction ops arbitrary: p objs)
  case (Cons op ops)
  show ?case
  proof (cases op)
    case OpMalloc
    from alloc_ok [OF Cons.prems(1)] obtain r p1 where a: "alloc p = Inr (r, p1)" "inv p1"
      "case r of None \<Rightarrow> live p1 = live p | Some a \<Rightarrow> a \<notin> live p \<and> live p1 = insert a (live p)" by blast
    then show ?thesis
      using OpMalloc Cons.prems Cons.IH [of p1 "case r of None \<Rightarrow> objs | Some a \<Rightarrow> objs @ [a]"] by (cases r) simp_all
  next
    case (OpFree i)
    show ?thesis
    proof (cases "i < length objs")
      case True
      then have "objs ! i \<in> live p" using Cons.prems(2) by simp
      from release_ok [OF Cons.prems(1) this] obtain p1 where "release p (objs ! i) = Inr p1" "inv p1"
        "live p1 = live p - {objs ! i}" by blast
      then show ?thesis
        using OpFree True set_remove_nth [OF Cons.prems(3) True] Cons.prems(2)
          Cons.IH [of p1 "take i objs @ drop (Suc i) objs"] by simp
    qed (use OpFree Cons in simp)
  next
    case (OpWrite i w)
    show ?thesis
    proof (cases "i < length objs")
      case True
      then have "objs ! i \<in> live p" using Cons.prems(2) by simp
      from scribble_ok [OF Cons.prems(1) this, of w] show ?thesis
        using OpWrite True Cons.prems Cons.IH [of "scribble p (objs ! i) w" objs] by simp
    qed (use OpWrite Cons in simp)
  qed
qed simp

end

interpretation fixed_pool: object_pool "pool_inv malloc sz" pool_live "\<lambda>p. Malloc malloc p sz" "\<lambda>p a. Free p (Some a)" user_write
  for malloc sz
proof
  fix p a w
  show "pool_inv malloc sz p \<Longrightarrow> \<exists>r p'. Malloc malloc p sz = Inr (r, p') \<and> pool_inv malloc sz p' \<and>
      (case r of None \<Rightarrow> pool_live p' = pool_live p | Some a \<Rightarrow> a \<notin> pool_live p \<and> pool_live p' = insert a (pool_live p))"
    by (rule Malloc_ok)
  show "pool_inv malloc sz p \<Longrightarrow> a \<in> pool_live p \<Longrightarrow>
      \<exists>p'. Free p (Some a) = Inr p' \<and> pool_inv malloc sz p' \<and> pool_live p' = pool_live p - {a}"
    by (rule Free_ok)
  show "pool_inv malloc sz p \<Longrightarrow> a \<in> pool_live p \<Longrightarrow>
      pool_inv malloc sz (user_write p a w) \<and> pool_live (user_write p a w) = pool_live p"
    using pool_wf_write [of p a w] by (simp add: pool_inv_def) (simp add: user_write_def pool_uniform_upd)
qed

section \<open>The linear pool keeps the promise\<close>

definition lin_inv :: "(nat list \<Rightarrow> nat) \<Rightarrow> (nat list \<Rightarrow> nat option) \<Rightarrow> lin_pool \<Rightarrow> bool" where
  "lin_inv first malloc p \<longleftrightarrow>
     (\<forall>xs. xs \<noteq> [] \<longrightarrow> first xs \<in> set xs) \<and> (\<forall>xs x. malloc xs = Some x \<longrightarrow> x \<notin> set xs) \<and>
     lp_pool p \<noteq> None \<and> distinct (lp_free_hset p) \<and> distinct (lp_objs p) \<and> set (lp_free_hset p) \<subseteq> {..<lp_size p}"

definition lin_live :: "lin_pool \<Rightarrow> lin_ptr set" where
  "lin_live p = Slot (the (lp_pool p)) ` ({..<lp_size p} - set (lp_free_hset p)) \<union> Obj ` set (lp_objs p)"

lemma lin_Malloc_ok:
  assumes "lin_inv first malloc p"
  shows "\<exists>r p'. lin_Malloc first malloc p = Inr (r, p') \<and> lin_inv first malloc p' \<and>
    (case r of None \<Rightarrow> lin_live p' = lin_live p | Some a \<Rightarrow> a \<notin> lin_live p \<and> lin_live p' = insert a (lin_live p))"
proof (cases "lp_free_hset p = []")
  case True
  with assms show ?thesis
    by (cases "malloc (lp_objs p)") (auto simp: lin_Malloc_def lin_inv_def lin_live_def)
next
  case False
  let ?i = "first (lp_free_hset p)"
  from assms False obtain b where i: "?i \<in> set (lp_free_hset p)" "lp_pool p = Some b" "distinct (lp_free_hset p)"
    "set (lp_free_hset p) \<subseteq> {..<lp_size p}"
    by (auto simp: lin_inv_def)
  then have set: "{..<lp_size p} - (set (lp_free_hset p) - {?i}) = insert ?i ({..<lp_size p} - set (lp_free_hset p))" by auto
  have "lin_live (p\<lparr>lp_free_hset := remove1 ?i (lp_free_hset p)\<rparr>) = insert (Slot b ?i) (lin_live p)"
    using i by (simp add: lin_live_def set)
  moreover have "Slot b ?i \<notin> lin_live p" using i by (auto simp: lin_live_def)
  moreover have "lin_inv first malloc (p\<lparr>lp_free_hset := remove1 ?i (lp_free_hset p)\<rparr>)"
    using assms i by (auto simp: lin_inv_def)
  ultimately show ?thesis using False i(2) by (simp add: lin_Malloc_def Let_def)
qed

lemma lin_Free_ok:
  assumes "lin_inv first malloc p" "a \<in> lin_live p"
  shows "\<exists>p'. lin_Free p a = Inr p' \<and> lin_inv first malloc p' \<and> lin_live p' = lin_live p - {a}"
  using assms by (cases a) (auto simp: lin_inv_def lin_live_def lin_Free_def)

interpretation linear_pool: object_pool "lin_inv first malloc" lin_live "lin_Malloc first malloc" lin_Free "\<lambda>p a w. p"
  for first malloc
  by unfold_locales (simp_all add: lin_Malloc_ok lin_Free_ok)

text \<open>\<open>Reserve\<close> that moves the array loses the objects in it: giving one back is a call of \<open>free\<close> on released memory.\<close>

lemma lin_Reserve_moves:
  assumes "lp_pool p = Some b" "lp_size p < sz" "b' \<noteq> b"
  shows "lin_Free (lin_Reserve (Some b') p sz) (Slot b i) = Inl UseAfterFree"
  using assms by (simp add: lin_Reserve_def lin_Free_def)

section \<open>Counting and shrinking\<close>

lemma walk_chunk_ok:
  assumes "pool_uniform sz p" "pool_mem p b = Some bk" "i < unat (chunk_per_block p)"
  shows "walk_chunk p (Some b) (ALIGN_SIZE sz) i = Inr (pb_chunks bk ! i)"
  using assms by (simp add: walk_chunk_def pool_uniform_def deref_def chunk_of_def)

lemma free_from_ok:
  assumes "pool_uniform sz p" "pool_mem p b = Some bk" "n = unat (chunk_per_block p)"
  shows "free_from p (Some b) (ALIGN_SIZE sz) i n = Inr (\<forall>c \<in> set (drop i (pb_chunks bk)). pc_status c = FREE)"
proof (induction "n - i" arbitrary: i)
  case 0
  with assms show ?case by (subst free_from.simps) (simp add: pool_uniform_def)
next
  case (Suc d)
  then have i: "i < n" by simp
  then have "drop i (pb_chunks bk) = pb_chunks bk ! i # drop (Suc i) (pb_chunks bk)"
    using assms by (metis Cons_nth_drop_Suc pool_uniform_def)
  moreover have "x = ALLOCATED \<longleftrightarrow> x \<noteq> FREE" for x by (cases x) simp_all
  moreover have "free_from p (Some b) (ALIGN_SIZE sz) (Suc i) n = Inr (\<forall>c \<in> set (drop (Suc i) (pb_chunks bk)). pc_status c = FREE)"
    using Suc.hyps by simp
  ultimately show ?case using i walk_chunk_ok [OF assms(1,2)] assms(3) by (subst free_from.simps) simp
qed

definition block_free :: "pool_block \<Rightarrow> bool" where
  "block_free bk \<longleftrightarrow> (\<forall>c \<in> set (pb_chunks bk). pc_status c = FREE)"

lemma IsBlockFree_ok:
  "pool_uniform sz p \<Longrightarrow> pool_mem p b = Some bk \<Longrightarrow> IsBlockFree p (Some b) (ALIGN_SIZE sz) = Inr (block_free bk)"
  using free_from_ok [of sz p b bk _ 0] by (simp add: IsBlockFree_def ALIGN_SIZE_ge block_free_def)

lemma IsBlockFree_null: "chunk_per_block p \<noteq> 0 \<Longrightarrow> IsBlockFree p None (ALIGN_SIZE sz) = Inl NullDeref"
  by (subst IsBlockFree_def, subst free_from.simps) (simp add: ALIGN_SIZE_ge walk_chunk_def unat_gt_0)

definition free_in :: "pool_block \<Rightarrow> nat set" where
  "free_in bk = {i. i < length (pb_chunks bk) \<and> pc_status (pb_chunks bk ! i) = FREE}"

lemma count_free_from_ok:
  assumes "pool_uniform sz p" "pool_mem p b = Some bk" "n = unat (chunk_per_block p)"
  shows "count_free_from p (Some b) (ALIGN_SIZE sz) i n ret = Inr (ret + of_nat (card (free_in bk \<inter> {i..})))"
proof (induction "n - i" arbitrary: i ret)
  case 0
  then have "free_in bk \<inter> {i..} = {}" using assms by (auto simp: free_in_def pool_uniform_def)
  with 0 show ?case by (subst count_free_from.simps) simp
next
  case (Suc d)
  then have i: "i < n" by simp
  let ?c = "pb_chunks bk ! i"
  have len: "length (pb_chunks bk) = n" using assms by (simp add: pool_uniform_def)
  have "free_in bk \<inter> {i..} = (if pc_status ?c = FREE then insert i (free_in bk \<inter> {Suc i..}) else free_in bk \<inter> {Suc i..})"
    using i len by (auto simp: free_in_def not_less_eq_eq le_less_Suc_eq Suc_le_eq le_less)
  moreover have "finite (free_in bk \<inter> {Suc i..})" by (simp add: free_in_def)
  moreover have "count_free_from p (Some b) (ALIGN_SIZE sz) (Suc i) n r = Inr (r + of_nat (card (free_in bk \<inter> {Suc i..})))" for r
    using Suc.hyps by simp
  ultimately show ?case
    using i walk_chunk_ok [OF assms(1,2)] assms(3) by (subst count_free_from.simps) (simp add: algebra_simps)
qed

lemma free_chunk_num_ok:
  assumes "linked (block_next (pool_mem p)) iter bs" "pool_uniform sz p"
  shows "free_chunk_num p (ALIGN_SIZE sz) iter ret =
    Some (Inr (ret + of_nat (\<Sum>b \<leftarrow> bs. card (free_in (the (pool_mem p b))))))"
  using assms(1)
proof (induction bs arbitrary: iter ret)
  case (Cons b bs)
  then obtain bk where bk: "iter = Some b" "pool_mem p b = Some bk" "linked (block_next (pool_mem p)) (pb_next bk) bs" by auto
  have "GetFreeChunkNumInBlock p (Some b) (ALIGN_SIZE sz) = Inr (of_nat (card (free_in bk)))"
    using count_free_from_ok [OF assms(2) bk(2) refl, of 0 0] by (simp add: GetFreeChunkNumInBlock_def ALIGN_SIZE_ge)
  with bk Cons.IH [OF bk(3)] show ?case by (subst free_chunk_num.simps) (simp add: block_deref_def add.assoc)
qed (subst free_chunk_num.simps, simp)

lemma GetFreeChunkNum_ok:
  assumes "pool_inv malloc sz p"
  shows "GetFreeChunkNum p sz = Inr (of_nat (card {a. status_of (pool_mem p) a = Some FREE}))"
proof -
  from assms obtain bs where bs: "linked (block_next (pool_mem p)) (block_chain p) bs" "distinct bs" "set bs = dom (pool_mem p)"
    and u: "pool_uniform sz p"
    by (auto simp: pool_inv_def pool_wf_def)
  let ?F = "\<lambda>b. Pair b ` free_in (the (pool_mem p b))"
  have "{a. status_of (pool_mem p) a = Some FREE} = (\<Union>b \<in> set bs. ?F b)"
    unfolding bs(3) by (auto simp: status_of_def chunk_of_def free_in_def image_iff split: option.splits if_splits)
  moreover have "card (\<Union>b \<in> set bs. ?F b) = (\<Sum>b \<in> set bs. card (?F b))"
    by (rule card_UN_disjoint) (auto simp: free_in_def)
  moreover have "card (?F b) = card (free_in (the (pool_mem p b)))" for b
    by (rule card_image) (simp add: inj_on_def)
  ultimately have "card {a. status_of (pool_mem p) a = Some FREE} = (\<Sum>b \<leftarrow> bs. card (free_in (the (pool_mem p b))))"
    using bs(2) by (simp add: sum_list_distinct_conv_sum_set)
  then show ?thesis by (simp add: GetFreeChunkNum_def free_chunk_num_ok [OF bs(1) u])
qed

text \<open>The destructor releases every block.\<close>

lemma destroy_pool_ok:
  assumes "linked (block_next (pool_mem p)) (block_chain p) bs" "distinct bs" "set bs = dom (pool_mem p)"
  shows "\<exists>p'. destroy_pool p = Some (Inr p') \<and> pool_mem p' = Map.empty \<and> block_chain p' = None"
  using assms
proof (induction bs arbitrary: p)
  case Nil
  then show ?case by (subst destroy_pool.simps) auto
next
  case (Cons b bs)
  then obtain bk where bk: "block_chain p = Some b" "pool_mem p b = Some bk" "linked (block_next (pool_mem p)) (pb_next bk) bs"
    by auto
  let ?q = "p\<lparr>block_chain := pb_next bk, pool_mem := (pool_mem p)(b := None)\<rparr>"
  have "linked (block_next (pool_mem ?q)) (block_chain ?q) bs"
    by (subst linked_cong [where nx = "block_next (pool_mem p)"]) (use bk(3) Cons.prems(2) in auto)
  moreover have "set bs = dom (pool_mem ?q)" using Cons.prems(2,3) by auto
  moreover have "distinct bs" using Cons.prems(2) by simp
  ultimately have "\<exists>p'. destroy_pool ?q = Some (Inr p') \<and> pool_mem p' = Map.empty \<and> block_chain p' = None"
    by (intro Cons.IH)
  then show ?case using bk(1,2) by (subst destroy_pool.simps) (simp add: block_deref_def)
qed

text \<open>What both loops of \<open>Shrink\<close> leave: the same free list and fewer blocks.\<close>

definition shrunk :: "usize \<Rightarrow> pool \<Rightarrow> pool \<Rightarrow> bool" where
  "shrunk sz p p' \<longleftrightarrow> free_chunk_header p' = free_chunk_header p \<and> chunk_per_block p' = chunk_per_block p \<and>
     dom (pool_mem p') \<subseteq> dom (pool_mem p) \<and> pool_uniform sz p'"

lemma shrunk_trans: "shrunk sz p q \<Longrightarrow> shrunk sz q r \<Longrightarrow> shrunk sz p r"
  unfolding shrunk_def by (metis subset_trans)

lemma linked_removed:
  "linked (block_next h) q bs \<Longrightarrow> x \<notin> set bs \<Longrightarrow> linked (block_next (h(x := None))) q bs"
  by (subst linked_cong [where nx = "block_next h"]) auto

lemma shrink_head_ok:
  assumes "linked (block_next (pool_mem p)) (block_chain p) bs" "distinct bs" "pool_uniform sz p" "chunk_per_block p \<noteq> 0"
  shows "shrink_head (ALIGN_SIZE sz) p = Some (Inl NullDeref) \<or>
    (\<exists>p' bs'. shrink_head (ALIGN_SIZE sz) p = Some (Inr p') \<and> shrunk sz p p' \<and> bs' \<noteq> [] \<and> distinct bs' \<and>
       linked (block_next (pool_mem p')) (block_chain p') bs' \<and>
       (\<forall>b bk. block_chain p = Some b \<and> pool_mem p b = Some bk \<and> block_free bk \<longrightarrow> b \<notin> dom (pool_mem p')))"
  using assms
proof (induction bs arbitrary: p)
  case Nil
  then show ?case by (subst shrink_head.simps) (simp add: IsBlockFree_null)
next
  case (Cons b bs)
  then obtain bk where bk: "block_chain p = Some b" "pool_mem p b = Some bk"
    "linked (block_next (pool_mem p)) (pb_next bk) bs" by auto
  note fr = IsBlockFree_ok [OF Cons.prems(3) bk(2)]
  show ?case
  proof (cases "block_free bk")
    case False
    then have "shrink_head (ALIGN_SIZE sz) p = Some (Inr p)" using bk(1) fr by (subst shrink_head.simps) simp
    with False Cons.prems bk show ?thesis by (auto simp: shrunk_def intro!: exI [of _ p] exI [of _ "b # bs"])
  next
    case True
    let ?q = "p\<lparr>block_chain := pb_next bk, block_count := block_count p - 1, pool_mem := (pool_mem p)(b := None)\<rparr>"
    have step: "shrink_head (ALIGN_SIZE sz) p = shrink_head (ALIGN_SIZE sz) ?q"
      using True bk(1,2) fr by (subst shrink_head.simps) (simp add: block_deref_def)
    have q: "linked (block_next (pool_mem ?q)) (block_chain ?q) bs" "pool_uniform sz ?q"
      using linked_removed [OF bk(3)] Cons.prems by (auto simp: pool_uniform_def)
    have s: "shrunk sz p ?q" using q(2) by (auto simp: shrunk_def)
    from Cons.IH [OF q(1) _ q(2)] Cons.prems(2,4) consider
      "shrink_head (ALIGN_SIZE sz) ?q = Some (Inl NullDeref)"
    | p' bs' where "shrink_head (ALIGN_SIZE sz) ?q = Some (Inr p')" "shrunk sz ?q p'" "bs' \<noteq> []" "distinct bs'"
        "linked (block_next (pool_mem p')) (block_chain p') bs'" by auto
    then show ?thesis
    proof cases
      case (2 p' bs')
      then have "b \<notin> dom (pool_mem p')" by (auto simp: shrunk_def)
      with 2 shrunk_trans [OF s 2(2)] bk(1) show ?thesis unfolding step by auto
    qed (use step in simp)
  qed
qed

lemma shrink_rest_ok:
  assumes "linked (block_next (pool_mem p)) iter bs" "distinct bs" "pool_uniform sz p"
  shows "shrink_rest (ALIGN_SIZE sz) iter p = Some (Inl NullDeref) \<or>
    (\<exists>p'. shrink_rest (ALIGN_SIZE sz) iter p = Some (Inr p') \<and> shrunk sz p p')"
  using assms
proof (induction bs arbitrary: p iter rule: measure_induct_rule [of length])
  case (less bs)
  note ls = less.prems
  show ?case
  proof (cases bs)
    case Nil
    with ls(1) show ?thesis by (subst shrink_rest.simps) (simp add: block_deref_def)
  next
    case (Cons b cs)
    with ls(1) obtain bk where bk: "iter = Some b" "pool_mem p b = Some bk" "linked (block_next (pool_mem p)) (pb_next bk) cs"
      by auto
    show ?thesis
    proof (cases cs)
      case Nil
      with bk ls(3) show ?thesis by (subst shrink_rest.simps) (simp add: block_deref_def shrunk_def)
    next
      case (Cons t ds)
      with bk(3) obtain tk where tk: "pb_next bk = Some t" "pool_mem p t = Some tk"
        "linked (block_next (pool_mem p)) (pb_next tk) ds" by auto
      note fr = IsBlockFree_ok [OF ls(3) tk(2)]
      show ?thesis
      proof (cases "block_free tk")
        case False
        then have "shrink_rest (ALIGN_SIZE sz) iter p = shrink_rest (ALIGN_SIZE sz) (Some t) p"
          using bk tk fr by (subst shrink_rest.simps) (simp add: block_deref_def)
        with less.IH [of cs p "Some t"] \<open>bs = b # cs\<close> bk(3) tk(1) ls(2,3) show ?thesis by simp
      next
        case True
        let ?q = "p\<lparr>block_count := block_count p - 1, pool_mem := (pool_mem p)(b \<mapsto> bk\<lparr>pb_next := pb_next tk\<rparr>, t := None)\<rparr>"
        have step: "shrink_rest (ALIGN_SIZE sz) iter p = shrink_rest (ALIGN_SIZE sz) (pb_next tk) ?q"
          using True bk tk fr by (subst shrink_rest.simps) (simp add: block_deref_def)
        have d: "b \<noteq> t" "b \<notin> set ds" "t \<notin> set ds" "distinct ds" using ls(2) \<open>bs = b # cs\<close> Cons by auto
        have "linked (block_next (pool_mem ?q)) (pb_next tk) ds"
          by (subst linked_cong [where nx = "block_next (pool_mem p)"]) (use tk(3) d in auto)
        moreover have u: "pool_uniform sz ?q" using ls(3) bk(2) by (auto simp: pool_uniform_def)
        moreover have "shrunk sz p ?q" using u bk(2) by (auto simp: shrunk_def)
        ultimately show ?thesis
          using less.IH [of ds ?q "pb_next tk"] d(4) \<open>bs = b # cs\<close> Cons shrunk_trans step by auto
      qed
    qed
  qed
qed

text \<open>C36. \<open>Shrink\<close> is not safe when it frees the block that the free list begins in. If the first block is completely free and the next chunk to be handed
  out is one of its chunks, \<open>Shrink\<close> either dereferences a null pointer or frees the block and leaves the free list
  pointing into it, so that the next \<open>Malloc\<close> reads released memory.\<close>

theorem Shrink_dangling:
  assumes "pool_inv malloc sz p" "free_chunk_header p = Some a" "block_chain p = Some (fst a)"
    "pool_mem p (fst a) = Some bk" "block_free bk"
  shows "Shrink p sz = Inl NullDeref \<or> (\<exists>p'. Shrink p sz = Inr p' \<and> Malloc malloc p' sz = Inl UseAfterFree)"
proof -
  from assms(1) obtain bs where bs: "linked (block_next (pool_mem p)) (block_chain p) bs" "distinct bs"
    and u: "pool_uniform sz p" "chunk_per_block p \<noteq> 0" "sz \<noteq> 0"
    by (auto simp: pool_inv_def pool_wf_def)
  from shrink_head_ok [OF bs u(1,2)] show ?thesis
  proof (elim disjE exE conjE)
    fix q cs
    assume q: "shrink_head (ALIGN_SIZE sz) p = Some (Inr q)" "shrunk sz p q" "distinct cs"
      "linked (block_next (pool_mem q)) (block_chain q) cs"
      "\<forall>b bk. block_chain p = Some b \<and> pool_mem p b = Some bk \<and> block_free bk \<longrightarrow> b \<notin> dom (pool_mem q)"
    have "pool_uniform sz q" using q(2) by (simp add: shrunk_def)
    from shrink_rest_ok [OF q(4,3) this] show ?thesis
    proof (elim disjE exE conjE)
      fix r
      assume r: "shrink_rest (ALIGN_SIZE sz) (block_chain q) q = Some (Inr r)" "shrunk sz q r"
      have "fst a \<notin> dom (pool_mem r)" using q(5) assms(3-5) r(2) by (auto simp: shrunk_def)
      moreover have "free_chunk_header r = Some a" using q(2) r(2) assms(2) by (simp add: shrunk_def)
      ultimately have "Malloc malloc r sz = Inl UseAfterFree"
        using u(3) by (simp add: Malloc_def Let_def deref_def domIff)
      with q(1) r(1) show ?thesis by (simp add: Shrink_def)
    qed (use q(1) in \<open>simp add: Shrink_def\<close>)
  qed (simp add: Shrink_def)
qed

text \<open>A pool with one chunk per block: the chunk of the first block is in use, the one of the second has been given back.\<close>

definition demo_malloc :: pool_malloc where
  "demo_malloc n h = (if h 0 = None then Some 0 else if h 1 = None then Some 1 else None)"

lemma demo_malloc_ok: "malloc_ok demo_malloc"
  by (auto simp: malloc_ok_def demo_malloc_def split: if_splits)

definition demo_pool :: pool where
  "demo_pool = \<lparr>chunk_per_block = 1, free_chunk_header = Some (1, 0), block_chain = Some 1, block_count = 2,
     pool_mem = [0 \<mapsto> \<lparr>pb_next = None, pb_sz = 8, pb_chunks = [\<lparr>pc_status = ALLOCATED, pc_next = None\<rparr>]\<rparr>,
                 1 \<mapsto> \<lparr>pb_next = Some 0, pb_sz = 8, pb_chunks = [\<lparr>pc_status = FREE, pc_next = None\<rparr>]\<rparr>]\<rparr>"

lemma demo_pool_inv: "pool_inv demo_malloc 8 demo_pool"
proof -
  have "status_of (pool_mem demo_pool) a = (if a = (0, 0) then Some ALLOCATED else if a = (1, 0) then Some FREE else None)" for a
    by (cases a) (auto simp: demo_pool_def status_of_def chunk_of_def)
  then have "{a. status_of (pool_mem demo_pool) a = Some FREE} = {(1, 0)}" by auto
  then have "pool_wf demo_pool" unfolding pool_wf_def
    by (intro conjI exI [of _ "[1, 0]"] exI [of _ "[(1, 0)]"]) (auto simp: demo_pool_def chunk_of_def split: if_splits)
  then show ?thesis using demo_malloc_ok
    by (auto simp: pool_inv_def pool_uniform_def demo_pool_def ALIGN_SIZE_def split: if_splits)
qed

lemma demo_pool_shrinks: "Shrink demo_pool 8 \<noteq> Inl NullDeref"
  by (simp add: Shrink_def demo_pool_def ALIGN_SIZE_def shrink_head.simps shrink_rest.simps IsBlockFree_def
      free_from.simps walk_chunk_def deref_def chunk_of_def block_deref_def)

theorem Shrink_dangling_witness:
  "\<exists>p'. Shrink demo_pool 8 = Inr p' \<and> Malloc demo_malloc p' 8 = Inl UseAfterFree"
  using Shrink_dangling [OF demo_pool_inv, of "(1, 0)"] demo_pool_shrinks
  by (auto simp: demo_pool_def block_free_def)

text \<open>C20. Objects of the fixed chunk pool never overlap. Whatever a user does with a new pool (allocate, give an object back, or
  write to an object, over the link the pool keeps there), every call returns, the objects it holds are distinct, and they
  are exactly the chunks the pool counts as allocated; the free list holds all the others.\<close>

theorem FixedChunkMemoryPool_no_overlap:
  assumes "malloc_ok malloc" "sz \<noteq> 0" "n \<noteq> 0" "8 + (8 + unat (ALIGN_SIZE sz)) * unat n < 2 ^ 64"
  shows "\<exists>p objs. pool_user (\<lambda>p. Malloc malloc p sz) (\<lambda>p a. Free p (Some a)) user_write ops (FixedChunkMemoryPool n, []) =
      Inr (p, objs) \<and> distinct objs \<and> pool_live p = set objs \<and> pool_wf p"
proof -
  have "pool_inv malloc sz (FixedChunkMemoryPool n)"
    using assms pool_wf_new [of n] by (simp add: pool_inv_def) (simp add: FixedChunkMemoryPool_def pool_uniform_def)
  moreover have "pool_live (FixedChunkMemoryPool n) = set []"
    by (simp add: pool_live_def FixedChunkMemoryPool_def status_of_def chunk_of_def)
  ultimately obtain p objs where "pool_user (\<lambda>p. Malloc malloc p sz) (\<lambda>p a. Free p (Some a)) user_write ops
      (FixedChunkMemoryPool n, []) = Inr (p, objs)" "pool_inv malloc sz p" "pool_live p = set objs" "distinct objs"
    using fixed_pool.user_safe [of malloc sz "FixedChunkMemoryPool n" "[]" ops] by auto
  then show ?thesis by (auto simp: pool_inv_def)
qed

theorem FixedChunkMemoryPool_no_overlap_witness:
  "\<exists>p objs. pool_user (\<lambda>p. Malloc demo_malloc p 24) (\<lambda>p a. Free p (Some a)) user_write
     [OpMalloc, OpMalloc, OpWrite 0 (Some (7, 7)), OpFree 0, OpMalloc] (FixedChunkMemoryPool 2, []) = Inr (p, objs) \<and> distinct objs"
proof -
  have "(24 :: usize) \<noteq> 0" "(2 :: usize) \<noteq> 0" "8 + (8 + unat (ALIGN_SIZE 24)) * unat (2 :: usize) < 2 ^ 64"
    by (simp_all add: ALIGN_SIZE_def)
  from FixedChunkMemoryPool_no_overlap [OF demo_malloc_ok this] show ?thesis by blast
qed

text \<open>The same holds for the linear pool, as long as it is not enlarged.\<close>

lemma LinearFixedMemoryPool_no_overlap:
  assumes "\<And>xs. xs \<noteq> [] \<Longrightarrow> first xs \<in> set xs" "\<And>xs x. malloc xs = Some x \<Longrightarrow> x \<notin> set xs"
    "LinearFixedMemoryPool (Some b) n = Inr p0"
  shows "\<exists>p objs. pool_user (lin_Malloc first malloc) lin_Free (\<lambda>p a w. p) ops (p0, []) = Inr (p, objs) \<and> distinct objs \<and>
    lin_live p = set objs"
proof -
  from assms have "lin_inv first malloc p0" "lin_live p0 = set []"
    by (auto simp: LinearFixedMemoryPool_def lin_inv_def lin_live_def)
  from linear_pool.user_safe [OF this, of ops] show ?thesis by auto
qed

text \<open>The size of a block is computed without a check: many small chunks give a block of 8 bytes, and the headers are written
  behind it; a pool with no chunks per block does the same.\<close>

lemma AllocBlock_wraps:
  assumes "malloc 8 (pool_mem p) = Some b" "chunk_per_block p \<in> {0, 2 ^ 60}"
  shows "AllocBlock malloc p 8 = Inl OutOfBounds"
proof -
  have "BLOCK_SPACE (chunk_per_block p) 8 = 8"
    using assms(2) by (auto simp: BLOCK_SPACE_def word_eq_iff_unsigned unsigned_word_eqI)
  with assms(1) show ?thesis by (simp add: AllocBlock_def Let_def)
qed

text \<open>\<open>Malloc\<close> does not look at the size when a chunk is free: two allocators of different types on one pool overrun each
  other's chunks.\<close>

lemma allocate_too_small:
  assumes "free_chunk_header p = Some a" "chunk_of (pool_mem p) a = Some c" "pool_mem p (fst a) = Some bk" "pb_sz bk < sz"
  shows "\<exists>p' bk'. allocate malloc p sz 1 = Inr (Some a, p') \<and> pool_mem p' (fst a) = Some bk' \<and> pb_sz bk' < sz"
proof -
  have "sz \<noteq> 0" using assms(4) by auto
  with assms show ?thesis
    by (simp add: allocate_def Malloc_def Let_def deref_chunk) (simp add: upd_chunk_def)
qed

end
