(* ===== verification/Tcp_Server.thy ===== *)
theory Tcp_Server
  imports Connection
begin

text \<open>
  Model of \<^verbatim>\<open>kanon/net/event_loop_pool.cc\<close>, \<^verbatim>\<open>kanon/net/acceptor.cc\<close> and \<^verbatim>\<open>kanon/net/tcp_server.cc\<close>: the choice of a loop
  for every new connection, the table of the connections, and the calls \<open>ConnectionEstablished\<close>, close callback and
  \<open>ConnectionDestroyed\<close> that the server makes on a connection from different threads. Loop 0 is the one of the server; the
  others run in threads of their own. What the loops execute is recorded in the order of execution. The calls are then carried out
  on the connections of the theory \<open>Connection\<close>, which close themselves.
\<close>

section \<open>The pool of loops\<close>

record loop_pool =
  ep_started :: bool
  ep_loop_num :: int
  ep_next :: int
  ep_loop_threads :: "nat list"

definition EventLoopPool :: loop_pool where
  "EventLoopPool = \<lparr>ep_started = False, ep_loop_num = 0, ep_next = 0, ep_loop_threads = []\<rparr>"

definition SetLoopNum :: "int \<Rightarrow> loop_pool \<Rightarrow> loop_pool" where
  "SetLoopNum n p = p\<lparr>ep_loop_num := n\<rparr>"

text \<open>\<open>reserve\<close> throws for a negative number. The loops are numbered in the order their threads are started.\<close>

definition pool_StartRun :: "loop_pool \<Rightarrow> loop_pool res" where
  "pool_StartRun p =
     rbind (assertR (\<not> ep_started p)) (\<lambda>_.
     if ep_loop_num p < 0 then Inl Exn
     else Inr (p\<lparr>ep_started := True, ep_loop_threads := map Suc [0..<nat (ep_loop_num p)]\<rparr>))"

definition GetNextLoop :: "loop_pool \<Rightarrow> (nat \<times> loop_pool) res" where
  "GetNextLoop p =
     rbind (assertR (ep_started p)) (\<lambda>_.
     if ep_loop_threads p \<noteq> [] then
       if nat (ep_next p) < length (ep_loop_threads p) then
         let loop = ep_loop_threads p ! nat (ep_next p);
             next = ep_next p + 1;
             next = (if next \<ge> ep_loop_num p then 0 else next)
         in Inr (loop, p\<lparr>ep_next := next\<rparr>)
       else Inl OutOfBounds
     else Inr (0, p))"

section \<open>The acceptor\<close>

text \<open>What the listening socket does with a connection: hand it to the callback or close it; when the process has no
  descriptors left, the dummy descriptor is given up to accept and close it.\<close>

record acceptor =
  ac_listening :: bool
  ac_callback :: bool
  ac_dummyfd :: int

datatype accept_result = Accepted int | NotAccepted bool

datatype accept_action = Dispatch int | CloseFd int

definition Acceptor :: "bool \<Rightarrow> int \<Rightarrow> acceptor" where
  "Acceptor cb dummy = \<lparr>ac_listening = False, ac_callback = cb, ac_dummyfd = dummy\<rparr>"

definition Listen :: "acceptor \<Rightarrow> acceptor res" where
  "Listen a = rbind (assertR (\<not> ac_listening a)) (\<lambda>_. Inr (a\<lparr>ac_listening := True\<rparr>))"

text \<open>\<open>NotAccepted emfile\<close> tells whether \<open>errno\<close> was \<open>EMFILE\<close>; \<open>fd\<close> is what the second \<open>accept\<close> returns and \<open>dummy\<close> the new
  dummy descriptor.\<close>

definition accept_read :: "accept_result \<Rightarrow> int \<Rightarrow> int \<Rightarrow> acceptor \<Rightarrow> accept_action list \<times> acceptor" where
  "accept_read r fd dummy a =
     (case r of
        Accepted cli_fd \<Rightarrow> (if ac_callback a then [Dispatch cli_fd] else [CloseFd cli_fd], a)
      | NotAccepted emfile \<Rightarrow>
          if emfile then ([CloseFd (ac_dummyfd a), CloseFd fd], a\<lparr>ac_dummyfd := dummy\<rparr>) else ([], a))"

section \<open>The server\<close>

text \<open>Connections are numbered in the order they are accepted. The name of a connection is determined by the counter at that
  time. The events of a connection are recorded when they happen; the functors wait in the queue of the loop.\<close>

datatype conn_event = Established nat | Closed nat | Destroyed nat

record server =
  sv_pool :: loop_pool
  sv_acceptor :: acceptor
  sv_start_once :: bool
  sv_next_conn_id :: "32 word"
  sv_connections :: "32 word \<rightharpoonup> nat"
  sv_count :: nat
  sv_name :: "nat \<Rightarrow> 32 word"
  sv_loop :: "nat \<Rightarrow> nat"
  sv_enable_pool :: bool
  sv_pooled :: "nat \<Rightarrow> bool"
  sv_conn_pool :: bool
  sv_alive :: bool
  sv_queue :: "nat \<Rightarrow> conn_event list"
  sv_log :: "conn_event list"

definition TcpServer :: "int \<Rightarrow> server" where
  "TcpServer n =
     \<lparr>sv_pool = SetLoopNum n EventLoopPool, sv_acceptor = Acceptor True 5, sv_start_once = False, sv_next_conn_id = 1,
      sv_connections = Map.empty, sv_count = 0, sv_name = (\<lambda>_. 0), sv_loop = (\<lambda>_. 0), sv_enable_pool = False,
      sv_pooled = (\<lambda>_. False), sv_conn_pool = True, sv_alive = True, sv_queue = (\<lambda>_. []), sv_log = []\<rparr>"

text \<open>\<open>RunInLoop\<close> by the thread of the server's own loop: a functor for another loop is queued there.\<close>

definition run_in_loop :: "nat \<Rightarrow> conn_event \<Rightarrow> server \<Rightarrow> server" where
  "run_in_loop l f s =
     (if l = 0 then s\<lparr>sv_log := sv_log s @ [f]\<rparr> else s\<lparr>sv_queue := (sv_queue s)(l := sv_queue s l @ [f])\<rparr>)"

text \<open>The functor of \<open>StartRun\<close>, and \<open>StartRun\<close>: whether it queues the functor.\<close>

definition start_functor :: "server \<Rightarrow> server res" where
  "start_functor s =
     rbind (pool_StartRun (sv_pool s)) (\<lambda>p.
     rbind (Listen (sv_acceptor s)) (\<lambda>a.
     Inr (s\<lparr>sv_pool := p, sv_acceptor := a, sv_start_once := True\<rparr>)))"

definition server_StartRun :: "server \<Rightarrow> bool" where
  "server_StartRun s = (\<not> sv_start_once s)"

definition EnablePool :: "bool \<Rightarrow> server \<Rightarrow> server" where
  "EnablePool on s = s\<lparr>sv_enable_pool := on\<rparr>"

text \<open>The new connection callback.\<close>

definition new_connection :: "server \<Rightarrow> server res" where
  "new_connection s =
     (let name = sv_next_conn_id s; c = sv_count s; s = s\<lparr>sv_next_conn_id := sv_next_conn_id s + 1\<rparr> in
      rbind (GetNextLoop (sv_pool s)) (\<lambda>(io_loop, p).
      let s = s\<lparr>sv_pool := p, sv_count := c + 1, sv_name := (sv_name s)(c := name), sv_loop := (sv_loop s)(c := io_loop),
            sv_pooled := (sv_pooled s)(c := sv_enable_pool s), sv_connections := (sv_connections s)(name \<mapsto> c)\<rparr>
      in Inr (run_in_loop io_loop (Established c) s)))"

text \<open>The close callback of a connection, called in its loop. It runs on the server object.\<close>

definition close_callback :: "nat \<Rightarrow> server \<Rightarrow> server res" where
  "close_callback c s =
     (if \<not> sv_alive s then Inl UseAfterFree
      else
        let name = sv_name s c;
            n = (if sv_connections s name = None then 0 else 1 :: nat);
            s = s\<lparr>sv_connections := (sv_connections s)(name := None)\<rparr>
        in rbind (assertR (n = 1)) (\<lambda>_.
           Inr (s\<lparr>sv_log := sv_log s @ [Closed c],
             sv_queue := (sv_queue s)(sv_loop s c := sv_queue s (sv_loop s c) @ [Destroyed c])\<rparr>)))"

text \<open>A loop runs its functors; one on a connection whose memory has been returned with the pool reads freed memory.\<close>

fun conn_of :: "conn_event \<Rightarrow> nat" where
  "conn_of (Established c) = c"
| "conn_of (Closed c) = c"
| "conn_of (Destroyed c) = c"

definition run_queue :: "nat \<Rightarrow> server \<Rightarrow> server res" where
  "run_queue l s =
     (if \<not> sv_conn_pool s \<and> (\<exists>f \<in> set (sv_queue s l). sv_pooled s (conn_of f)) then Inl UseAfterFree
      else Inr (s\<lparr>sv_log := sv_log s @ sv_queue s l, sv_queue := (sv_queue s)(l := [])\<rparr>))"

text \<open>The destructor: its body destroys the connections of the table, in some order \<open>cs\<close>, then the members are destroyed in
  the reverse order of their declaration in \<^verbatim>\<open>tcp_server.h\<close>, the memory pool first and the pool of loops, which waits for its
  threads, later.\<close>

definition server_dtor :: "nat list \<Rightarrow> server \<Rightarrow> server res" where
  "server_dtor cs s =
     (let s = fold (\<lambda>c. run_in_loop (sv_loop s c) (Destroyed c)) cs s;
          s = s\<lparr>sv_alive := False, sv_conn_pool := False\<rparr>
      in rbind (assertR (ep_started (sv_pool s))) (\<lambda>_. Inr s))"


section \<open>Round robin\<close>

text \<open>The pool after it has been started and after \<open>k\<close> calls of \<open>GetNextLoop\<close>.\<close>

definition pool_at :: "nat \<Rightarrow> nat \<Rightarrow> loop_pool \<Rightarrow> bool" where
  "pool_at n k p \<longleftrightarrow> ep_started p \<and> ep_loop_num p = int n \<and> ep_loop_threads p = map Suc [0..<n] \<and>
     ep_next p = (if n = 0 then 0 else int (k mod n))"

definition loop_for :: "nat \<Rightarrow> nat \<Rightarrow> nat" where
  "loop_for n k = (if n = 0 then 0 else Suc (k mod n))"

lemma pool_StartRun_at: "pool_StartRun (SetLoopNum (int n) EventLoopPool) = Inr p \<Longrightarrow> pool_at n 0 p"
  by (auto simp: pool_StartRun_def SetLoopNum_def EventLoopPool_def pool_at_def)

lemma GetNextLoop_at:
  assumes "pool_at n k p"
  shows "\<exists>p'. GetNextLoop p = Inr (loop_for n k, p') \<and> pool_at n (Suc k) p'"
proof (cases "n = 0")
  case True
  with assms show ?thesis by (auto simp: GetNextLoop_def pool_at_def loop_for_def)
next
  case False
  define m where "m = k mod n"
  have m: "m < n" "k mod n = m" using False by (simp_all add: m_def)
  have "Suc k mod n = (if Suc m = n then 0 else Suc m)" unfolding m_def by (rule mod_Suc)
  then show ?thesis
    using assms False m by (auto simp: GetNextLoop_def pool_at_def loop_for_def Let_def)
qed

text \<open>A number of loops that is changed after the start makes the index run out of the vector.\<close>

lemma SetLoopNum_after_start:
  assumes "pool_at 1 0 p"
  shows "\<exists>p'. GetNextLoop (SetLoopNum 2 p) = Inr (1, p') \<and> GetNextLoop p' = Inl OutOfBounds"
  using assms by (simp add: pool_at_def GetNextLoop_def SetLoopNum_def Let_def)

section \<open>The life of a connection\<close>

text \<open>The events of a connection: those that happened, followed by those queued for its loop.\<close>

definition conn_history :: "nat \<Rightarrow> server \<Rightarrow> conn_event list" where
  "conn_history c s = filter (\<lambda>f. conn_of f = c) (sv_log s @ sv_queue s (sv_loop s c))"

text \<open>The parts of the invariant: the pool, the events recorded and queued, the connections and the table of the open ones.\<close>

definition pool_part :: "nat \<Rightarrow> server \<Rightarrow> bool" where
  "pool_part n s \<longleftrightarrow> sv_alive s \<and> sv_conn_pool s \<and> sv_next_conn_id s = of_nat (sv_count s + 1) \<and>
     (if ac_listening (sv_acceptor s) then pool_at n (sv_count s) (sv_pool s)
      else sv_pool s = SetLoopNum (int n) EventLoopPool \<and> sv_count s = 0)"

definition event_part :: "server \<Rightarrow> bool" where
  "event_part s \<longleftrightarrow> (\<forall>f \<in> set (sv_log s). conn_of f < sv_count s) \<and>
     (\<forall>l. \<forall>f \<in> set (sv_queue s l). conn_of f < sv_count s \<and> sv_loop s (conn_of f) = l \<and> (\<forall>c. f \<noteq> Closed c))"

definition conn_part :: "nat \<Rightarrow> server \<Rightarrow> bool" where
  "conn_part n s \<longleftrightarrow> (\<forall>c < sv_count s. sv_name s c = of_nat (c + 1) \<and> sv_loop s c = loop_for n c)"

definition history_part :: "server \<Rightarrow> bool" where
  "history_part s \<longleftrightarrow> (\<forall>c < sv_count s. conn_history c s =
     (if Closed c \<in> set (sv_log s) then [Established c, Closed c, Destroyed c] else [Established c]))"

definition table_part :: "server \<Rightarrow> bool" where
  "table_part s \<longleftrightarrow> (\<forall>name c. sv_connections s name = Some c \<longleftrightarrow>
     c < sv_count s \<and> name = of_nat (c + 1) \<and> Closed c \<notin> set (sv_log s))"

definition sv_inv :: "nat \<Rightarrow> server \<Rightarrow> bool" where
  "sv_inv n s \<longleftrightarrow> pool_part n s \<and> event_part s \<and> conn_part n s \<and> history_part s \<and> table_part s"

lemma unat_name: "c < 2 ^ 32 - 1 \<Longrightarrow> unat (of_nat (c + 1) :: 32 word) = c + 1"
  unfolding unat_of_nat by simp

lemma name_inj:
  assumes "c < 2 ^ 32 - 1" "d < 2 ^ 32 - 1" "(of_nat (c + 1) :: 32 word) = of_nat (d + 1)"
  shows "c = d"
proof -
  have "c + 1 = d + 1" using arg_cong [OF assms(3), of unat] by (simp only: unat_name [OF assms(1)] unat_name [OF assms(2)])
  then show ?thesis by simp
qed

text \<open>A new connection.\<close>

lemma run_in_loop_simps [simp]:
  "sv_pool (run_in_loop l f s) = sv_pool s" "sv_acceptor (run_in_loop l f s) = sv_acceptor s"
  "sv_next_conn_id (run_in_loop l f s) = sv_next_conn_id s" "sv_connections (run_in_loop l f s) = sv_connections s"
  "sv_count (run_in_loop l f s) = sv_count s" "sv_name (run_in_loop l f s) = sv_name s" "sv_loop (run_in_loop l f s) = sv_loop s"
  "sv_alive (run_in_loop l f s) = sv_alive s" "sv_conn_pool (run_in_loop l f s) = sv_conn_pool s"
  "sv_pooled (run_in_loop l f s) = sv_pooled s"
  by (simp_all add: run_in_loop_def)

lemma new_connection_eq:
  assumes "pool_part n s" "ac_listening (sv_acceptor s)"
  shows "\<exists>p. new_connection s = Inr (run_in_loop (loop_for n (sv_count s)) (Established (sv_count s))
      (s\<lparr>sv_next_conn_id := sv_next_conn_id s + 1, sv_pool := p, sv_count := sv_count s + 1,
         sv_name := (sv_name s)(sv_count s := sv_next_conn_id s), sv_loop := (sv_loop s)(sv_count s := loop_for n (sv_count s)),
         sv_pooled := (sv_pooled s)(sv_count s := sv_enable_pool s),
         sv_connections := (sv_connections s)(sv_next_conn_id s \<mapsto> sv_count s)\<rparr>)) \<and> pool_at n (sv_count s + 1) p"
proof -
  have "pool_at n (sv_count s) (sv_pool s)" using assms by (simp add: pool_part_def)
  from GetNextLoop_at [OF this] show ?thesis by (auto simp: new_connection_def Let_def)
qed

lemma new_connection_inv:
  assumes inv: "sv_inv n s" and li: "ac_listening (sv_acceptor s)" and c: "sv_count s < 2 ^ 32 - 1"
    and r: "new_connection s = Inr s'"
  shows "sv_inv n s'"
proof -
  from inv have parts: "pool_part n s" "event_part s" "conn_part n s" "history_part s" "table_part s" by (simp_all add: sv_inv_def)
  let ?c = "sv_count s"
  from new_connection_eq [OF parts(1) li] r obtain p where p: "pool_at n (?c + 1) p" and
    s': "s' = run_in_loop (loop_for n ?c) (Established ?c)
      (s\<lparr>sv_next_conn_id := sv_next_conn_id s + 1, sv_pool := p, sv_count := ?c + 1,
         sv_name := (sv_name s)(?c := sv_next_conn_id s), sv_loop := (sv_loop s)(?c := loop_for n ?c),
         sv_pooled := (sv_pooled s)(?c := sv_enable_pool s), sv_connections := (sv_connections s)(sv_next_conn_id s \<mapsto> ?c)\<rparr>)"
    by auto
  have id: "sv_next_conn_id s = of_nat (?c + 1)" using parts(1) by (simp add: pool_part_def)
  have lt: "conn_of f < ?c" if "f \<in> set (sv_log s) \<or> f \<in> set (sv_queue s l)" for f l
    using parts(2) that by (auto simp: event_part_def)
  have none: "filter (\<lambda>f. conn_of f = ?c) (sv_log s) = []" "filter (\<lambda>f. conn_of f = ?c) (sv_queue s l) = []" for l
    using lt by (force simp: filter_empty_conv)+
  have log: "Closed d \<in> set (sv_log s') \<longleftrightarrow> Closed d \<in> set (sv_log s)" for d by (simp add: s' run_in_loop_def)
  have fresh: "Closed ?c \<notin> set (sv_log s)" using lt [of "Closed ?c"] by auto
  have "pool_part n s'" using parts(1) li p by (simp add: pool_part_def s')
  moreover have "event_part s'"
    using parts(2) by (fastforce simp: event_part_def s' run_in_loop_def)
  moreover have "conn_part n s'" using parts(3) id by (simp add: conn_part_def s' less_Suc_eq)
  moreover have "history_part s'"
  proof -
    have "conn_history ?c s' = [Established ?c]" by (simp add: conn_history_def s' run_in_loop_def none)
    moreover have "conn_history d s' = conn_history d s" if "d < ?c" for d
      using that by (simp add: conn_history_def s' run_in_loop_def)
    moreover have "sv_count s' = Suc ?c" by (simp add: s')
    ultimately show ?thesis using parts(4) fresh by (simp add: history_part_def less_Suc_eq log)
  qed
  moreover have "table_part s'"
    unfolding table_part_def
  proof (intro allI)
    fix name d
    have conns: "sv_connections s' name = (if name = of_nat (?c + 1) then Some ?c else sv_connections s name)"
      by (simp add: s' id)
    have "d = ?c" if "d < ?c + 1" "of_nat (?c + 1) = (of_nat (d + 1) :: 32 word)"
      using name_inj [of ?c d] that c by simp
    then show "sv_connections s' name = Some d \<longleftrightarrow>
        d < sv_count s' \<and> name = of_nat (d + 1) \<and> Closed d \<notin> set (sv_log s')"
      using parts(5) fresh unfolding conns log table_part_def
      by (cases "name = of_nat (?c + 1)") (auto simp: s' less_Suc_eq)
  qed
  ultimately show ?thesis by (simp add: sv_inv_def)
qed

text \<open>A closed connection.\<close>

lemma conn_history_open:
  assumes "sv_inv n s" "Established c \<in> set (sv_log s)" "Closed c \<notin> set (sv_log s)"
  shows "c < sv_count s" "filter (\<lambda>f. conn_of f = c) (sv_log s) = [Established c]"
    "filter (\<lambda>f. conn_of f = c) (sv_queue s (sv_loop s c)) = []"
proof -
  show lt: "c < sv_count s" using assms(1,2) by (force simp: sv_inv_def event_part_def)
  then have "conn_history c s = [Established c]" using assms(1,3) by (simp add: sv_inv_def history_part_def)
  moreover have "Established c \<in> set (filter (\<lambda>f. conn_of f = c) (sv_log s))" using assms(2) by simp
  ultimately show "filter (\<lambda>f. conn_of f = c) (sv_log s) = [Established c]"
    "filter (\<lambda>f. conn_of f = c) (sv_queue s (sv_loop s c)) = []"
    unfolding conn_history_def by (cases "filter (\<lambda>f. conn_of f = c) (sv_log s)"; simp)+
qed

lemma close_callback_inv:
  assumes inv: "sv_inv n s" and c: "Established c \<in> set (sv_log s)" "Closed c \<notin> set (sv_log s)" and b: "sv_count s < 2 ^ 32"
  shows "\<exists>s'. close_callback c s = Inr s' \<and> sv_inv n s'"
proof -
  from inv have parts: "pool_part n s" "event_part s" "conn_part n s" "history_part s" "table_part s" by (simp_all add: sv_inv_def)
  note h = conn_history_open [OF inv c]
  let ?l = "sv_loop s c"
  let ?s = "s\<lparr>sv_connections := (sv_connections s)(of_nat (c + 1) := None), sv_log := sv_log s @ [Closed c],
    sv_queue := (sv_queue s)(?l := sv_queue s ?l @ [Destroyed c])\<rparr>"
  have nm: "sv_name s c = of_nat (c + 1)" using parts(3) h(1) by (simp add: conn_part_def)
  have "sv_connections s (of_nat (c + 1)) = Some c" using parts(5) h(1) c(2) by (simp add: table_part_def)
  then have r: "close_callback c s = Inr ?s"
    using parts(1) by (simp add: close_callback_def pool_part_def nm)
  have "pool_part n ?s" using parts(1) by (simp add: pool_part_def)
  moreover have "event_part ?s" using parts(2) h(1) by (auto simp: event_part_def)
  moreover have "conn_part n ?s" using parts(3) by (simp add: conn_part_def)
  moreover have "history_part ?s"
    unfolding history_part_def
  proof (intro allI impI)
    fix d
    assume d: "d < sv_count ?s"
    show "conn_history d ?s = (if Closed d \<in> set (sv_log ?s) then [Established d, Closed d, Destroyed d] else [Established d])"
    proof (cases "d = c")
      case True
      then show ?thesis by (simp add: conn_history_def h(2,3))
    next
      case False
      then have "conn_history d ?s = conn_history d s" by (simp add: conn_history_def)
      with False d parts(4) show ?thesis by (simp add: history_part_def)
    qed
  qed
  moreover have "table_part ?s"
    unfolding table_part_def
  proof (intro allI)
    fix name d
    have "d = c" if "d < sv_count s" "of_nat (c + 1) = (of_nat (d + 1) :: 32 word)"
      using name_inj [of c d] that h(1) b by simp
    then show "sv_connections ?s name = Some d \<longleftrightarrow> d < sv_count ?s \<and> name = of_nat (d + 1) \<and> Closed d \<notin> set (sv_log ?s)"
      using parts(5) unfolding table_part_def by auto
  qed
  ultimately show ?thesis using r by (simp add: sv_inv_def)
qed

text \<open>A loop running its functors.\<close>

lemma run_queue_inv:
  assumes inv: "sv_inv n s"
  shows "\<exists>s'. run_queue l s = Inr s' \<and> sv_inv n s'"
proof -
  from inv have parts: "pool_part n s" "event_part s" "conn_part n s" "history_part s" "table_part s" by (simp_all add: sv_inv_def)
  let ?s = "s\<lparr>sv_log := sv_log s @ sv_queue s l, sv_queue := (sv_queue s)(l := [])\<rparr>"
  have r: "run_queue l s = Inr ?s" using parts(1) by (simp add: run_queue_def pool_part_def)
  have nc: "Closed c \<notin> set (sv_queue s l)" for c using parts(2) by (auto simp: event_part_def)
  have "pool_part n ?s" using parts(1) by (simp add: pool_part_def)
  moreover have "event_part ?s" using parts(2) by (auto simp: event_part_def)
  moreover have "conn_part n ?s" using parts(3) by (simp add: conn_part_def)
  moreover have "table_part ?s" using parts(5) nc by (simp add: table_part_def)
  moreover have "conn_history c ?s = conn_history c s" for c
  proof (cases "sv_loop s c = l")
    case False
    then have "filter (\<lambda>f. conn_of f = c) (sv_queue s l) = []" using parts(2) by (auto simp: event_part_def filter_empty_conv)
    then show ?thesis using False by (simp add: conn_history_def)
  qed (simp add: conn_history_def)
  then have "history_part ?s" using parts(4) nc by (simp add: history_part_def)
  ultimately show ?thesis using r by (simp add: sv_inv_def)
qed

lemma start_functor_inv:
  assumes inv: "sv_inv n s" and r: "start_functor s = Inr s'"
  shows "sv_inv n s'"
proof -
  from r obtain p where p: "pool_StartRun (sv_pool s) = Inr p" "\<not> ac_listening (sv_acceptor s)"
    "s' = s\<lparr>sv_pool := p, sv_acceptor := (sv_acceptor s)\<lparr>ac_listening := True\<rparr>, sv_start_once := True\<rparr>"
    by (auto simp: start_functor_def Listen_def)
  with inv have "sv_pool s = SetLoopNum (int n) EventLoopPool" "sv_count s = 0" by (auto simp: sv_inv_def pool_part_def)
  with inv p pool_StartRun_at [of n p] show ?thesis
    by (simp add: sv_inv_def pool_part_def event_part_def conn_part_def history_part_def table_part_def)
qed

lemma EnablePool_parts:
  "pool_part n (EnablePool on s) = pool_part n s" "event_part (EnablePool on s) = event_part s"
  "conn_part n (EnablePool on s) = conn_part n s" "history_part (EnablePool on s) = history_part s"
  "table_part (EnablePool on s) = table_part s"
proof -
  show "pool_part n (EnablePool on s) = pool_part n s" by (simp add: pool_part_def EnablePool_def)
  show "event_part (EnablePool on s) = event_part s" by (simp add: event_part_def EnablePool_def)
  show "conn_part n (EnablePool on s) = conn_part n s" by (simp add: conn_part_def EnablePool_def)
  have "conn_history c (EnablePool on s) = conn_history c s" for c by (simp add: conn_history_def EnablePool_def)
  then show "history_part (EnablePool on s) = history_part s" by (simp add: history_part_def) (simp add: EnablePool_def)
  show "table_part (EnablePool on s) = table_part s" by (simp add: table_part_def EnablePool_def)
qed

section \<open>The server and its connections\<close>

text \<open>The connections of a server, all with the callbacks of \<open>E\<close>. When a connection goes down, in \<open>HandleClose\<close>, it calls the close
  callback of the server.\<close>

type_synonym server_sys = "server \<times> (nat \<Rightarrow> connection)"

definition went_down :: "nat \<Rightarrow> connection \<Rightarrow> server_sys \<Rightarrow> server_sys res" where
  "went_down c k x =
     (case x of (s, K) \<Rightarrow>
        if cn_state (K c) \<noteq> kDisconnected \<and> cn_state k = kDisconnected
        then rbind (close_callback c s) (\<lambda>s. Inr (s, K(c := k)))
        else Inr (s, K(c := k)))"

text \<open>The functors the server gives to a loop: calls on a connection.\<close>

fun exec :: "conn_env \<Rightarrow> conn_event \<Rightarrow> server_sys \<Rightarrow> server_sys res" where
  "exec E (Established c) x = rbind (ConnectionEstablished E (snd x c)) (\<lambda>k. went_down c k x)"
| "exec E (Destroyed c) x = rbind (ConnectionDestroyed E (snd x c)) (\<lambda>k. went_down c k x)"
| "exec E (Closed c) x = Inr x"

fun exec_all :: "conn_env \<Rightarrow> conn_event list \<Rightarrow> server_sys \<Rightarrow> server_sys res" where
  "exec_all E [] x = Inr x"
| "exec_all E (f # fs) x = rbind (exec E f x) (exec_all E fs)"

text \<open>Everything that can happen to a server before it is destroyed, in any order: it is started in the thread of its loop, a
  connection is accepted, a connection makes a step of its own, a loop runs what was queued for it, the memory pool is
  switched on or off. The result of a step may be an error. A functor that is run at once is executed when it has been recorded.\<close>

inductive sv_step :: "conn_env \<Rightarrow> server_sys \<Rightarrow> server_sys res \<Rightarrow> bool" for E where
  start: "server_StartRun s \<Longrightarrow> sv_step E (s, K) (rbind (start_functor s) (\<lambda>s. Inr (s, K)))"
| conn: "ac_listening (sv_acceptor s) \<Longrightarrow>
    sv_step E (s, K) (rbind (new_connection s) (\<lambda>s'.
      exec_all E (drop (length (sv_log s)) (sv_log s')) (s', K(sv_count s := ConnectionBase fd b))))"
| act: "c < sv_count s \<Longrightarrow> act_step E (K c) k \<Longrightarrow> sv_step E (s, K) (went_down c k (s, K))"
| run: "sv_step E (s, K) (rbind (run_queue l s) (\<lambda>s'. exec_all E (sv_queue s l) (s', K)))"
| pool: "sv_step E (s, K) (Inr (EnablePool on s, K))"

abbreviation sv_reach :: "conn_env \<Rightarrow> nat \<Rightarrow> server_sys \<Rightarrow> bool" where
  "sv_reach E n x \<equiv> \<exists>K. (\<lambda>x y. sv_step E x (Inr y))\<^sup>*\<^sup>* (TcpServer (int n), K) x"

text \<open>The callbacks use the interface of their connection, and the connection callback returns. The close callback is the one of
  the server, which leaves the connection alone; its effect on the server is in \<open>went_down\<close>.\<close>

definition server_env :: "conn_env \<Rightarrow> bool" where
  "server_env E \<longleftrightarrow> iface_env E \<and> ce_close E = Some Inr \<and> (\<exists>f. ce_connection E = Some f \<and> (\<forall>k. \<exists>k'. f k = Inr k'))"

text \<open>The connections agree with the events, of which those in \<open>fs\<close> have been recorded but not yet executed.\<close>

definition conns_part :: "conn_event list \<Rightarrow> server_sys \<Rightarrow> bool" where
  "conns_part fs x \<longleftrightarrow> (case x of (s, K) \<Rightarrow>
     set fs \<subseteq> set (sv_log s) \<and> distinct fs \<and> (\<forall>c. Closed c \<notin> set fs) \<and>
     (\<forall>c. Destroyed c \<in> set fs \<longrightarrow> Closed c \<in> set (sv_log s)) \<and>
     (\<forall>c < sv_count s. conn_inv (K c) \<and>
        (cn_state (K c) = kConnecting \<longleftrightarrow> Established c \<in> set fs \<or> Established c \<in> set (sv_queue s (sv_loop s c))) \<and>
        (cn_state (K c) = kDisconnected \<longleftrightarrow> Closed c \<in> set (sv_log s))))"

definition sys_inv :: "nat \<Rightarrow> conn_event list \<Rightarrow> server_sys \<Rightarrow> bool" where
  "sys_inv n fs x \<longleftrightarrow> sv_inv n (fst x) \<and> sv_count (fst x) < 2 ^ 32 \<and>
     sv_start_once (fst x) = ac_listening (sv_acceptor (fst x)) \<and> conns_part fs x"

lemma close_callback_fields:
  assumes "close_callback c s = Inr s'"
  shows "sv_count s' = sv_count s" "sv_log s' = sv_log s @ [Closed c]" "sv_loop s' = sv_loop s"
    "sv_queue s' = (sv_queue s)(sv_loop s c := sv_queue s (sv_loop s c) @ [Destroyed c])"
    "sv_start_once s' = sv_start_once s" "sv_acceptor s' = sv_acceptor s"
  using assms by (auto simp: close_callback_def Let_def split: if_splits)

text \<open>Establishment and destruction do not fail.\<close>

lemma ConnectionEstablished_total:
  assumes "server_env E" "conn_inv k" "cn_state k = kConnecting"
  shows "\<exists>k'. ConnectionEstablished E k = Inr k' \<and> conn_inv k' \<and> cn_state k' \<noteq> kConnecting"
proof -
  let ?k = "on_channel ch_EnableReading (k\<lparr>cn_state := kConnected\<rparr>)"
  obtain f where f: "ce_connection E = Some f" "\<And>k. \<exists>k'. f k = Inr k'" and E: "iface_env E" using assms(1) by (auto simp: server_env_def)
  obtain k' where k': "f ?k = Inr k'" using f(2) by blast
  then have r: "ConnectionEstablished E k = Inr k'" using assms(3) f(1) by (simp add: ConnectionEstablished_def call_cb_def)
  have "conn_inv ?k" using assms(2,3) by (auto simp: conn_inv_def on_channel_def)
  moreover have "(user_step E)\<^sup>*\<^sup>* ?k k'" using E f(1) k' by (auto simp: iface_env_def dest: iface_cbD)
  ultimately have "conn_le ?k k'" using user_steps_le E by blast
  then have "conn_inv k'" "cn_state k' \<noteq> kConnecting" by (auto simp: conn_le_def)
  with r show ?thesis by blast
qed

lemma ConnectionDestroyed_total:
  assumes "conn_inv k" "cn_state k = kDisconnected"
  shows "\<exists>k'. ConnectionDestroyed E k = Inr k' \<and> conn_inv k' \<and> cn_state k' = kDisconnected"
  using assms by (simp add: ConnectionDestroyed_def conn_inv_def)

text \<open>Executing the first pending functor.\<close>

lemma conns_partD:
  assumes "conns_part fs (s, K)" "c < sv_count s"
  shows "conn_inv (K c)" "cn_state (K c) = kConnecting \<longleftrightarrow> Established c \<in> set fs \<or> Established c \<in> set (sv_queue s (sv_loop s c))"
    "cn_state (K c) = kDisconnected \<longleftrightarrow> Closed c \<in> set (sv_log s)"
  using assms by (auto simp: conns_part_def)

lemma established_recorded:
  assumes "sv_inv n s" "c < sv_count s" "Established c \<notin> set (sv_queue s (sv_loop s c))"
  shows "Established c \<in> set (sv_log s)"
proof -
  have "Established c \<in> set (conn_history c s)" using assms(1,2) by (auto simp: sv_inv_def history_part_def)
  then show ?thesis using assms(3) by (auto simp: conn_history_def)
qed

text \<open>A connection that is up or becomes so, or goes down.\<close>

lemma went_down_inv:
  assumes inv: "sys_inv n fs (s, K)" and c: "c < sv_count s" "Established c \<notin> set (sv_queue s (sv_loop s c))"
    and k: "conn_inv k" "cn_state k \<noteq> kConnecting" "cn_state (K c) = kDisconnected \<longrightarrow> cn_state k = kDisconnected"
    and gs: "set gs \<subseteq> set fs" "distinct gs" "Established c \<notin> set gs"
      "\<And>d. d \<noteq> c \<Longrightarrow> Established d \<in> set gs \<longleftrightarrow> Established d \<in> set fs"
  shows "\<exists>x. went_down c k (s, K) = Inr x \<and> sys_inv n gs x"
proof -
  have sv: "sv_inv n s" "sv_count s < 2 ^ 32" "sv_start_once s = ac_listening (sv_acceptor s)" and cp: "conns_part fs (s, K)"
    using inv by (simp_all add: sys_inv_def)
  note P = cp [unfolded conns_part_def, simplified]
  show ?thesis
  proof (cases "cn_state (K c) \<noteq> kDisconnected \<and> cn_state k = kDisconnected")
    case True
    then have nc: "Closed c \<notin> set (sv_log s)" using conns_partD(3) [OF cp c(1)] by simp
    from close_callback_inv [OF sv(1) established_recorded [OF sv(1) c] nc sv(2)]
    obtain s' where s': "close_callback c s = Inr s'" "sv_inv n s'" by blast
    note F = close_callback_fields [OF s'(1)]
    have "conns_part gs (s', K(c := k))"
      using P k gs True c(2) unfolding conns_part_def by (auto simp: F)
    then show ?thesis using True s' sv(2,3) by (simp add: went_down_def sys_inv_def F(1,5,6))
  next
    case False
    then have "cn_state k = kDisconnected \<longleftrightarrow> cn_state (K c) = kDisconnected" using k(3) by blast
    then have "conns_part gs (s, K(c := k))"
      using P k gs c unfolding conns_part_def by auto
    then show ?thesis using False sv by (auto simp: went_down_def sys_inv_def)
  qed
qed

lemma exec_inv:
  assumes E: "server_env E" and inv: "sys_inv n (f # fs) (s, K)"
  shows "\<exists>x. exec E f (s, K) = Inr x \<and> sys_inv n fs x"
proof -
  have sv: "sv_inv n s" and cp: "conns_part (f # fs) (s, K)" using inv by (simp_all add: sys_inv_def)
  have lg: "f \<in> set (sv_log s)" "f \<notin> set fs" "distinct fs" "\<And>c. f \<noteq> Closed c" using cp by (auto simp: conns_part_def)
  have lt: "conn_of f < sv_count s" using sv lg(1) by (auto simp: sv_inv_def event_part_def)
  have nq: "f \<notin> set (sv_queue s (sv_loop s (conn_of f)))"
  proof
    assume "f \<in> set (sv_queue s (sv_loop s (conn_of f)))"
    then have "\<not> distinct (conn_history (conn_of f) s)" using lg(1) by (auto simp: conn_history_def)
    then show False using sv lt by (auto simp: sv_inv_def history_part_def split: if_splits)
  qed
  show ?thesis
  proof (cases f)
    case (Established c)
    have c: "c < sv_count s" "Established c \<notin> set (sv_queue s (sv_loop s c))" using lt nq by (simp_all add: Established)
    have st: "cn_state (K c) = kConnecting" using conns_partD(2) [OF cp c(1)] by (simp add: Established)
    from ConnectionEstablished_total [OF E conns_partD(1) [OF cp c(1)] st] obtain k where
      k: "ConnectionEstablished E (K c) = Inr k" "conn_inv k" "cn_state k \<noteq> kConnecting" by blast
    have "\<exists>x. went_down c k (s, K) = Inr x \<and> sys_inv n fs x"
      by (rule went_down_inv [OF inv c k(2,3)]) (use st lg(2,3) in \<open>auto simp: Established\<close>)
    then show ?thesis using k(1) by (simp add: Established)
  next
    case (Destroyed c)
    have c: "c < sv_count s" using lt by (simp add: Destroyed)
    have "Closed c \<in> set (sv_log s)" using cp by (auto simp: conns_part_def Destroyed)
    then have st: "cn_state (K c) = kDisconnected" using conns_partD(3) [OF cp c] by simp
    then have ne: "Established c \<notin> set fs" "Established c \<notin> set (sv_queue s (sv_loop s c))" using conns_partD(2) [OF cp c] by auto
    from ConnectionDestroyed_total [OF conns_partD(1) [OF cp c] st, of E] obtain k where
      k: "ConnectionDestroyed E (K c) = Inr k" "conn_inv k" "cn_state k = kDisconnected" by blast
    have "\<exists>x. went_down c k (s, K) = Inr x \<and> sys_inv n fs x"
      by (rule went_down_inv [OF inv c ne(2) k(2)]) (use k(3) ne(1) lg(3) in \<open>auto simp: Destroyed\<close>)
    then show ?thesis using k(1) by (simp add: Destroyed)
  qed (use lg(4) in simp)
qed

lemma exec_all_inv:
  assumes "server_env E"
  shows "sys_inv n fs x \<Longrightarrow> \<exists>y. exec_all E fs x = Inr y \<and> sys_inv n [] y"
proof (induction fs arbitrary: x)
  case (Cons f fs)
  obtain s K where x: "x = (s, K)" by fastforce
  from exec_inv [OF assms Cons.prems [unfolded x]] Cons.IH show ?case by (auto simp: x)
qed simp

text \<open>The steps.\<close>

lemma new_connection_fields:
  assumes "pool_part n s" "ac_listening (sv_acceptor s)"
  shows "\<exists>s'. new_connection s = Inr s' \<and>
    sv_log s' = sv_log s @ (if loop_for n (sv_count s) = 0 then [Established (sv_count s)] else []) \<and>
    sv_queue s' = (if loop_for n (sv_count s) = 0 then sv_queue s
      else (sv_queue s)(loop_for n (sv_count s) := sv_queue s (loop_for n (sv_count s)) @ [Established (sv_count s)])) \<and>
    sv_count s' = Suc (sv_count s) \<and> sv_loop s' = (sv_loop s)(sv_count s := loop_for n (sv_count s)) \<and>
    sv_start_once s' = sv_start_once s \<and> sv_acceptor s' = sv_acceptor s"
  using new_connection_eq [OF assms] by (auto simp: run_in_loop_def)

lemma conn_step_inv:
  assumes E: "server_env E" and inv: "sys_inv n [] (s, K)" and li: "ac_listening (sv_acceptor s)" and c: "sv_count s < 2 ^ 32 - 1"
  shows "\<exists>y. rbind (new_connection s) (\<lambda>s'.
      exec_all E (drop (length (sv_log s)) (sv_log s')) (s', K(sv_count s := ConnectionBase fd b))) = Inr y \<and> sys_inv n [] y"
proof -
  let ?c = "sv_count s"
  have sv: "sv_inv n s" and cp: "conns_part [] (s, K)" using inv by (simp_all add: sys_inv_def)
  have ev: "event_part s" using sv by (simp add: sv_inv_def)
  from new_connection_fields [of n s] sv li obtain s' where p: "new_connection s = Inr s'"
    and log: "sv_log s' = sv_log s @ (if loop_for n ?c = 0 then [Established ?c] else [])"
    and q: "sv_queue s' = (if loop_for n ?c = 0 then sv_queue s else (sv_queue s)(loop_for n ?c := sv_queue s (loop_for n ?c) @ [Established ?c]))"
      "sv_count s' = Suc ?c" "sv_loop s' = (sv_loop s)(?c := loop_for n ?c)"
      "sv_start_once s' = sv_start_once s" "sv_acceptor s' = sv_acceptor s" by (auto simp: sv_inv_def)
  let ?fs = "drop (length (sv_log s)) (sv_log s')" and ?K = "K(?c := ConnectionBase fd b)"
  have sv': "sv_inv n s'" by (rule new_connection_inv [OF sv li c p])
  have fs: "?fs = (if loop_for n ?c = 0 then [Established ?c] else [])" by (simp add: log)
  have fresh: "conn_of f < ?c" if "f \<in> set (sv_log s)" for f using ev that by (auto simp: event_part_def)
  have nq: "Established ?c \<notin> set (sv_queue s l)" for l using ev by (force simp: event_part_def)
  have nl: "Closed ?c \<notin> set (sv_log s)" using fresh [of "Closed ?c"] by auto
  have cb: "conn_inv (ConnectionBase fd b)" "cn_state (ConnectionBase fd b) = kConnecting"
    by (rule ConnectionBase_inv) (simp add: ConnectionBase_def)
  have "conns_part ?fs (s', ?K)"
    unfolding fs using cp cb nl nq by (auto simp: conns_part_def log q less_Suc_eq)
  then have "sys_inv n ?fs (s', ?K)" using sv' c inv by (simp add: sys_inv_def q)
  from exec_all_inv [OF E this] show ?thesis by (simp add: p)
qed

lemma distinct_filters: "(\<And>c. distinct (filter (\<lambda>f. g f = c) xs)) \<Longrightarrow> distinct xs"
proof (induction xs)
  case (Cons x xs)
  have "distinct (filter (\<lambda>f. g f = c) xs)" for c using Cons.prems [of c] by (auto split: if_splits)
  then have "distinct xs" by (rule Cons.IH)
  moreover have "x \<notin> set xs" using Cons.prems [of "g x"] by auto
  ultimately show ?case by simp
qed simp

lemma run_step_inv:
  assumes E: "server_env E" and inv: "sys_inv n [] (s, K)"
  shows "\<exists>y. rbind (run_queue l s) (\<lambda>s'. exec_all E (sv_queue s l) (s', K)) = Inr y \<and> sys_inv n [] y"
proof -
  have sv: "sv_inv n s" and cp: "conns_part [] (s, K)" using inv by (simp_all add: sys_inv_def)
  have ev: "event_part s" and hp: "history_part s" using sv by (simp_all add: sv_inv_def)
  let ?fs = "sv_queue s l" and ?s = "s\<lparr>sv_log := sv_log s @ sv_queue s l, sv_queue := (sv_queue s)(l := [])\<rparr>"
  have "run_queue l s = Inr ?s" using sv by (simp add: run_queue_def sv_inv_def pool_part_def)
  with run_queue_inv [OF sv, of l] have s': "run_queue l s = Inr ?s" "sv_inv n ?s" by auto
  have own: "conn_of f < sv_count s" "sv_loop s (conn_of f) = l" "f \<noteq> Closed c" if "f \<in> set ?fs" for f c
    using ev that by (auto simp: event_part_def)
  have hist: "distinct (conn_history c s)" "Destroyed c \<in> set (conn_history c s) \<Longrightarrow> Closed c \<in> set (sv_log s)" if "c < sv_count s" for c
    using hp that by (auto simp: history_part_def split: if_splits)
  have "distinct (filter (\<lambda>f. conn_of f = c) ?fs)" for c
  proof (cases "filter (\<lambda>f. conn_of f = c) ?fs = []")
    case False
    then obtain f where "f \<in> set ?fs" "conn_of f = c" by (auto simp: filter_empty_conv)
    with own have "c < sv_count s" "sv_loop s c = l" by auto
    with hist(1) [of c] show ?thesis by (auto simp: conn_history_def)
  qed simp
  then have d: "distinct ?fs" by (rule distinct_filters)
  have ds: "Closed c \<in> set (sv_log s)" if "Destroyed c \<in> set ?fs" for c
    using hist(2) [of c] own [OF that] that by (auto simp: conn_history_def)
  have no: "Closed c \<notin> set ?fs" for c using own(3) by blast
  have es: "Established c \<in> set ?fs \<Longrightarrow> sv_loop s c = l" for c using own(2) [of "Established c"] by simp
  have "conns_part ?fs (?s, K)"
    using cp d ds no es unfolding conns_part_def by auto
  then have "sys_inv n ?fs (?s, K)" using s'(2) inv by (simp add: sys_inv_def)
  from exec_all_inv [OF E this] show ?thesis by (simp add: s'(1))
qed

lemma start_functor_total:
  assumes "sv_inv n s" "\<not> ac_listening (sv_acceptor s)"
  shows "\<exists>s'. start_functor s = Inr s' \<and> sv_inv n s' \<and> sv_count s' = sv_count s \<and> sv_log s' = sv_log s \<and>
    sv_queue s' = sv_queue s \<and> sv_loop s' = sv_loop s \<and> sv_start_once s' \<and> ac_listening (sv_acceptor s')"
proof -
  have "sv_pool s = SetLoopNum (int n) EventLoopPool" using assms by (simp add: sv_inv_def pool_part_def)
  then obtain s' where "start_functor s = Inr s'" "sv_count s' = sv_count s" "sv_log s' = sv_log s" "sv_queue s' = sv_queue s"
    "sv_loop s' = sv_loop s" "sv_start_once s'" "ac_listening (sv_acceptor s')"
    using assms(2) by (simp add: start_functor_def pool_StartRun_def SetLoopNum_def EventLoopPool_def Listen_def)
  with start_functor_inv [OF assms(1)] show ?thesis by blast
qed

lemma act_step_inv:
  assumes E: "server_env E" and inv: "sys_inv n [] (s, K)" and c: "c < sv_count s" and k: "act_step E (K c) k"
  shows "\<exists>y. went_down c k (s, K) = Inr y \<and> sys_inv n [] y"
proof -
  have i: "iface_env E" using E by (simp add: server_env_def)
  have cp: "conns_part [] (s, K)" using inv by (simp add: sys_inv_def)
  note ci = conns_partD(1) [OF cp c]
  have le: "conn_le (K c) k" by (rule act_step_le [OF k i ci])
  then have ki: "conn_inv k" by (simp add: conn_le_def)
  show ?thesis
  proof (cases "cn_state (K c) = kConnecting")
    case True
    with act_step_connecting [OF k i ci] have "cn_state k = kConnecting" by blast
    then have "went_down c k (s, K) = Inr (s, K(c := k))" "conns_part [] (s, K(c := k))"
      using True cp ki by (auto simp: went_down_def conns_part_def)
    then show ?thesis using inv by (simp add: sys_inv_def)
  next
    case False
    then have "Established c \<notin> set (sv_queue s (sv_loop s c))" using conns_partD(2) [OF cp c] by simp
    moreover have "cn_state k \<noteq> kConnecting" "cn_state (K c) = kDisconnected \<longrightarrow> cn_state k = kDisconnected"
      using False le by (cases "cn_state (K c)"; cases "cn_state k"; simp add: conn_le_def)+
    ultimately show ?thesis using went_down_inv [OF inv c _ ki, of "[]"] by simp
  qed
qed

lemma sv_step_inv:
  assumes E: "server_env E" and st: "sv_step E x r" and inv: "sys_inv n [] x" and c: "sv_count (fst x) < 2 ^ 32 - 1"
  shows "\<exists>y. r = Inr y \<and> sys_inv n [] y"
  using st
proof cases
  case (start s K)
  have "\<not> ac_listening (sv_acceptor s)" using start inv by (simp add: sys_inv_def server_StartRun_def)
  with start_functor_total [of n s] start inv obtain s' where "start_functor s = Inr s'" "sv_inv n s'" "sv_count s' = sv_count s"
    "sv_log s' = sv_log s" "sv_queue s' = sv_queue s" "sv_loop s' = sv_loop s" "sv_start_once s'" "ac_listening (sv_acceptor s')"
    by (auto simp: sys_inv_def)
  then show ?thesis using start inv by (simp add: sys_inv_def conns_part_def)
next
  case (conn s K fd b)
  then show ?thesis using conn_step_inv [OF E, of n s K] inv c by simp
next
  case (act c s K k)
  then show ?thesis using act_step_inv [OF E, of n s K c k] inv by simp
next
  case (run s K l)
  then show ?thesis using run_step_inv [OF E, of n s K l] inv by simp
next
  case (pool s K on)
  then show ?thesis using inv by (simp add: sys_inv_def sv_inv_def EnablePool_parts) (simp add: conns_part_def EnablePool_def)
qed

text \<open>What the steps do: a connection that goes down has its destruction queued, and nothing is taken from the queues.\<close>

definition queues_destroy :: "server_sys \<Rightarrow> server_sys \<Rightarrow> bool" where
  "queues_destroy x y \<longleftrightarrow> sv_count (fst y) = sv_count (fst x) \<and> sv_loop (fst y) = sv_loop (fst x) \<and>
     (\<forall>l. set (sv_queue (fst x) l) \<subseteq> set (sv_queue (fst y) l)) \<and>
     (\<forall>c. cn_state (snd x c) \<noteq> kDisconnected \<and> cn_state (snd y c) = kDisconnected \<longrightarrow>
        Destroyed c \<in> set (sv_queue (fst y) (sv_loop (fst y) c)))"

lemma queues_destroy_refl: "queues_destroy x x"
  by (simp add: queues_destroy_def)

lemma queues_destroy_trans: "queues_destroy x y \<Longrightarrow> queues_destroy y z \<Longrightarrow> queues_destroy x z"
  unfolding queues_destroy_def by (metis subset_iff)

lemma went_down_queues: "went_down c k x = Inr y \<Longrightarrow> queues_destroy x y"
  by (auto simp: went_down_def queues_destroy_def close_callback_fields split: prod.splits if_splits)

lemma exec_queues: "exec E f x = Inr y \<Longrightarrow> queues_destroy x y"
  by (cases f) (auto intro: went_down_queues queues_destroy_refl)

lemma exec_all_queues: "exec_all E fs x = Inr y \<Longrightarrow> queues_destroy x y"
  by (induction fs arbitrary: x) (auto intro: queues_destroy_refl exec_queues queues_destroy_trans)

lemma sv_step_queues:
  assumes "sv_step E x (Inr y)"
  shows "sv_count (fst x) \<le> sv_count (fst y) \<and>
    (\<forall>c < sv_count (fst x). cn_state (snd x c) \<noteq> kDisconnected \<and> cn_state (snd y c) = kDisconnected \<longrightarrow>
      Destroyed c \<in> set (sv_queue (fst y) (sv_loop (fst y) c)))"
  using assms
proof cases
  case (conn s K fd b)
  from conn(2) [symmetric] obtain s' where s': "new_connection s = Inr s'"
    "exec_all E (drop (length (sv_log s)) (sv_log s')) (s', K(sv_count s := ConnectionBase fd b)) = Inr y" by auto
  have "sv_count s' = Suc (sv_count s)" using s'(1) by (auto simp: new_connection_def Let_def)
  with exec_all_queues [OF s'(2)] conn(1) show ?thesis by (auto simp: queues_destroy_def)
next
  case (act c s K k)
  with went_down_queues [OF act(2) [symmetric]] show ?thesis by (auto simp: queues_destroy_def)
next
  case (run s K l)
  from run(2) [symmetric] obtain s' where s': "run_queue l s = Inr s'" "exec_all E (sv_queue s l) (s', K) = Inr y" by auto
  have "sv_count s' = sv_count s" using s'(1) by (auto simp: run_queue_def split: if_splits)
  with exec_all_queues [OF s'(2)] run(1) show ?thesis by (auto simp: queues_destroy_def)
next
  case (start s K)
  from start(2) [symmetric] show ?thesis by (auto simp: start(1) start_functor_def)
qed (simp add: EnablePool_def)

lemma sys_inv_init: "sys_inv n [] (TcpServer (int n), K)"
  by (simp add: sys_inv_def conns_part_def TcpServer_def sv_inv_def pool_part_def event_part_def conn_part_def history_part_def
    table_part_def Acceptor_def)

lemma sv_steps_inv:
  assumes E: "server_env E" and st: "(\<lambda>x y. sv_step E x (Inr y))\<^sup>*\<^sup>* (TcpServer (int n), K) x"
  shows "sv_count (fst x) < 2 ^ 32 - 1 \<Longrightarrow> sys_inv n [] x"
  using st
proof (induction rule: rtranclp_induct)
  case base
  show ?case by (rule sys_inv_init)
next
  case (step x y)
  then have c: "sv_count (fst x) < 2 ^ 32 - 1" using sv_step_queues [OF step.hyps(2)] by simp
  with step.IH sv_step_inv [OF E step.hyps(2)] show ?case by blast
qed

text \<open>C9. No step of a server fails, and every connection lives exactly once. Take a server with any number of loops in any state
  that is reached, by the start, accepted connections, connections running and closing themselves and the loops running
  their functors, in any order, with less than 2^32 - 1 connections. Its next step does not fail an assertion or index a
  loop that does not exist, and afterwards: the calls on a connection, done or queued, are its establishment and, exactly when
  it is down, one close and one destruction after it, in this order; it is still connecting exactly when its establishment is
  queued; the table of the server holds exactly the connections that are not down; and the connections are given to the loops
  in turn. A connection that goes down in the step is not destroyed at once: its destruction waits in the queue of its loop.
  Conditions: the callbacks only use the interface of their connection and the connection callback returns; \<open>SetLoopNum\<close> is
  called before the start only, \<open>StartRun\<close> in the thread of the loop, \<open>ShutdownWrite\<close> and \<open>ForceClose\<close> in the thread of the
  connection; steps of a connection that fail by themselves, and the destructor of the server, are not considered.\<close>

theorem TcpServer_lifecycle:
  assumes "server_env E" "sv_reach E n (s, K)" "sv_count s < 2 ^ 32 - 1" "sv_step E (s, K) r"
  shows "\<exists>s' K'. r = Inr (s', K') \<and>
    (\<forall>c < sv_count s'.
       filter (\<lambda>f. conn_of f = c) (sv_log s' @ sv_queue s' (sv_loop s' c)) =
         (if cn_state (K' c) = kDisconnected then [Established c, Closed c, Destroyed c] else [Established c]) \<and>
       (cn_state (K' c) = kConnecting \<longleftrightarrow> Established c \<in> set (sv_queue s' (sv_loop s' c))) \<and>
       (c \<in> ran (sv_connections s') \<longleftrightarrow> cn_state (K' c) \<noteq> kDisconnected) \<and>
       sv_loop s' c = (if n = 0 then 0 else Suc (c mod n))) \<and>
    (\<forall>c < sv_count s. cn_state (K c) \<noteq> kDisconnected \<and> cn_state (K' c) = kDisconnected \<longrightarrow>
       Destroyed c \<in> set (sv_queue s' (sv_loop s' c)))"
proof -
  have "sys_inv n [] (s, K)" using assms(2) sv_steps_inv [OF assms(1)] assms(3) by fastforce
  from sv_step_inv [OF assms(1,4) this] assms(3) obtain s' K' where y: "r = Inr (s', K')" "sys_inv n [] (s', K')" by auto
  have parts: "event_part s'" "conn_part n s'" "history_part s'" "table_part s'" and cp: "conns_part [] (s', K')"
    using y(2) by (simp_all add: sys_inv_def sv_inv_def)
  have "c \<in> ran (sv_connections s') \<longleftrightarrow> Closed c \<notin> set (sv_log s')" if "c < sv_count s'" for c
    using parts(4) that by (auto simp: table_part_def ran_def)
  then have "\<forall>c < sv_count s'.
       filter (\<lambda>f. conn_of f = c) (sv_log s' @ sv_queue s' (sv_loop s' c)) =
         (if cn_state (K' c) = kDisconnected then [Established c, Closed c, Destroyed c] else [Established c]) \<and>
       (cn_state (K' c) = kConnecting \<longleftrightarrow> Established c \<in> set (sv_queue s' (sv_loop s' c))) \<and>
       (c \<in> ran (sv_connections s') \<longleftrightarrow> cn_state (K' c) \<noteq> kDisconnected) \<and>
       sv_loop s' c = (if n = 0 then 0 else Suc (c mod n))"
    using parts(2,3) conns_partD [OF cp]
    by (simp add: conn_part_def history_part_def conn_history_def loop_for_def)
  with y(1) sv_step_queues [of E "(s, K)" "(s', K')"] assms(4) show ?thesis by auto
qed

text \<open>A server with one extra loop: it is started, a connection is accepted, and its loop establishes it.\<close>

definition demo_server :: server where
  "demo_server = (TcpServer 1)\<lparr>sv_pool := \<lparr>ep_started = True, ep_loop_num = 1, ep_next = 0, ep_loop_threads = [1]\<rparr>,
     sv_acceptor := \<lparr>ac_listening = True, ac_callback = True, ac_dummyfd = 5\<rparr>, sv_start_once := True, sv_enable_pool := True\<rparr>"

definition demo_server_conn :: server where
  "demo_server_conn = demo_server\<lparr>sv_next_conn_id := 2, sv_count := 1, sv_name := (sv_name demo_server)(0 := 1),
     sv_loop := (sv_loop demo_server)(0 := 1), sv_pooled := (sv_pooled demo_server)(0 := True), sv_connections := [1 \<mapsto> 0],
     sv_log := [Established 0]\<rparr>"

definition demo_conns :: "nat \<Rightarrow> connection" where
  "demo_conns = (\<lambda>_. on_channel ch_EnableReading demo_conn)"

definition demo_senv :: conn_env where
  "demo_senv = demo_env\<lparr>ce_close := Some Inr\<rparr>"

lemma demo_server_env: "server_env demo_senv"
  by (simp add: server_env_def iface_env_def iface_cb_def demo_senv_def demo_env_def)

lemma demo_established_step: "ConnectionEstablished demo_senv (ConnectionBase 5 demo_buffer) = Inr (on_channel ch_EnableReading demo_conn)"
  by (simp add: ConnectionEstablished_def call_cb_def demo_senv_def demo_env_def demo_conn_def ConnectionBase_def Let_def)

lemma demo_server_reach: "sv_reach demo_senv 1 (demo_server_conn, demo_conns)"
proof -
  let ?s1 = "(TcpServer 1)\<lparr>sv_pool := \<lparr>ep_started = True, ep_loop_num = 1, ep_next = 0, ep_loop_threads = [1]\<rparr>,
     sv_acceptor := \<lparr>ac_listening = True, ac_callback = True, ac_dummyfd = 5\<rparr>, sv_start_once := True\<rparr>"
  let ?s2 = "demo_server_conn\<lparr>sv_log := [], sv_queue := (\<lambda>_. [])(1 := [Established 0])\<rparr>"
  let ?K2 = "demo_conns(0 := ConnectionBase 5 demo_buffer)"
  have "start_functor (TcpServer 1) = Inr ?s1"
    by (simp add: TcpServer_def start_functor_def pool_StartRun_def SetLoopNum_def EventLoopPool_def Listen_def Acceptor_def)
  then have "sv_step demo_senv (TcpServer 1, demo_conns) (Inr (?s1, demo_conns))"
    using sv_step.start [of "TcpServer 1" demo_senv demo_conns] by (simp add: server_StartRun_def TcpServer_def)
  moreover have "sv_step demo_senv (?s1, demo_conns) (Inr (demo_server, demo_conns))"
    using sv_step.pool [of demo_senv ?s1 demo_conns True] by (simp add: EnablePool_def demo_server_def)
  moreover have "sv_step demo_senv (demo_server, demo_conns) (Inr (?s2, ?K2))"
  proof -
    have "new_connection demo_server = Inr ?s2"
      by (simp add: demo_server_def demo_server_conn_def new_connection_def GetNextLoop_def run_in_loop_def TcpServer_def Let_def)
    then show ?thesis using sv_step.conn [of demo_server demo_senv demo_conns 5 demo_buffer] by (simp add: demo_server_def TcpServer_def)
  qed
  moreover have "sv_step demo_senv (?s2, ?K2) (Inr (demo_server_conn, demo_conns))"
  proof -
    have "run_queue 1 ?s2 = Inr demo_server_conn"
      by (simp add: run_queue_def demo_server_conn_def demo_server_def TcpServer_def fun_upd_idem)
    moreover have "exec demo_senv (Established 0) (demo_server_conn, ?K2) = Inr (demo_server_conn, demo_conns)"
      by (simp add: demo_established_step went_down_def) (simp add: demo_conns_def demo_conn_def fun_eq_iff)
    ultimately show ?thesis using sv_step.run [of demo_senv ?s2 ?K2 1] by simp
  qed
  ultimately show ?thesis by (metis (no_types, lifting) of_nat_1 rtranclp.rtrancl_into_rtrancl rtranclp.rtrancl_refl)
qed

text \<open>Its peer closes the connection.\<close>

theorem TcpServer_lifecycle_witness:
  "server_env demo_senv \<and> sv_reach demo_senv 1 (demo_server_conn, demo_conns) \<and>
   (\<exists>r s K. sv_step demo_senv (demo_server_conn, demo_conns) r \<and> r = Inr (s, K) \<and> cn_state (K 0) = kDisconnected \<and>
     0 \<notin> ran (sv_connections s) \<and> Destroyed 0 \<in> set (sv_queue s 1))"
proof -
  let ?x = "(demo_server_conn, demo_conns)"
  obtain k where k: "HandleClose demo_senv (demo_conns 0) = Inr k" "cn_state k = kDisconnected"
    by (simp add: HandleClose_def demo_conns_def demo_conn_def demo_senv_def demo_env_def call_cb_def Let_def)
  have st: "sv_step demo_senv ?x (went_down 0 k ?x)"
    by (rule sv_step.act) (auto simp: demo_server_conn_def intro: act_step.hangup k(1))
  have b: "sv_count demo_server_conn < 2 ^ 32 - 1" "(0 :: nat) < sv_count demo_server_conn" by (simp_all add: demo_server_conn_def)
  have w: "went_down 0 k ?x = rbind (close_callback 0 demo_server_conn) (\<lambda>s. Inr (s, demo_conns(0 := k)))"
    using k(2) by (simp add: went_down_def) (simp add: demo_conns_def demo_conn_def)
  from TcpServer_lifecycle [OF demo_server_env demo_server_reach b(1) st]
  obtain s K where r: "went_down 0 k ?x = Inr (s, K)" and
    P: "\<And>c. c < sv_count s \<Longrightarrow> c \<in> ran (sv_connections s) \<longleftrightarrow> cn_state (K c) \<noteq> kDisconnected"
      "\<And>c. c < sv_count s \<Longrightarrow> sv_loop s c = Suc (c mod 1)"
      "cn_state (K 0) = kDisconnected \<Longrightarrow> Destroyed 0 \<in> set (sv_queue s (sv_loop s 0))"
    using b(2) by (auto simp: demo_conns_def demo_conn_def)
  have "rbind (close_callback 0 demo_server_conn) (\<lambda>s. Inr (s, demo_conns(0 := k))) = Inr (s, K)" using r w by simp
  then obtain "close_callback 0 demo_server_conn = Inr s" "K = demo_conns(0 := k)" by auto
  then have "K = demo_conns(0 := k)" "sv_count s = 1" using close_callback_fields(1) [of 0 demo_server_conn s] by (simp_all add: demo_server_conn_def)
  then show ?thesis using demo_server_env demo_server_reach st r P k(2) by auto
qed

section \<open>Starting and destroying a server\<close>

text \<open>\<open>start_once_\<close> is set by the functor: two calls of \<open>StartRun\<close> before it runs queue two functors, and the second one aborts.\<close>

lemma start_functor_twice: "start_functor s = Inr s' \<Longrightarrow> start_functor s' = Inl AssertFail"
  by (auto simp: start_functor_def pool_StartRun_def assertR_def Let_def split: if_splits)

text \<open>A server that was never started cannot be destroyed.\<close>

lemma server_dtor_unstarted: "server_dtor [] (TcpServer n) = Inl AssertFail"
  by (simp add: server_dtor_def TcpServer_def SetLoopNum_def EventLoopPool_def assertR_def)

text \<open>The counter of the names wraps around after 2^32 connections. A connection that gets the name of one that is still open
  replaces it in the table, and closing both fails an assertion.\<close>

lemma close_same_name:
  assumes "sv_alive s" "sv_name s c = sv_name s d" "close_callback c s = Inr s'"
  shows "close_callback d s' = Inl AssertFail"
  using assms by (auto simp: close_callback_def Let_def assertR_def)

lemma fold_destroy:
  "c \<in> set cs \<or> Destroyed c \<in> set (sv_queue s (lp c)) \<Longrightarrow> lp c \<noteq> 0 \<Longrightarrow>
   Destroyed c \<in> set (sv_queue (fold (\<lambda>c. run_in_loop (lp c) (Destroyed c)) cs s) (lp c))"
proof (induction cs arbitrary: s)
  case (Cons x cs)
  have "c \<in> set cs \<or> Destroyed c \<in> set (sv_queue (run_in_loop (lp x) (Destroyed x) s) (lp c))"
    using Cons.prems by (auto simp: run_in_loop_def)
  with Cons.IH Cons.prems(2) show ?case by simp
qed simp

lemma fold_destroy_same:
  "sv_pool (fold (\<lambda>c. run_in_loop (lp c) (Destroyed c)) cs s) = sv_pool s"
  "sv_pooled (fold (\<lambda>c. run_in_loop (lp c) (Destroyed c)) cs s) = sv_pooled s"
  by (induction cs arbitrary: s) simp_all

text \<open>C40. Destroying a server with open connections on other loops reads freed memory. The memory pool of the connections is
  destroyed before the threads of the loops are joined: the queued destruction of a connection that was allocated in the
  pool then runs on released memory; and a connection that is closed before it runs calls the close callback of the
  destroyed server.\<close>

theorem TcpServer_dtor_use_after_free:
  assumes "ep_started (sv_pool s)" "c \<in> set cs" "sv_loop s c \<noteq> 0" "sv_pooled s c"
  shows "\<exists>s'. server_dtor cs s = Inr s' \<and> run_queue (sv_loop s c) s' = Inl UseAfterFree \<and>
    close_callback d s' = Inl UseAfterFree"
proof -
  let ?s = "fold (\<lambda>c. run_in_loop (sv_loop s c) (Destroyed c)) cs s"
  have "Destroyed c \<in> set (sv_queue ?s (sv_loop s c))" by (rule fold_destroy) (use assms in auto)
  moreover have "sv_pooled ?s (conn_of (Destroyed c))" using assms(4) by (simp add: fold_destroy_same)
  ultimately have "\<exists>f \<in> set (sv_queue ?s (sv_loop s c)). sv_pooled s (conn_of f)" unfolding fold_destroy_same by (rule bexI [rotated])
  then show ?thesis
    using assms(1) by (auto simp: server_dtor_def Let_def fold_destroy_same run_queue_def close_callback_def)
qed

theorem TcpServer_dtor_use_after_free_witness:
  "sv_reach demo_senv 1 (demo_server_conn, demo_conns) \<and>
   (\<exists>s'. server_dtor [0] demo_server_conn = Inr s' \<and> run_queue 1 s' = Inl UseAfterFree)"
proof -
  have "ep_started (sv_pool demo_server_conn)" "0 \<in> set [0 :: nat]" "sv_loop demo_server_conn 0 \<noteq> 0"
    "sv_pooled demo_server_conn 0" "sv_loop demo_server_conn 0 = 1"
    by (simp_all add: demo_server_conn_def demo_server_def)
  with TcpServer_dtor_use_after_free [of demo_server_conn 0 "[0]"] demo_server_reach show ?thesis by auto
qed

end
