(* ===== verification/Connector.thy ===== *)
theory Connector
  imports Kanon_Prelude
begin

text \<open>
  Model of \<^verbatim>\<open>kanon/net/connector.{h,cc}\<close> and \<^verbatim>\<open>kanon/linux/net/connector.cc\<close>: the state machine that connects a client socket,
  with retries. All operations run in the thread of the loop. The socket a call of \<open>socket\<close> creates and the results of
  \<open>connect\<close>, of \<open>SO_ERROR\<close> and of the test for a self-connection are arguments. The record holds, besides the fields of
  the object, what it leaves in the loop (its timers, the queued reset of the channel), the sockets that are open, and whether
  \<open>Restrat\<close> was ever called in the state \<open>kConnecting\<close>.
\<close>

section \<open>The state\<close>

datatype conn_state = kConnecting | kConnected | kDisconnected

text \<open>The channel is its descriptor and whether it watches the descriptor. A timer is its id and its delay in milliseconds;
  \<open>cn_other_timers\<close> tells whether the loop has timers of other users.\<close>

record connector =
  cn_retry_interval :: "32 word"
  cn_channel :: "(int \<times> bool) option"
  cn_callback :: bool
  cn_state :: conn_state
  cn_connect :: bool
  cn_timer :: "nat option"
  cn_timers :: "(nat \<times> 32 word) list"
  cn_other_timers :: bool
  cn_next_timer :: nat
  cn_functors :: nat
  cn_open :: "int list"
  cn_given :: "int list"
  cn_early_restart :: bool

abbreviation (input) INIT_RETRY_INTERVAL :: "32 word" where "INIT_RETRY_INTERVAL \<equiv> 500"
abbreviation (input) MAX_RETRY_INTERVAL :: "32 word" where "MAX_RETRY_INTERVAL \<equiv> 30000"

definition Connector :: "bool \<Rightarrow> bool \<Rightarrow> connector" where
  "Connector cb other =
     \<lparr>cn_retry_interval = INIT_RETRY_INTERVAL, cn_channel = None, cn_callback = cb, cn_state = kDisconnected,
      cn_connect = True, cn_timer = None, cn_timers = [], cn_other_timers = other, cn_next_timer = 0, cn_functors = 0,
      cn_open = [], cn_given = [], cn_early_restart = False\<rparr>"

section \<open>The operations\<close>

text \<open>\<open>sock::Close\<close> of a descriptor that is not open would close a descriptor of somebody else.\<close>

definition sock_Close :: "connector \<Rightarrow> int \<Rightarrow> connector res" where
  "sock_Close s fd = (if fd \<in> set (cn_open s) then Inr (s\<lparr>cn_open := remove1 fd (cn_open s)\<rparr>) else Inl UseAfterFree)"

text \<open>The queued functor resets the channel later.\<close>

definition ResetChannel :: "connector \<Rightarrow> connector res" where
  "ResetChannel s =
     (case cn_channel s of None \<Rightarrow> Inl NullDeref
      | Some (fd, w) \<Rightarrow> Inr (s\<lparr>cn_channel := Some (fd, False), cn_functors := cn_functors s + 1\<rparr>))"

definition Retry :: "connector \<Rightarrow> int \<Rightarrow> connector res" where
  "Retry s sockfd =
     rbind (sock_Close s sockfd) (\<lambda>s.
     let s = s\<lparr>cn_state := kDisconnected\<rparr> in
     if cn_connect s then
       let delay = min (cn_retry_interval s) MAX_RETRY_INTERVAL in
       Inr (s\<lparr>cn_timer := Some (cn_next_timer s), cn_timers := cn_timers s @ [(cn_next_timer s, delay)],
         cn_next_timer := cn_next_timer s + 1, cn_retry_interval := cn_retry_interval s * 2\<rparr>)
     else Inr s)"

definition CompleteConnect :: "connector \<Rightarrow> int \<Rightarrow> connector res" where
  "CompleteConnect s sockfd =
     rbind (assertR (cn_state s = kDisconnected \<and> cn_connect s)) (\<lambda>_.
     let s = s\<lparr>cn_state := kConnecting\<rparr> in
     rbind (assertR (cn_channel s = None)) (\<lambda>_.
     Inr (s\<lparr>cn_channel := Some (sockfd, True)\<rparr>)))"

text \<open>The error numbers of Linux.\<close>

definition pending_errno :: "int set" where
  "pending_errno = {0, 4 \<comment> \<open>EINTR\<close>, 115 \<comment> \<open>EINPROGRESS\<close>}"

definition soft_errno :: "int set" where
  "soft_errno = {11 \<comment> \<open>EAGAIN\<close>, 99 \<comment> \<open>EADDRNOTAVAIL\<close>, 101 \<comment> \<open>ENETUNREACH\<close>, 113 \<comment> \<open>EHOSTUNREACH\<close>,
     111 \<comment> \<open>ECONNREFUSED\<close>, 110 \<comment> \<open>ETIMEDOUT\<close>}"

definition Connect :: "int \<Rightarrow> int \<Rightarrow> connector \<Rightarrow> connector res" where
  "Connect sockfd saved_errno s =
     (if cn_state s \<noteq> kDisconnected then Inr s
      else
        let s = s\<lparr>cn_open := sockfd # cn_open s\<rparr> in
        if saved_errno \<in> pending_errno then CompleteConnect s sockfd
        else if saved_errno \<in> soft_errno then Retry s sockfd
        else sock_Close s sockfd)"

text \<open>The functors of \<open>StartRun\<close>, \<open>Stop\<close> and \<open>Restrat\<close>.\<close>

definition StartRun :: "int \<Rightarrow> int \<Rightarrow> connector \<Rightarrow> connector res" where
  "StartRun sockfd saved_errno s =
     rbind (assertR (cn_state s = kDisconnected)) (\<lambda>_. if cn_connect s then Connect sockfd saved_errno s else Inr s)"

text \<open>\<open>CancelTimer\<close> of a timer that has fired reads its deleted object if the loop has any active timer.\<close>

definition cancel_timer :: "connector \<Rightarrow> nat \<Rightarrow> connector res" where
  "cancel_timer s t =
     (if t \<in> fst ` set (cn_timers s) then Inr (s\<lparr>cn_timers := filter (\<lambda>x. fst x \<noteq> t) (cn_timers s)\<rparr>)
      else if cn_timers s \<noteq> [] \<or> cn_other_timers s then Inl UseAfterFree
      else Inr s)"

definition stop_connecting :: "connector \<Rightarrow> connector res" where
  "stop_connecting s =
     (if cn_state s = kConnecting then
        (case cn_channel s of None \<Rightarrow> Inl NullDeref
         | Some (sockfd, w) \<Rightarrow>
             rbind (ResetChannel s) (\<lambda>s. rbind (sock_Close s sockfd) (\<lambda>s. Inr (s\<lparr>cn_state := kDisconnected\<rparr>))))
      else Inr s)"

definition StopInLoop :: "connector \<Rightarrow> connector res" where
  "StopInLoop s =
     (let s = s\<lparr>cn_connect := False\<rparr> in
      rbind (case cn_timer s of None \<Rightarrow> Inr s | Some t \<Rightarrow> cancel_timer s t) stop_connecting)"

definition Restrat :: "int \<Rightarrow> int \<Rightarrow> connector \<Rightarrow> connector res" where
  "Restrat sockfd saved_errno s =
     StartRun sockfd saved_errno (s\<lparr>cn_connect := True, cn_state := kDisconnected, cn_retry_interval := INIT_RETRY_INTERVAL,
       cn_early_restart := cn_early_restart s \<or> cn_state s = kConnecting\<rparr>)"

text \<open>The callbacks of the channel. The new connection callback takes over the socket.\<close>

definition write_callback :: "int \<Rightarrow> bool \<Rightarrow> connector \<Rightarrow> connector res" where
  "write_callback err self s =
     (case cn_channel s of None \<Rightarrow> Inl NullDeref
      | Some (sockfd, w) \<Rightarrow>
          if cn_state s = kConnecting then
            rbind (ResetChannel s) (\<lambda>s.
            if err \<noteq> 0 then Retry s sockfd
            else if self then Retry s sockfd
            else
              let s = s\<lparr>cn_state := kConnected\<rparr> in
              if cn_connect s then
                if cn_callback s then Inr (s\<lparr>cn_given := sockfd # cn_given s\<rparr>) else Inr s
              else sock_Close s sockfd)
          else Inr s)"

definition error_callback :: "connector \<Rightarrow> connector res" where
  "error_callback s =
     (if cn_state s = kConnecting then
        (case cn_channel s of None \<Rightarrow> Inl NullDeref
         | Some (sockfd, w) \<Rightarrow> rbind (ResetChannel s) (\<lambda>s. Retry s sockfd))
      else Inr s)"

text \<open>What the loop does: it runs the queued functors, and a timer that expires starts the connector.\<close>

definition run_functors :: "connector \<Rightarrow> connector" where
  "run_functors s = (if 0 < cn_functors s then s\<lparr>cn_channel := None, cn_functors := 0\<rparr> else s)"

definition timer_fires :: "nat \<Rightarrow> int \<Rightarrow> int \<Rightarrow> connector \<Rightarrow> connector res" where
  "timer_fires t sockfd saved_errno s = StartRun sockfd saved_errno (s\<lparr>cn_timers := filter (\<lambda>x. fst x \<noteq> t) (cn_timers s)\<rparr>)"

text \<open>The owner of a handed-over socket closes it.\<close>

definition owner_closes :: "int \<Rightarrow> connector \<Rightarrow> connector" where
  "owner_closes fd s = s\<lparr>cn_open := remove1 fd (cn_open s), cn_given := remove1 fd (cn_given s)\<rparr>"

section \<open>Every socket has one owner\<close>

text \<open>The steps of a connector in a loop: calls of its user, in any order, and events. The kernel returns a descriptor that is
  not open.\<close>

inductive cn_step :: "connector \<Rightarrow> connector \<Rightarrow> bool" where
  start: "fd \<notin> set (cn_open s) \<Longrightarrow> StartRun fd errno s = Inr s' \<Longrightarrow> cn_step s s'"
| stop: "StopInLoop s = Inr s' \<Longrightarrow> cn_step s s'"
| restart: "fd \<notin> set (cn_open s) \<Longrightarrow> Restrat fd errno s = Inr s' \<Longrightarrow> cn_step s s'"
| timer: "fd \<notin> set (cn_open s) \<Longrightarrow> t \<in> fst ` set (cn_timers s) \<Longrightarrow> timer_fires t fd errno s = Inr s' \<Longrightarrow> cn_step s s'"
| writable: "cn_channel s \<noteq> None \<Longrightarrow> write_callback err self s = Inr s' \<Longrightarrow> cn_step s s'"
| err: "cn_channel s \<noteq> None \<Longrightarrow> error_callback s = Inr s' \<Longrightarrow> cn_step s s'"
| functors: "cn_step s (run_functors s)"
| owner: "fd \<in> set (cn_given s) \<Longrightarrow> cn_step s (owner_closes fd s)"

text \<open>While connecting, the one socket not handed over is the one the channel watches; otherwise there is none, and the channel,
  if it still exists, waits for its reset.\<close>

definition cn_inv :: "connector \<Rightarrow> bool" where
  "cn_inv s \<longleftrightarrow> cn_callback s \<and> distinct (cn_open s) \<and> distinct (cn_given s) \<and> set (cn_given s) \<subseteq> set (cn_open s) \<and>
     (cn_channel s = None \<longrightarrow> cn_functors s = 0) \<and>
     (if cn_state s = kConnecting
      then \<exists>fd. cn_channel s = Some (fd, True) \<and> cn_functors s = 0 \<and> fd \<notin> set (cn_given s) \<and>
        set (cn_open s) = insert fd (set (cn_given s))
      else set (cn_open s) = set (cn_given s) \<and> (\<forall>fd w. cn_channel s = Some (fd, w) \<longrightarrow> \<not> w \<and> 0 < cn_functors s))"

text \<open>Giving up a socket that nobody owns, and the retry behind it.\<close>

lemma Retry_inv:
  assumes "cn_callback s" "distinct (cn_open s)" "distinct (cn_given s)" "fd \<notin> set (cn_given s)"
    "set (cn_open s) = insert fd (set (cn_given s))" "cn_channel s = None \<longrightarrow> cn_functors s = 0"
    "\<forall>fd w. cn_channel s = Some (fd, w) \<longrightarrow> \<not> w \<and> 0 < cn_functors s"
  shows "\<exists>s'. Retry s fd = Inr s' \<and> cn_inv s'"
proof -
  have "set (remove1 fd (cn_open s)) = set (cn_given s)" using assms(2,4,5) by simp
  with assms show ?thesis by (auto simp: Retry_def sock_Close_def Let_def cn_inv_def)
qed

lemma Connect_inv:
  assumes "cn_inv s" "fd \<notin> set (cn_open s)" "Connect fd e s = Inr s'" "cn_connect s"
  shows "cn_inv s'"
proof (cases "cn_state s = kDisconnected")
  case True
  let ?s = "s\<lparr>cn_open := fd # cn_open s\<rparr>"
  from assms True consider "e \<in> pending_errno" "CompleteConnect ?s fd = Inr s'" |
    "e \<notin> pending_errno" "e \<in> soft_errno" "Retry ?s fd = Inr s'" | "s' = s"
    by (auto simp: Connect_def sock_Close_def Let_def split: if_splits)
  then show ?thesis
  proof cases
    case 1
    with assms(1,2) True show ?thesis by (auto simp: CompleteConnect_def cn_inv_def Let_def)
  next
    case 2
    have "\<exists>s''. Retry ?s fd = Inr s'' \<and> cn_inv s''"
      by (rule Retry_inv) (use assms(1,2) True in \<open>auto simp: cn_inv_def\<close>)
    with 2 show ?thesis by simp
  qed (use assms(1) in simp)
qed (use assms in \<open>simp add: Connect_def\<close>)

lemma StartRun_inv:
  "cn_inv s \<Longrightarrow> fd \<notin> set (cn_open s) \<Longrightarrow> StartRun fd e s = Inr s' \<Longrightarrow> cn_inv s'"
  using Connect_inv [of s fd e s'] by (auto simp: StartRun_def split: if_splits)

lemma cn_inv_timers: "cn_inv (s\<lparr>cn_timers := ts\<rparr>) = cn_inv s" "cn_inv (s\<lparr>cn_connect := c\<rparr>) = cn_inv s"
  by (simp_all add: cn_inv_def)

lemma cancel_timer_inv: "cn_inv s \<Longrightarrow> cancel_timer s t = Inr s' \<Longrightarrow> cn_inv s'"
  by (auto simp: cancel_timer_def cn_inv_timers split: if_splits)

lemma stop_connecting_inv:
  assumes "cn_inv s" "stop_connecting s = Inr s'"
  shows "cn_inv s'"
proof (cases "cn_state s = kConnecting")
  case True
  with assms(1) obtain fd where "cn_channel s = Some (fd, True)" "cn_functors s = 0" "fd \<notin> set (cn_given s)"
    "set (cn_open s) = insert fd (set (cn_given s))" "distinct (cn_open s)" by (auto simp: cn_inv_def)
  with True assms show ?thesis by (auto simp: stop_connecting_def ResetChannel_def sock_Close_def cn_inv_def)
qed (use assms in \<open>simp add: stop_connecting_def\<close>)

lemma StopInLoop_inv:
  assumes "cn_inv s" "StopInLoop s = Inr s'"
  shows "cn_inv s'"
proof -
  from assms(2) obtain s1 where s1:
    "(case cn_timer s of None \<Rightarrow> Inr (s\<lparr>cn_connect := False\<rparr>) | Some t \<Rightarrow> cancel_timer (s\<lparr>cn_connect := False\<rparr>) t) = Inr s1"
    "stop_connecting s1 = Inr s'"
    by (auto simp: StopInLoop_def Let_def)
  with assms(1) have "cn_inv s1"
    using cancel_timer_inv [of "s\<lparr>cn_connect := False\<rparr>"] by (auto simp: cn_inv_timers split: option.splits)
  then show ?thesis using s1(2) by (rule stop_connecting_inv)
qed

lemma write_callback_inv:
  assumes "cn_inv s" "cn_channel s \<noteq> None"
  shows "\<exists>s'. write_callback err self s = Inr s' \<and> cn_inv s'"
proof (cases "cn_state s = kConnecting")
  case True
  with assms(1) obtain fd where fd: "cn_channel s = Some (fd, True)" "cn_functors s = 0" "fd \<notin> set (cn_given s)"
    "set (cn_open s) = insert fd (set (cn_given s))" by (auto simp: cn_inv_def)
  let ?s = "s\<lparr>cn_channel := Some (fd, False), cn_functors := 1\<rparr>"
  have "\<exists>s'. Retry ?s fd = Inr s' \<and> cn_inv s'"
    by (rule Retry_inv) (use assms(1) fd in \<open>auto simp: cn_inv_def\<close>)
  moreover have "cn_inv (?s\<lparr>cn_state := kConnected, cn_given := fd # cn_given s\<rparr>)"
    using assms(1) fd by (auto simp: cn_inv_def)
  moreover have "\<exists>s'. sock_Close (?s\<lparr>cn_state := kConnected\<rparr>) fd = Inr s' \<and> cn_inv s'"
    using assms(1) fd by (auto simp: cn_inv_def sock_Close_def)
  moreover have "cn_callback s" using assms(1) by (simp add: cn_inv_def)
  ultimately show ?thesis using True fd by (simp add: write_callback_def ResetChannel_def Let_def)
qed (use assms in \<open>auto simp: write_callback_def\<close>)

lemma error_callback_inv:
  assumes "cn_inv s"
  shows "\<exists>s'. error_callback s = Inr s' \<and> cn_inv s'"
proof (cases "cn_state s = kConnecting")
  case True
  with assms obtain fd where fd: "cn_channel s = Some (fd, True)" "cn_functors s = 0" "fd \<notin> set (cn_given s)"
    "set (cn_open s) = insert fd (set (cn_given s))" by (auto simp: cn_inv_def)
  have "\<exists>s'. Retry (s\<lparr>cn_channel := Some (fd, False), cn_functors := 1\<rparr>) fd = Inr s' \<and> cn_inv s'"
    by (rule Retry_inv) (use assms fd in \<open>auto simp: cn_inv_def\<close>)
  then show ?thesis using True fd by (simp add: error_callback_def ResetChannel_def)
qed (use assms in \<open>simp add: error_callback_def\<close>)

lemma owner_closes_inv:
  "cn_inv s \<Longrightarrow> fd \<in> set (cn_given s) \<Longrightarrow> cn_inv (owner_closes fd s)"
  by (auto simp: cn_inv_def owner_closes_def)

lemma run_functors_inv: "cn_inv s \<Longrightarrow> cn_inv (run_functors s)"
  by (auto simp: cn_inv_def run_functors_def)

lemma StartRun_early: "StartRun fd e s = Inr s' \<Longrightarrow> cn_early_restart s' = cn_early_restart s"
  by (auto simp: StartRun_def Connect_def CompleteConnect_def Retry_def sock_Close_def Let_def split: if_splits)

lemma cn_step_early: "cn_step s s' \<Longrightarrow> cn_early_restart s \<Longrightarrow> cn_early_restart s'"
proof (induction rule: cn_step.induct)
  case (stop s s')
  then show ?case
    by (auto simp: StopInLoop_def cancel_timer_def stop_connecting_def ResetChannel_def sock_Close_def Let_def
      split: if_splits option.splits)
qed (auto simp: Restrat_def timer_fires_def run_functors_def owner_closes_def write_callback_def error_callback_def
  ResetChannel_def Retry_def sock_Close_def Let_def dest: StartRun_early split: if_splits)

lemma cn_step_inv: "cn_step s s' \<Longrightarrow> cn_inv s \<Longrightarrow> \<not> cn_early_restart s' \<Longrightarrow> cn_inv s'"
proof (induction rule: cn_step.induct)
  case (start fd s e s')
  from start.prems(1) start.hyps show ?case by (rule StartRun_inv)
next
  case (stop s s')
  from stop.prems(1) stop.hyps show ?case by (rule StopInLoop_inv)
next
  case (restart fd s e s')
  let ?s = "s\<lparr>cn_connect := True, cn_state := kDisconnected, cn_retry_interval := INIT_RETRY_INTERVAL,
    cn_early_restart := cn_early_restart s \<or> cn_state s = kConnecting\<rparr>"
  have "cn_state s \<noteq> kConnecting" using restart.hyps(2) restart.prems(2) StartRun_early [of fd e ?s s'] by (auto simp: Restrat_def)
  then have "cn_inv ?s" using restart.prems(1) by (auto simp: cn_inv_def)
  moreover have "fd \<notin> set (cn_open ?s)" "StartRun fd e ?s = Inr s'" using restart.hyps by (simp_all add: Restrat_def)
  ultimately show ?case by (rule StartRun_inv)
next
  case (timer fd s t e s')
  let ?s = "s\<lparr>cn_timers := filter (\<lambda>x. fst x \<noteq> t) (cn_timers s)\<rparr>"
  have "cn_inv ?s" using timer.prems(1) by (simp add: cn_inv_timers)
  moreover have "fd \<notin> set (cn_open ?s)" "StartRun fd e ?s = Inr s'" using timer.hyps by (simp_all add: timer_fires_def)
  ultimately show ?case by (rule StartRun_inv)
next
  case (writable s err self s')
  with write_callback_inv [of s err self] show ?case by simp
next
  case (err s s')
  with error_callback_inv [of s] show ?case by simp
next
  case (functors s)
  from functors(1) show ?case by (rule run_functors_inv)
next
  case (owner fd s)
  from owner.prems(1) owner.hyps show ?case by (rule owner_closes_inv)
qed

lemma cn_reach_inv: "cn_step\<^sup>*\<^sup>* (Connector True other) s \<Longrightarrow> \<not> cn_early_restart s \<Longrightarrow> cn_inv s"
proof (induction rule: rtranclp_induct)
  case base
  show ?case by (simp add: cn_inv_def Connector_def)
next
  case (step s s')
  then show ?case using cn_step_early cn_step_inv by blast
qed

text \<open>\<open>Restrat\<close> does not look at the state. While connecting it forgets the channel: if the new attempt is under way an assertion fails, and if
  it is refused the first socket stays open and watched, with callbacks that do nothing.\<close>

lemma Restrat_connecting:
  assumes "cn_state s = kConnecting" "cn_channel s = Some (fd, True)"
  shows "Restrat fd' 115 s = Inl AssertFail"
    and "\<exists>s'. Restrat fd' 111 s = Inr s' \<and> cn_open s' = cn_open s \<and> cn_given s' = cn_given s \<and> cn_channel s' = Some (fd, True) \<and>
      write_callback err self s' = Inr s' \<and> error_callback s' = Inr s'"
  using assms
  by (simp_all add: Restrat_def StartRun_def Connect_def CompleteConnect_def Retry_def sock_Close_def Let_def pending_errno_def
    soft_errno_def assertR_def write_callback_def error_callback_def)

text \<open>C15. Every socket of a connector with a new connection callback has exactly one owner, as long as \<open>Restrat\<close> is not called while it is
  connecting. After any sequence of the calls of its user and events of its channel, its timers and the loop, all in the loop thread, up to a
  failed assertion, an open socket has either been handed to the new connection callback, once, or is the one the connector is
  connecting and watching; so no socket is leaked or closed twice, and neither callback of the channel fails. The condition is
  needed: \<open>Restrat\<close> while connecting, with a refused new attempt, keeps the first socket open without handing it over, and the
  callbacks of its channel do nothing any more; with an attempt that is under way it fails an assertion.\<close>

theorem Connector_socket_ownership:
  assumes "cn_step\<^sup>*\<^sup>* (Connector True other) s" "\<not> cn_early_restart s"
  shows "distinct (cn_open s) \<and> distinct (cn_given s) \<and> set (cn_given s) \<subseteq> set (cn_open s) \<and>
    (\<forall>fd. fd \<in> set (cn_open s) - set (cn_given s) \<longleftrightarrow> cn_state s = kConnecting \<and> cn_channel s = Some (fd, True)) \<and>
    (\<forall>fd w err self. cn_channel s = Some (fd, w) \<longrightarrow>
       (\<exists>s'. write_callback err self s = Inr s') \<and> (\<exists>s'. error_callback s = Inr s')) \<and>
    (\<forall>fd fd' err self. cn_state s = kConnecting \<and> cn_channel s = Some (fd, True) \<longrightarrow>
       Restrat fd' 115 s = Inl AssertFail \<and>
       (\<exists>s'. Restrat fd' 111 s = Inr s' \<and> fd \<in> set (cn_open s') - set (cn_given s') \<and>
          write_callback err self s' = Inr s' \<and> error_callback s' = Inr s'))"
proof -
  have inv: "cn_inv s" by (rule cn_reach_inv) (fact assms)+
  have own: "fd \<in> set (cn_open s) - set (cn_given s) \<longleftrightarrow> cn_state s = kConnecting \<and> cn_channel s = Some (fd, True)" for fd
    using inv by (auto simp: cn_inv_def split: if_splits)
  moreover have "(\<exists>s'. write_callback err self s = Inr s') \<and> (\<exists>s'. error_callback s = Inr s')"
    if "cn_channel s = Some (fd, w)" for fd w err self
    using write_callback_inv [OF inv, of err self] error_callback_inv [OF inv] that by auto
  moreover have "Restrat fd' 115 s = Inl AssertFail \<and>
       (\<exists>s'. Restrat fd' 111 s = Inr s' \<and> fd \<in> set (cn_open s') - set (cn_given s') \<and>
          write_callback err self s' = Inr s' \<and> error_callback s' = Inr s')"
    if "cn_state s = kConnecting \<and> cn_channel s = Some (fd, True)" for fd fd' err self
    using Restrat_connecting(1) [of s fd fd'] Restrat_connecting(2) [of s fd fd' err self] own [of fd] that by auto
  ultimately show ?thesis using inv unfolding cn_inv_def by blast
qed

text \<open>A connector that is connecting on descriptor 7.\<close>

definition demo_connecting :: connector where
  "demo_connecting = (Connector True False)\<lparr>cn_open := [7], cn_state := kConnecting, cn_channel := Some (7, True)\<rparr>"

lemma demo_connecting_step: "cn_step (Connector True False) demo_connecting"
  by (rule cn_step.start [where fd = 7 and errno = 115])
     (simp_all add: demo_connecting_def Connector_def StartRun_def Connect_def CompleteConnect_def pending_errno_def)

theorem Connector_socket_ownership_witness:
  "cn_step\<^sup>*\<^sup>* (Connector True False) demo_connecting \<and> \<not> cn_early_restart demo_connecting \<and> (\<exists>s'. write_callback 0 False demo_connecting = Inr s')"
proof -
  have r: "cn_step\<^sup>*\<^sup>* (Connector True False) demo_connecting"
    by (rule r_into_rtranclp) (rule demo_connecting_step)
  have d: "cn_channel demo_connecting = Some (7, True)" "\<not> cn_early_restart demo_connecting"
    by (simp_all add: demo_connecting_def Connector_def)
  with Connector_socket_ownership [OF r d(2)] r show ?thesis by blast
qed

section \<open>Retries\<close>

text \<open>A connection that is refused again and again: the user starts the connector, and every attempt after the first is made by
  the timer of the previous one.\<close>

fun refused_attempts :: "int \<Rightarrow> nat \<Rightarrow> connector \<Rightarrow> connector res" where
  "refused_attempts fd 0 s = StartRun fd 111 s"
| "refused_attempts fd (Suc n) s =
     rbind (refused_attempts fd n s) (\<lambda>s. case cn_timer s of None \<Rightarrow> Inr s | Some t \<Rightarrow> timer_fires t fd 111 s)"

definition retry_delay :: "nat \<Rightarrow> 32 word" where
  "retry_delay n = (if n < 6 then 500 * 2 ^ n else if n < 30 then 30000 else 0)"

lemma retry_delay_min: "min (500 * 2 ^ n) 30000 = retry_delay n"
proof (cases "n < 30")
  case True
  have "\<forall>n \<in> set [0..<30]. min (500 * 2 ^ n) 30000 = retry_delay n"
    by (simp add: upt_rec retry_delay_def)
  with True show ?thesis by simp
next
  case False
  then obtain k where "n = 30 + k" using le_Suc_ex by (metis not_less)
  moreover have "(500 * 2 ^ 30 :: 32 word) = 0" by simp
  ultimately have "(500 * 2 ^ n :: 32 word) = 0" by (metis (no_types) mult.assoc mult_zero_left power_add)
  with False show ?thesis by (simp add: retry_delay_def)
qed

lemma StartRun_refused:
  assumes "cn_state s = kDisconnected" "cn_connect s"
  shows "StartRun fd 111 s = Inr (s\<lparr>cn_timer := Some (cn_next_timer s),
    cn_timers := cn_timers s @ [(cn_next_timer s, min (cn_retry_interval s) 30000)],
    cn_next_timer := cn_next_timer s + 1, cn_retry_interval := cn_retry_interval s * 2\<rparr>)"
  using assms by (simp add: StartRun_def Connect_def Retry_def sock_Close_def Let_def pending_errno_def soft_errno_def)

lemma refused_attempts_state:
  "\<exists>s. refused_attempts fd n (Connector cb other) = Inr s \<and> cn_state s = kDisconnected \<and> cn_connect s \<and>
     cn_timer s = Some n \<and> cn_timers s = [(n, retry_delay n)] \<and> cn_next_timer s = Suc n \<and>
     cn_retry_interval s = 500 * 2 ^ Suc n"
proof (induction n)
  case 0
  show ?case by (simp add: StartRun_refused Connector_def retry_delay_min [of 0, simplified])
next
  case (Suc n)
  then obtain s where s: "refused_attempts fd n (Connector cb other) = Inr s" "cn_state s = kDisconnected" "cn_connect s"
    "cn_timer s = Some n" "cn_timers s = [(n, retry_delay n)]" "cn_next_timer s = Suc n"
    "cn_retry_interval s = 500 * 2 ^ Suc n" by blast
  then show ?case
    using retry_delay_min [of "Suc n"] by (simp add: timer_fires_def StartRun_refused mult_ac)
qed

text \<open>C19. The delay between attempts is not bounded from below. The interval doubles in 32 bits without a limit: the delays are
  0.5, 1, 2, 4, 8 and 16 seconds, then 30 seconds up to the thirtieth delay, and after that, when the interval has overflowed to
  0, there is no delay at all.\<close>

theorem Connector_retry_delay:
  "\<exists>s. refused_attempts fd n (Connector cb other) = Inr s \<and>
     cn_timers s = [(n, if n < 6 then 500 * 2 ^ n else if n < 30 then 30000 else 0)]"
  using refused_attempts_state [of fd n cb other] by (auto simp: retry_delay_def)

section \<open>Calls that abort the program\<close>

text \<open>The test of the state in \<open>Connect\<close> is never reached with another state: \<open>StartRun\<close> asserts it first.\<close>

lemma StartRun_twice: "cn_state s \<noteq> kDisconnected \<Longrightarrow> StartRun fd e s = Inl AssertFail"
  by (simp add: StartRun_def assertR_def)

text \<open>An unexpected error of \<open>connect\<close> ends the attempts: nothing is left in the loop that would start another one, and no
  callback is called.\<close>

lemma Connect_gives_up:
  assumes "cn_state s = kDisconnected" "e \<notin> pending_errno" "e \<notin> soft_errno"
  shows "Connect fd e s = Inr s"
  using assms by (simp add: Connect_def sock_Close_def Let_def)

lemma cn_reach_refused:
  assumes "s = (Connector True other)\<lparr>cn_timer := Some 0, cn_timers := [(0, 500)], cn_next_timer := 1, cn_retry_interval := 1000\<rparr>"
  shows "cn_step\<^sup>*\<^sup>* (Connector True other) s"
proof (rule r_into_rtranclp, rule cn_step.start)
  show "StartRun 7 111 (Connector True other) = Inr s" by (simp add: StartRun_refused Connector_def assms)
qed (simp add: Connector_def)

text \<open>Two uses of a connector that abort the program or read freed memory. A user who starts it while a retry is pending makes
  the timer of that retry fail the assertion of \<open>StartRun\<close>. A user who stops it after a successful retry, while the loop
  has any other timer, has the fired timer cancelled, which reads its deleted object.\<close>

theorem Connector_stale_timer:
  "(\<exists>s t. cn_step\<^sup>*\<^sup>* (Connector True True) s \<and> t \<in> fst ` set (cn_timers s) \<and> timer_fires t 8 115 s = Inl AssertFail) \<and>
   (\<exists>s. cn_step\<^sup>*\<^sup>* (Connector True True) s \<and> cn_state s = kConnected \<and> StopInLoop s = Inl UseAfterFree)"
proof
  let ?r = "(Connector True True)\<lparr>cn_timer := Some 0, cn_timers := [(0, 500)], cn_next_timer := 1, cn_retry_interval := 1000\<rparr>"
  have r: "cn_step\<^sup>*\<^sup>* (Connector True True) ?r" by (rule cn_reach_refused) (rule refl)
  let ?c = "?r\<lparr>cn_open := [7], cn_state := kConnecting, cn_channel := Some (7, True)\<rparr>"
  have "cn_step ?r ?c"
    by (rule cn_step.start [where fd = 7 and errno = 115])
       (simp_all add: StartRun_def Connect_def CompleteConnect_def pending_errno_def Connector_def)
  with r have "cn_step\<^sup>*\<^sup>* (Connector True True) ?c" by (rule rtranclp.rtrancl_into_rtrancl)
  then show "\<exists>s t. cn_step\<^sup>*\<^sup>* (Connector True True) s \<and> t \<in> fst ` set (cn_timers s) \<and> timer_fires t 8 115 s = Inl AssertFail"
    by (intro exI [of _ ?c] exI [of _ 0]) (simp add: timer_fires_def StartRun_twice)
  let ?d = "?c\<lparr>cn_timers := []\<rparr>"
  have "cn_step ?r ?d"
    by (rule cn_step.timer [where fd = 7 and errno = 115 and t = 0])
       (simp_all add: timer_fires_def StartRun_def Connect_def CompleteConnect_def pending_errno_def Connector_def)
  with r have d: "cn_step\<^sup>*\<^sup>* (Connector True True) ?d" by (rule rtranclp.rtrancl_into_rtrancl)
  let ?e = "?d\<lparr>cn_channel := Some (7, False), cn_functors := 1, cn_state := kConnected, cn_given := [7]\<rparr>"
  have "cn_step ?d ?e"
    by (rule cn_step.writable [where err = 0 and self = False]) (simp_all add: write_callback_def ResetChannel_def Connector_def)
  with d have "cn_step\<^sup>*\<^sup>* (Connector True True) ?e" by (rule rtranclp.rtrancl_into_rtrancl)
  then show "\<exists>s. cn_step\<^sup>*\<^sup>* (Connector True True) s \<and> cn_state s = kConnected \<and> StopInLoop s = Inl UseAfterFree"
    by (intro exI [of _ ?e]) (simp add: StopInLoop_def cancel_timer_def Connector_def Let_def)
qed

end
