(* ===== verification/Tcp_Client.thy ===== *)
theory Tcp_Client
  imports Connector
begin

text \<open>
  Model of \<^verbatim>\<open>kanon/net/tcp_client.{h,cc}\<close> over the connector: the connection it keeps, reconnecting when the peer closes, and
  its destruction. The calls on connections are recorded in order; functors queued in the loop wait in a list. The client is
  reached from the callbacks through a weak pointer, which is empty when the client has been destroyed.
\<close>

section \<open>The client\<close>

datatype client_call = ConnEstablished nat | ConnShutdownWrite nat | ConnForceClose nat | ConnDestroyed nat

record client =
  tc_connector :: connector
  tc_retry :: bool
  tc_conn :: "nat option"
  tc_fds :: "int list"
  tc_alive :: bool
  tc_functors :: "nat list"
  tc_log :: "client_call list"

text \<open>Connection \<open>c\<close> is the \<open>c\<close>-th one that was created and owns the socket \<open>tc_fds ! c\<close>.\<close>

definition NewTcpClient :: "bool \<Rightarrow> client" where
  "NewTcpClient other =
     \<lparr>tc_connector = Connector True other, tc_retry = False, tc_conn = None, tc_fds = [], tc_alive = True, tc_functors = [],
      tc_log = []\<rparr>"

definition EnableRetry :: "client \<Rightarrow> client" where
  "EnableRetry t = t\<lparr>tc_retry := True\<rparr>"

definition client_Connect :: "int \<Rightarrow> int \<Rightarrow> client \<Rightarrow> client res" where
  "client_Connect sockfd errno t = rbind (StartRun sockfd errno (tc_connector t)) (\<lambda>s. Inr (t\<lparr>tc_connector := s\<rparr>))"

definition Disconnect :: "client \<Rightarrow> client" where
  "Disconnect t =
     (let t = t\<lparr>tc_retry := False\<rparr> in
      case tc_conn t of None \<Rightarrow> t | Some c \<Rightarrow> t\<lparr>tc_log := tc_log t @ [ConnShutdownWrite c]\<rparr>)"

definition client_Stop :: "client \<Rightarrow> client res" where
  "client_Stop t = rbind (StopInLoop (tc_connector t)) (\<lambda>s. Inr (t\<lparr>tc_retry := False, tc_connector := s\<rparr>))"

definition NewConnection :: "int \<Rightarrow> client \<Rightarrow> client" where
  "NewConnection sockfd t =
     (if \<not> tc_alive t \<or> tc_conn t \<noteq> None then t
      else
        let c = length (tc_fds t) in
        t\<lparr>tc_conn := Some c, tc_fds := tc_fds t @ [sockfd], tc_log := tc_log t @ [ConnEstablished c]\<rparr>)"

text \<open>The socket becomes writable: the connector hands over the socket it gave away in this call, if any.\<close>

definition client_writable :: "int \<Rightarrow> bool \<Rightarrow> client \<Rightarrow> client res" where
  "client_writable err self t =
     rbind (write_callback err self (tc_connector t)) (\<lambda>s.
     let t' = t\<lparr>tc_connector := s\<rparr> in
     Inr (if cn_given s = cn_given (tc_connector t) then t' else NewConnection (hd (cn_given s)) t'))"

text \<open>The close callback of connection \<open>c\<close>. \<open>sockfd\<close> and \<open>errno\<close> are what a restarted connector gets.\<close>

definition CloseConnectionHandler :: "int \<Rightarrow> int \<Rightarrow> nat \<Rightarrow> client \<Rightarrow> client res" where
  "CloseConnectionHandler sockfd errno c t =
     (if \<not> tc_alive t then Inr t
      else
        rbind (assertR (tc_conn t = Some c)) (\<lambda>_.
        let t = t\<lparr>tc_conn := None, tc_functors := tc_functors t @ [c]\<rparr> in
        if tc_retry t then rbind (Restrat sockfd errno (tc_connector t)) (\<lambda>s. Inr (t\<lparr>tc_connector := s\<rparr>)) else Inr t))"

definition client_functors :: "client \<Rightarrow> client" where
  "client_functors t = t\<lparr>tc_log := tc_log t @ map ConnDestroyed (tc_functors t), tc_functors := [],
     tc_connector := run_functors (tc_connector t)\<rparr>"

definition client_dtor :: "bool \<Rightarrow> client \<Rightarrow> client res" where
  "client_dtor is_unique t =
     rbind (case tc_conn t of
         Some c \<Rightarrow> Inr (if is_unique then t\<lparr>tc_log := tc_log t @ [ConnForceClose c]\<rparr> else t)
       | None \<Rightarrow> rbind (StopInLoop (tc_connector t)) (\<lambda>s. Inr (t\<lparr>tc_connector := s\<rparr>)))
       (\<lambda>t. Inr (t\<lparr>tc_alive := False, tc_conn := None\<rparr>))"

section \<open>The connections of a client\<close>

text \<open>What can happen to a client, in any order. A connection is closed once, while the client keeps it.\<close>

inductive tc_step :: "client \<Rightarrow> client \<Rightarrow> bool" where
  connect: "fd \<notin> set (cn_open (tc_connector t)) \<Longrightarrow> client_Connect fd e t = Inr t' \<Longrightarrow> tc_step t t'"
| disconnect: "tc_step t (Disconnect t)"
| stop: "client_Stop t = Inr t' \<Longrightarrow> tc_step t t'"
| writable: "cn_channel (tc_connector t) \<noteq> None \<Longrightarrow> client_writable err self t = Inr t' \<Longrightarrow> tc_step t t'"
| close: "tc_conn t = Some c \<Longrightarrow> fd \<notin> set (cn_open (tc_connector t)) \<Longrightarrow> CloseConnectionHandler fd e c t = Inr t' \<Longrightarrow> tc_step t t'"
| functors: "tc_step t (client_functors t)"
| timer: "fd \<notin> set (cn_open (tc_connector t)) \<Longrightarrow> timer_fires i fd e (tc_connector t) = Inr s \<Longrightarrow>
    tc_step t (t\<lparr>tc_connector := s\<rparr>)"
| err: "error_callback (tc_connector t) = Inr s \<Longrightarrow> tc_step t (t\<lparr>tc_connector := s\<rparr>)"
| owner: "fd \<in> set (cn_given (tc_connector t)) \<Longrightarrow> tc_step t (t\<lparr>tc_connector := owner_closes fd (tc_connector t)\<rparr>)"
| retry: "tc_step t (EnableRetry t)"

text \<open>The calls on connection \<open>c\<close> that create and destroy it, done or queued.\<close>

definition life_of :: "nat \<Rightarrow> client \<Rightarrow> client_call list" where
  "life_of c t = filter (\<lambda>f. f \<in> {ConnEstablished c, ConnDestroyed c}) (tc_log t @ map ConnDestroyed (tc_functors t))"

text \<open>While the client keeps a connection, its connector is connected.\<close>

definition tc_inv :: "client \<Rightarrow> bool" where
  "tc_inv t \<longleftrightarrow> tc_alive t \<and> (tc_conn t \<noteq> None \<longrightarrow> cn_state (tc_connector t) = kConnected) \<and>
     (\<forall>c. tc_conn t = Some c \<longrightarrow> c < length (tc_fds t)) \<and>
     (\<forall>c. life_of c t = (if c < length (tc_fds t) then
        if tc_conn t = Some c then [ConnEstablished c] else [ConnEstablished c, ConnDestroyed c] else []))"

text \<open>What the calls do to the state of the connector.\<close>

lemma StartRun_state: "StartRun fd e s = Inr s' \<Longrightarrow> cn_state s = kDisconnected"
  by (auto simp: StartRun_def)

lemma StopInLoop_state: "StopInLoop s = Inr s' \<Longrightarrow> cn_state s = kConnected \<Longrightarrow> cn_state s' = kConnected"
  by (auto simp: StopInLoop_def stop_connecting_def cancel_timer_def Let_def split: option.splits if_splits)

lemma write_callback_given:
  "write_callback err self s = Inr s' \<Longrightarrow>
   s' = s \<or> cn_state s = kConnecting \<and> (cn_given s' = cn_given s \<or> (\<exists>fd. cn_given s' = fd # cn_given s \<and> cn_state s' = kConnected))"
  by (auto simp: write_callback_def ResetChannel_def Retry_def sock_Close_def Let_def split: option.splits if_splits)

lemma error_callback_state: "error_callback s = Inr s' \<Longrightarrow> s' = s \<or> cn_state s = kConnecting"
  by (auto simp: error_callback_def split: if_splits)

lemma life_of_connector [simp]: "life_of c (t\<lparr>tc_connector := s\<rparr>) = life_of c t"
  "life_of c (t\<lparr>tc_retry := r\<rparr>) = life_of c t"
  by (simp_all add: life_of_def)

lemma tc_invD:
  assumes "tc_inv t"
  shows "tc_alive t" "tc_conn t = Some c \<Longrightarrow> cn_state (tc_connector t) = kConnected"
    "tc_conn t = Some c \<Longrightarrow> c < length (tc_fds t)"
    "life_of c t = (if c < length (tc_fds t) then
        if tc_conn t = Some c then [ConnEstablished c] else [ConnEstablished c, ConnDestroyed c] else [])"
proof -
  show "tc_alive t" "tc_conn t = Some c \<Longrightarrow> cn_state (tc_connector t) = kConnected"
    "tc_conn t = Some c \<Longrightarrow> c < length (tc_fds t)" using assms by (auto simp: tc_inv_def)
  show "life_of c t = (if c < length (tc_fds t) then
      if tc_conn t = Some c then [ConnEstablished c] else [ConnEstablished c, ConnDestroyed c] else [])"
    using assms unfolding tc_inv_def by blast
qed

lemma tc_invI:
  assumes "tc_alive t" "\<And>c. tc_conn t = Some c \<Longrightarrow> cn_state (tc_connector t) = kConnected \<and> c < length (tc_fds t)"
    "\<And>c. life_of c t = (if c < length (tc_fds t) then
        if tc_conn t = Some c then [ConnEstablished c] else [ConnEstablished c, ConnDestroyed c] else [])"
  shows "tc_inv t"
  using assms unfolding tc_inv_def by auto

text \<open>Changes that leave the connections alone.\<close>

lemma tc_inv_same:
  assumes "tc_inv t" "tc_alive t' = tc_alive t" "tc_conn t' = tc_conn t" "tc_fds t' = tc_fds t" "\<And>c. life_of c t' = life_of c t"
    "cn_state (tc_connector t) = kConnected \<Longrightarrow> cn_state (tc_connector t') = kConnected"
  shows "tc_inv t'"
  using assms(1,6) unfolding tc_inv_def assms(2-5) by auto

lemma tc_inv_connector:
  assumes "tc_inv t" "cn_state (tc_connector t) = kConnected \<Longrightarrow> cn_state s = kConnected"
  shows "tc_inv (t\<lparr>tc_connector := s\<rparr>)"
  by (rule tc_inv_same [OF assms(1)]) (use assms(2) in simp_all)

lemma NewConnection_inv:
  assumes "tc_inv t" "tc_conn t = None" "cn_state (tc_connector t) = kConnected"
  shows "tc_inv (NewConnection fd t)" "tc_fds (NewConnection fd t) = tc_fds t @ [fd]"
proof -
  note D = tc_invD [OF assms(1)]
  let ?t = "t\<lparr>tc_conn := Some (length (tc_fds t)), tc_fds := tc_fds t @ [fd], tc_log := tc_log t @ [ConnEstablished (length (tc_fds t))]\<rparr>"
  have eq: "NewConnection fd t = ?t" using D(1) assms(2) by (simp add: NewConnection_def Let_def)
  then show "tc_fds (NewConnection fd t) = tc_fds t @ [fd]" by simp
  show "tc_inv (NewConnection fd t)"
    unfolding eq
  proof (rule tc_invI)
    fix c
    have split: "filter P (tc_log t @ map ConnDestroyed (tc_functors t)) = [] \<Longrightarrow>
        filter P (tc_log t @ [x] @ map ConnDestroyed (tc_functors t)) = filter P [x]" for P x
      by (simp add: filter_empty_conv)
    have "life_of c ?t = (if c = length (tc_fds t) then [ConnEstablished c] else life_of c t)"
      using D(4) [of c] split [of "\<lambda>f. f \<in> {ConnEstablished c, ConnDestroyed c}"] by (auto simp: life_of_def)
    then show "life_of c ?t = (if c < length (tc_fds ?t) then
        if tc_conn ?t = Some c then [ConnEstablished c] else [ConnEstablished c, ConnDestroyed c] else [])"
      using D(4) [of c] assms(2) by auto
  qed (use D(1) assms(3) in simp_all)
qed

lemma CloseConnectionHandler_inv:
  assumes "tc_inv t" "tc_conn t = Some c" "CloseConnectionHandler fd e c t = Inr t'"
  shows "tc_inv t'"
proof -
  note D = tc_invD [OF assms(1)]
  let ?t = "t\<lparr>tc_conn := None, tc_functors := tc_functors t @ [c]\<rparr>"
  have "life_of d ?t = (if d = c then life_of d t @ [ConnDestroyed c] else life_of d t)" for d
    by (simp add: life_of_def)
  then have inv: "tc_inv ?t" using D assms(2) by (intro tc_invI) auto
  from assms D(1) consider "t' = ?t" | s where "t' = ?t\<lparr>tc_connector := s\<rparr>"
    by (auto simp: CloseConnectionHandler_def Let_def split: if_splits)
  then show ?thesis
  proof cases
    case 2
    show ?thesis unfolding 2 by (rule tc_invI) (use tc_invD [OF inv] in simp_all)
  qed (use inv in simp)
qed

lemma client_writable_inv:
  assumes "tc_inv t" "client_writable err self t = Inr t'"
  shows "tc_inv t' \<and> (\<forall>fd. cn_given (tc_connector t') = fd # cn_given (tc_connector t) \<longrightarrow> tc_fds t' = tc_fds t @ [fd])"
proof -
  from assms(2) obtain s where s: "write_callback err self (tc_connector t) = Inr s"
    "t' = (if cn_given s = cn_given (tc_connector t) then t\<lparr>tc_connector := s\<rparr> else NewConnection (hd (cn_given s)) (t\<lparr>tc_connector := s\<rparr>))"
    by (auto simp: client_writable_def Let_def)
  from write_callback_given [OF s(1)] consider "cn_given s = cn_given (tc_connector t)" "s = tc_connector t \<or> cn_state (tc_connector t) = kConnecting"
    | fd where "cn_given s = fd # cn_given (tc_connector t)" "cn_state s = kConnected" "cn_state (tc_connector t) = kConnecting" by blast
  then show ?thesis
  proof cases
    case 1
    then have "tc_inv (t\<lparr>tc_connector := s\<rparr>)" using assms(1) by (intro tc_inv_connector) auto
    with 1 s(2) show ?thesis by simp
  next
    case (2 fd)
    have "tc_conn t = None" using tc_invD(2) [OF assms(1)] 2(3) by (cases "tc_conn t") auto
    moreover have "tc_inv (t\<lparr>tc_connector := s\<rparr>)" by (rule tc_inv_connector) (use assms(1) 2 in auto)
    ultimately have "tc_inv (NewConnection fd (t\<lparr>tc_connector := s\<rparr>))" "tc_fds (NewConnection fd (t\<lparr>tc_connector := s\<rparr>)) = tc_fds t @ [fd]"
      "tc_connector (NewConnection fd (t\<lparr>tc_connector := s\<rparr>)) = s"
      using NewConnection_inv [of "t\<lparr>tc_connector := s\<rparr>" fd] 2(2) by (auto simp: NewConnection_def Let_def)
    with 2(1) s(2) show ?thesis by simp
  qed
qed

lemma tc_step_inv: "tc_step t t' \<Longrightarrow> tc_inv t \<Longrightarrow> tc_inv t'"
proof (induction rule: tc_step.induct)
  case (connect fd t e t')
  then show ?case by (auto simp: client_Connect_def dest: StartRun_state intro!: tc_inv_connector)
next
  case (disconnect t)
  then show ?case by (rule tc_inv_same) (simp_all add: Disconnect_def Let_def life_of_def split: option.split)
next
  case (stop t t')
  then obtain s where "StopInLoop (tc_connector t) = Inr s" "t' = t\<lparr>tc_retry := False, tc_connector := s\<rparr>"
    by (auto simp: client_Stop_def)
  with stop.prems show ?case by (intro tc_inv_same [of t t']) (auto dest: StopInLoop_state)
next
  case (writable t err self t')
  with client_writable_inv show ?case by blast
next
  case (close t c fd e t')
  then show ?case by (blast intro: CloseConnectionHandler_inv)
next
  case (functors t)
  then show ?case by (rule tc_inv_same) (simp_all add: client_functors_def run_functors_def life_of_def)
next
  case (timer fd t i e s)
  then show ?case by (auto simp: timer_fires_def dest: StartRun_state intro!: tc_inv_connector)
next
  case (err t s)
  then show ?case by (auto dest: error_callback_state intro!: tc_inv_connector)
next
  case (owner fd t)
  then show ?case by (auto simp: owner_closes_def intro!: tc_inv_connector)
next
  case (retry t)
  then show ?case by (rule tc_inv_same) (simp_all add: EnableRetry_def)
qed

lemma tc_reach_inv: "tc_step\<^sup>*\<^sup>* (NewTcpClient other) t \<Longrightarrow> tc_inv t"
proof (induction rule: rtranclp_induct)
  case base
  show ?case by (rule tc_invI) (simp_all add: NewTcpClient_def life_of_def)
qed (rule tc_step_inv)

text \<open>C23. A client has one connection at a time and loses none. Whatever its user and the loop do, in any order, every connection
  it made has been established once; the one it keeps has not been destroyed, every other has been, once; and every socket
  that the connector hands over becomes a connection.\<close>

theorem TcpClient_lifecycle:
  assumes "tc_step\<^sup>*\<^sup>* (NewTcpClient other) t"
  shows "(\<forall>c < length (tc_fds t).
      filter (\<lambda>f. f \<in> {ConnEstablished c, ConnDestroyed c}) (tc_log t @ map ConnDestroyed (tc_functors t)) =
        (if tc_conn t = Some c then [ConnEstablished c] else [ConnEstablished c, ConnDestroyed c])) \<and>
    (\<forall>err self t' fd. client_writable err self t = Inr t' \<and> cn_given (tc_connector t') = fd # cn_given (tc_connector t) \<longrightarrow>
      tc_fds t' = tc_fds t @ [fd])"
proof -
  have inv: "tc_inv t" by (rule tc_reach_inv) (rule assms)
  have "\<forall>c < length (tc_fds t). life_of c t = (if tc_conn t = Some c then [ConnEstablished c] else [ConnEstablished c, ConnDestroyed c])"
    using tc_invD(4) [OF inv] by simp
  then show ?thesis using client_writable_inv [OF inv] unfolding life_of_def by blast
qed

theorem TcpClient_lifecycle_witness:
  "\<exists>t t'. tc_step\<^sup>*\<^sup>* (NewTcpClient False) t \<and> client_writable 0 False t = Inr t' \<and> tc_fds t' = [7]"
proof -
  let ?t = "(NewTcpClient False)\<lparr>tc_connector := demo_connecting\<rparr>"
  let ?s = "demo_connecting\<lparr>cn_channel := Some (7, False), cn_functors := 1, cn_state := kConnected, cn_given := [7]\<rparr>"
  have "tc_step (NewTcpClient False) ?t"
    by (rule tc_step.connect [where fd = 7 and e = 115])
       (simp_all add: NewTcpClient_def demo_connecting_def client_Connect_def Connector_def StartRun_def Connect_def
         CompleteConnect_def pending_errno_def)
  then have r: "tc_step\<^sup>*\<^sup>* (NewTcpClient False) ?t" by (rule r_into_rtranclp)
  have w: "client_writable 0 False ?t = Inr (NewConnection 7 (?t\<lparr>tc_connector := ?s\<rparr>))"
    by (simp add: client_writable_def demo_connecting_def write_callback_def ResetChannel_def Connector_def)
  have "cn_given (tc_connector (NewConnection 7 (?t\<lparr>tc_connector := ?s\<rparr>))) = 7 # cn_given (tc_connector ?t)"
    by (simp add: NewConnection_def NewTcpClient_def demo_connecting_def Connector_def)
  with TcpClient_lifecycle [OF r] w have "tc_fds (NewConnection 7 (?t\<lparr>tc_connector := ?s\<rparr>)) = tc_fds ?t @ [7]" by blast
  moreover have "tc_fds ?t = []" by (simp add: NewTcpClient_def)
  ultimately show ?thesis using r w by auto
qed

section \<open>Reconnecting and destruction\<close>

text \<open>A closed connection restarts the connector if and only if retrying is enabled; \<open>Disconnect\<close> and \<open>Stop\<close> disable it.\<close>

lemma CloseConnectionHandler_no_retry:
  assumes "tc_alive t" "tc_conn t = Some c" "\<not> tc_retry t"
  shows "CloseConnectionHandler fd e c t = Inr (t\<lparr>tc_conn := None, tc_functors := tc_functors t @ [c]\<rparr>)"
  using assms by (simp add: CloseConnectionHandler_def)

lemma CloseConnectionHandler_retry:
  assumes "tc_alive t" "tc_conn t = Some c" "tc_retry t" "cn_channel (tc_connector t) = None" "e \<in> pending_errno"
  shows "\<exists>t'. CloseConnectionHandler fd e c t = Inr t' \<and> tc_conn t' = None \<and> cn_state (tc_connector t') = kConnecting \<and>
    cn_channel (tc_connector t') = Some (fd, True) \<and> cn_retry_interval (tc_connector t') = 500"
  using assms by (simp add: CloseConnectionHandler_def Restrat_def StartRun_def Connect_def CompleteConnect_def Let_def)

text \<open>A destroyed client does not destroy its connection: the close callback returns without queueing \<open>ConnectionDestroyed\<close>, so
  that the channel stays in the poller. A socket that is connected after the destruction is neither used nor closed.\<close>

lemma client_dtor_leaks:
  assumes "client_dtor u t = Inr t'"
  shows "CloseConnectionHandler fd e c t' = Inr t'" "NewConnection sockfd t' = t'"
  using assms by (auto simp: client_dtor_def CloseConnectionHandler_def NewConnection_def)

end
