(* ===== verification/Rpc_Channel.thy ===== *)
theory Rpc_Channel
  imports Kanon_Prelude "HOL-Library.Multiset"
begin

text \<open>
  Model of \<^verbatim>\<open>kanon/rpc/rpc_channel.{h,cc}\<close>, \<^verbatim>\<open>kanon/rpc/rpc_controller.{h,cc}\<close> and \<^verbatim>\<open>kanon/rpc/rpc.proto\<close>: remote calls over one
  connection. Messages are records of their optional fields. Protobuf's parsing of requests and responses and the services
  are parameters. The closures of the client are numbered; running one is recorded with the response it gets.
\<close>

section \<open>Messages\<close>

datatype rpc_error = kNoError | kInvalidMessage | kNoService | kNoMethod | kInvalidRequest | kInvalidResponse | kCancelRpc

datatype rpc_type = kResponse | kRequest

record rpc_message =
  rm_type :: rpc_type
  rm_id :: "64 word"
  rm_service :: "string option"
  rm_method :: "string option"
  rm_request :: "bytes option"
  rm_response :: "bytes option"
  rm_error :: "rpc_error option"
  rm_deadline :: "64 word option"

definition empty_message :: "rpc_type \<Rightarrow> 64 word \<Rightarrow> rpc_message" where
  "empty_message ty i = \<lparr>rm_type = ty, rm_id = i, rm_service = None, rm_method = None, rm_request = None, rm_response = None,
     rm_error = None, rm_deadline = None\<rparr>"

fun GetRpcErrorString :: "rpc_error \<Rightarrow> string" where
  "GetRpcErrorString kNoError = ''No Error''"
| "GetRpcErrorString kNoMethod = ''No Method''"
| "GetRpcErrorString kNoService = ''No Service''"
| "GetRpcErrorString kInvalidMessage = ''Invalid Message''"
| "GetRpcErrorString kInvalidRequest = ''Invalid Request''"
| "GetRpcErrorString kInvalidResponse = ''Invalid Response''"
| "GetRpcErrorString kCancelRpc = ''Unknown Error''"

section \<open>The controller\<close>

abbreviation (input) INVALID_DEADLINE :: "64 word" where "INVALID_DEADLINE \<equiv> - 1"

definition RpcController :: "64 word" where
  "RpcController = INVALID_DEADLINE"

definition SetTimeout :: "64 word \<Rightarrow> 64 word \<Rightarrow> 64 word" where
  "SetTimeout now_ms timeout = now_ms + timeout"

definition SetDeadline :: "64 word \<Rightarrow> 64 word \<Rightarrow> 64 word" where
  "SetDeadline dead_line deadline = dead_line"

definition controller_Reset :: "64 word \<Rightarrow> 64 word" where
  "controller_Reset deadline = INVALID_DEADLINE"

definition IsCanceled :: "64 word \<Rightarrow> 64 word \<Rightarrow> bool" where
  "IsCanceled now_ms deadline = (if deadline \<noteq> INVALID_DEADLINE then deadline < now_ms else False)"

section \<open>The client side\<close>

text \<open>An outstanding call: whether a response object was given, and the closure. The timers that drop calls are their ids with
  the deadlines.\<close>

record rpc_channel =
  rc_id :: "64 word"
  rc_calls :: "64 word \<rightharpoonup> bool \<times> nat"
  rc_out :: "rpc_message list"
  rc_timers :: "(64 word \<times> 64 word) list"
  rc_done :: "(nat \<times> bytes) list"

text \<open>The constructor for servers sets the counter to 0. The one for clients is defaulted and leaves the \<open>std::atomic\<close>
  uninitialized, so the first id is an argument.\<close>

definition RpcChannel :: "64 word \<Rightarrow> rpc_channel" where
  "RpcChannel i = \<lparr>rc_id = i, rc_calls = Map.empty, rc_out = [], rc_timers = [], rc_done = []\<rparr>"

text \<open>\<open>CallMethod\<close> reads the counter and increments it in two steps, and sends the request in the loop. \<open>emplace\<close> does not
  replace an entry.\<close>

definition call_load :: "rpc_channel \<Rightarrow> 64 word" where
  "call_load ch = rc_id ch"

definition call_add :: "rpc_channel \<Rightarrow> rpc_channel" where
  "call_add ch = ch\<lparr>rc_id := rc_id ch + 1\<rparr>"

definition request_message :: "64 word \<Rightarrow> string \<Rightarrow> string \<Rightarrow> bytes \<Rightarrow> rpc_message" where
  "request_message i service method request =
     (empty_message kRequest i)\<lparr>rm_request := Some request, rm_method := Some method, rm_service := Some service\<rparr>"

text \<open>The controller is its deadline, or null.\<close>

definition SendRpcRequest :: "rpc_message \<Rightarrow> bool \<Rightarrow> nat option \<Rightarrow> 64 word option \<Rightarrow> rpc_channel \<Rightarrow> rpc_channel res" where
  "SendRpcRequest message response done controller ch =
     rbind (case done of
         Some k \<Rightarrow> Inr (if rc_calls ch (rm_id message) = None
           then ch\<lparr>rc_calls := (rc_calls ch)(rm_id message \<mapsto> (response, k))\<rparr> else ch)
       | None \<Rightarrow> rbind (assertR (\<not> response)) (\<lambda>_. Inr ch)) (\<lambda>ch.
     rbind (case controller of None \<Rightarrow> Inl NullDeref | Some d \<Rightarrow> Inr d) (\<lambda>deadline.
     let message = (if deadline \<noteq> INVALID_DEADLINE then message\<lparr>rm_deadline := Some deadline\<rparr> else message);
         ch = ch\<lparr>rc_out := rc_out ch @ [message]\<rparr>
     in Inr (if deadline \<noteq> INVALID_DEADLINE
             then ch\<lparr>rc_timers := rc_timers ch @ [(rm_id message, deadline)]\<rparr> else ch)))"

definition CallMethod ::
  "string \<Rightarrow> string \<Rightarrow> bytes \<Rightarrow> bool \<Rightarrow> nat option \<Rightarrow> 64 word option \<Rightarrow> rpc_channel \<Rightarrow> rpc_channel res" where
  "CallMethod service method request response done controller ch =
     (let i = call_load ch; ch = call_add ch in
      SendRpcRequest (request_message i service method request) response done controller ch)"

definition deadline_timer :: "64 word \<Rightarrow> rpc_channel \<Rightarrow> rpc_channel" where
  "deadline_timer i ch = ch\<lparr>rc_calls := (rc_calls ch)(i := None)\<rparr>"

text \<open>\<open>parse k bs\<close> tells whether the response object of closure \<open>k\<close> parses \<open>bs\<close>.\<close>

definition OnRpcMessageForResponse :: "(nat \<Rightarrow> bytes \<Rightarrow> bool) \<Rightarrow> rpc_message \<Rightarrow> rpc_channel \<Rightarrow> rpc_channel res" where
  "OnRpcMessageForResponse parse message ch =
     (if rm_error message = None then
        (case rm_response message of
           None \<Rightarrow> Inl AssertFail
         | Some body \<Rightarrow>
             rbind (assertR (rm_id message \<le> rc_id ch)) (\<lambda>_.
             case rc_calls ch (rm_id message) of
               None \<Rightarrow> Inr ch
             | Some (response, done) \<Rightarrow>
                 let ch = ch\<lparr>rc_calls := (rc_calls ch)(rm_id message := None)\<rparr> in
                 rbind (assertR response) (\<lambda>_.
                 rbind (assertR (parse done body)) (\<lambda>_.
                 Inr (ch\<lparr>rc_done := rc_done ch @ [(done, body)]\<rparr>)))))
      else rbind (assertR (rc_calls ch (rm_id message) \<noteq> None)) (\<lambda>_. Inl Fatal))"

section \<open>The server side\<close>

text \<open>A service maps the names of its methods to the parsers of their requests. What a request leads to: an error response, or
  a call of the method, whose closure sends the response when the method is done.\<close>

type_synonym 'r services = "string \<rightharpoonup> (string \<rightharpoonup> (bytes \<Rightarrow> 'r option))"

datatype 'r served = ServeError rpc_error | ServeCall string string 'r "64 word"

definition OnRpcMessageForRequest :: "'r services \<Rightarrow> rpc_message \<Rightarrow> 'r served" where
  "OnRpcMessageForRequest services message =
     (case (rm_request message, rm_service message, rm_method message) of
        (Some request, Some service, Some method) \<Rightarrow>
          (case services service of
             None \<Rightarrow> ServeError kNoService
           | Some methods \<Rightarrow>
               (case methods method of
                  None \<Rightarrow> ServeError kNoMethod
                | Some parse_request \<Rightarrow>
                    (case parse_request request of
                       None \<Rightarrow> ServeError kInvalidRequest
                     | Some r \<Rightarrow>
                         ServeCall service method r
                           (case rm_deadline message of None \<Rightarrow> RpcController | Some d \<Rightarrow> SetDeadline d RpcController))))
      | _ \<Rightarrow> ServeError kInvalidMessage)"

definition ErrorHandle :: "64 word \<Rightarrow> rpc_error \<Rightarrow> rpc_message" where
  "ErrorHandle i error_code = (empty_message kResponse i)\<lparr>rm_error := Some error_code\<rparr>"

definition SendRpcResponse :: "bytes \<Rightarrow> 64 word \<Rightarrow> rpc_message" where
  "SendRpcResponse response i = (empty_message kResponse i)\<lparr>rm_response := Some response\<rparr>"

text \<open>The message that answers a request, when the methods compute \<open>f\<close>.\<close>

definition serve :: "'r services \<Rightarrow> (string \<Rightarrow> string \<Rightarrow> 'r \<Rightarrow> bytes) \<Rightarrow> rpc_message \<Rightarrow> rpc_message" where
  "serve services f message =
     (case OnRpcMessageForRequest services message of
        ServeError e \<Rightarrow> ErrorHandle (rm_id message) e
      | ServeCall service method r d \<Rightarrow> SendRpcResponse (f service method r) (rm_id message))"

text \<open>\<open>OnRpcMessage\<close> on a channel that is used as a client and as a server.\<close>

definition OnRpcMessage ::
  "(nat \<Rightarrow> bytes \<Rightarrow> bool) \<Rightarrow> 'r services \<Rightarrow> (string \<Rightarrow> string \<Rightarrow> 'r \<Rightarrow> bytes) \<Rightarrow> rpc_message \<Rightarrow> rpc_channel \<Rightarrow> rpc_channel res" where
  "OnRpcMessage parse services f message ch =
     (if rm_type message = kResponse then OnRpcMessageForResponse parse message ch
      else Inr (ch\<lparr>rc_out := rc_out ch @ [serve services f message]\<rparr>))"


section \<open>Every call is answered\<close>

text \<open>A client that makes the calls of a list, with the closures numbered from \<open>k\<close>, and receives messages.\<close>

fun issue :: "nat \<Rightarrow> (string \<times> string \<times> bytes) list \<Rightarrow> rpc_channel \<Rightarrow> rpc_channel res" where
  "issue k [] ch = Inr ch"
| "issue k ((service, method, request) # cs) ch =
     rbind (CallMethod service method request True (Some k) (Some RpcController) ch) (issue (Suc k) cs)"

fun deliver :: "(nat \<Rightarrow> bytes \<Rightarrow> bool) \<Rightarrow> rpc_message list \<Rightarrow> rpc_channel \<Rightarrow> rpc_channel res" where
  "deliver parse [] ch = Inr ch"
| "deliver parse (m # ms) ch = rbind (OnRpcMessageForResponse parse m ch) (deliver parse ms)"

text \<open>The calls in \<open>J\<close> are outstanding; call \<open>j\<close> has the id \<open>b + j\<close> and closure \<open>j\<close>.\<close>

definition outstanding :: "nat \<Rightarrow> nat set \<Rightarrow> rpc_channel \<Rightarrow> bool" where
  "outstanding b J ch \<longleftrightarrow> (\<forall>i. rc_calls ch i = (if b \<le> unat i \<and> unat i - b \<in> J then Some (True, unat i - b) else None))"

definition request_of :: "nat \<Rightarrow> string \<times> string \<times> bytes \<Rightarrow> rpc_message" where
  "request_of i c = (case c of (service, method, request) \<Rightarrow> request_message (of_nat i) service method request)"

lemma unat_id: "k < 2 ^ 64 \<Longrightarrow> unat (of_nat k :: 64 word) = k"
  by (rule unat_of_nat_usize)

lemma id_eq: "k < 2 ^ 64 \<Longrightarrow> i = (of_nat k :: 64 word) \<longleftrightarrow> unat i = k"
  by (simp only: word_unat_eq_iff unat_id)

lemma CallMethod_call:
  assumes "rc_id ch = of_nat (b + k)" "outstanding b {..<k} ch" "b + k < 2 ^ 64"
  shows "\<exists>ch'. CallMethod s m q True (Some k) (Some RpcController) ch = Inr ch' \<and> rc_id ch' = of_nat (b + Suc k) \<and>
    outstanding b {..<Suc k} ch' \<and> rc_out ch' = rc_out ch @ [request_of (b + k) (s, m, q)] \<and> rc_done ch' = rc_done ch"
proof -
  let ?i = "of_nat (b + k) :: 64 word"
  have u: "unat ?i = b + k" by (rule unat_id) (rule assms(3))
  then have none: "rc_calls ch ?i = None" using assms(2) unfolding outstanding_def u by (simp only: u) simp
  let ?ch = "ch\<lparr>rc_id := of_nat (b + Suc k), rc_calls := (rc_calls ch)(?i \<mapsto> (True, k)), rc_out := rc_out ch @ [request_of (b + k) (s, m, q)]\<rparr>"
  have "rc_calls ?ch i = (if b \<le> unat i \<and> unat i - b \<in> {..<Suc k} then Some (True, unat i - b) else None)" for i
  proof (cases "i = ?i")
    case True
    then show ?thesis using u by simp
  next
    case False
    then have "unat i \<noteq> b + k" using id_eq [OF assms(3)] by simp
    then have "b \<le> unat i \<and> unat i - b < Suc k \<longleftrightarrow> b \<le> unat i \<and> unat i - b < k" by linarith
    then show ?thesis using False assms(2) by (simp add: outstanding_def)
  qed
  then have "outstanding b {..<Suc k} ?ch" unfolding outstanding_def by blast
  moreover have "CallMethod s m q True (Some k) (Some RpcController) ch = Inr ?ch"
    using none assms(1) by (simp add: CallMethod_def call_load_def call_add_def SendRpcRequest_def request_message_def
        empty_message_def RpcController_def request_of_def Let_def algebra_simps)
  ultimately show ?thesis by simp
qed

lemma issue_calls:
  assumes "rc_id ch = of_nat (b + k)" "outstanding b {..<k} ch" "b + k + length cs < 2 ^ 64"
  shows "\<exists>ch'. issue k cs ch = Inr ch' \<and> rc_id ch' = of_nat (b + k + length cs) \<and> outstanding b {..<k + length cs} ch' \<and>
    rc_out ch' = rc_out ch @ map (\<lambda>j. request_of (b + k + j) (cs ! j)) [0..<length cs] \<and> rc_done ch' = rc_done ch"
  using assms
proof (induction cs arbitrary: k ch)
  case (Cons c cs)
  obtain s m q where c: "c = (s, m, q)" by (cases c)
  from CallMethod_call [OF Cons.prems(1,2), of s m q] Cons.prems(3) obtain ch1 where ch1:
    "CallMethod s m q True (Some k) (Some RpcController) ch = Inr ch1" "rc_id ch1 = of_nat (b + Suc k)" "outstanding b {..<Suc k} ch1"
    "rc_out ch1 = rc_out ch @ [request_of (b + k) c]" "rc_done ch1 = rc_done ch" by (auto simp: c)
  from Cons.IH [OF ch1(2,3)] Cons.prems(3) obtain ch2 where ch2: "issue (Suc k) cs ch1 = Inr ch2"
    "rc_id ch2 = of_nat (b + Suc k + length cs)" "outstanding b {..<Suc k + length cs} ch2"
    "rc_out ch2 = rc_out ch1 @ map (\<lambda>j. request_of (b + Suc k + j) (cs ! j)) [0..<length cs]" "rc_done ch2 = rc_done ch1"
    by auto
  have "map (\<lambda>j. request_of (b + k + j) ((c # cs) ! j)) [0..<length (c # cs)] =
      request_of (b + k) c # map (\<lambda>j. request_of (b + Suc k + j) (cs ! j)) [0..<length cs]"
    by (simp add: upt_conv_Cons map_Suc_upt [symmetric] del: upt_Suc)
  with ch1 ch2 show ?case by (simp add: c)
qed simp

text \<open>Responses to outstanding calls, in any order.\<close>

lemma deliver_responses:
  assumes "outstanding b J ch" "set js \<subseteq> J" "distinct js" "\<forall>j \<in> J. b + j < 2 ^ 64 \<and> of_nat (b + j) \<le> rc_id ch"
    "\<forall>j \<in> set js. parse j (rep j)"
  shows "\<exists>ch'. deliver parse (map (\<lambda>j. SendRpcResponse (rep j) (of_nat (b + j))) js) ch = Inr ch' \<and> outstanding b (J - set js) ch' \<and>
    rc_done ch' = rc_done ch @ map (\<lambda>j. (j, rep j)) js"
  using assms
proof (induction js arbitrary: J ch)
  case (Cons j js)
  let ?i = "of_nat (b + j) :: 64 word"
  have j: "j \<in> J" "b + j < 2 ^ 64" "?i \<le> rc_id ch" using Cons.prems(2,4) by auto
  have u: "unat ?i = b + j" by (rule unat_id) (rule j(2))
  have "rc_calls ch ?i = (if b \<le> b + j \<and> b + j - b \<in> J then Some (True, b + j - b) else None)"
    using Cons.prems(1) unfolding outstanding_def by (simp only: u)
  then have call: "rc_calls ch ?i = Some (True, j)" using j(1) by simp
  let ?ch = "ch\<lparr>rc_calls := (rc_calls ch)(?i := None), rc_done := rc_done ch @ [(j, rep j)]\<rparr>"
  have one: "OnRpcMessageForResponse parse (SendRpcResponse (rep j) ?i) ch = Inr ?ch"
    using call j(3) Cons.prems(5) by (simp add: OnRpcMessageForResponse_def SendRpcResponse_def empty_message_def)
  have "rc_calls ?ch i = (if b \<le> unat i \<and> unat i - b \<in> J - {j} then Some (True, unat i - b) else None)" for i
  proof (cases "i = ?i")
    case True
    then show ?thesis using u by simp
  next
    case False
    then have "unat i \<noteq> b + j" using id_eq [OF j(2)] by simp
    then have "b \<le> unat i \<Longrightarrow> unat i - b \<noteq> j" by linarith
    then show ?thesis using False Cons.prems(1) by (auto simp: outstanding_def)
  qed
  then have "outstanding b (J - {j}) ?ch" unfolding outstanding_def by blast
  from Cons.IH [OF this] Cons.prems obtain ch' where
    "deliver parse (map (\<lambda>j. SendRpcResponse (rep j) (of_nat (b + j))) js) ?ch = Inr ch'" "outstanding b (J - {j} - set js) ch'"
    "rc_done ch' = rc_done ?ch @ map (\<lambda>j. (j, rep j)) js" by auto
  moreover have "J - {j} - set js = J - set (j # js)" by auto
  ultimately show ?case using one by simp
qed simp

definition handled :: "'r services \<Rightarrow> string \<times> string \<times> bytes \<Rightarrow> bool" where
  "handled S c = (case c of (s, m, q) \<Rightarrow>
     (case S s of None \<Rightarrow> False | Some M \<Rightarrow> (case M m of None \<Rightarrow> False | Some p \<Rightarrow> p q \<noteq> None)))"

definition reply :: "'r services \<Rightarrow> (string \<Rightarrow> string \<Rightarrow> 'r \<Rightarrow> bytes) \<Rightarrow> string \<times> string \<times> bytes \<Rightarrow> bytes" where
  "reply S f c = (case c of (s, m, q) \<Rightarrow> f s m (the (the (the (S s) m) q)))"

lemma serve_handled: "handled S c \<Longrightarrow> serve S f (request_of i c) = SendRpcResponse (reply S f c) (of_nat i)"
  by (auto simp: handled_def serve_def OnRpcMessageForRequest_def request_of_def request_message_def empty_message_def reply_def
      split: prod.splits option.splits)

text \<open>C6. Every call is answered, with its own answer. One thread makes a list of calls of methods that the server has, with requests
  these methods parse, each with a response object that parses the result, a closure and a controller that has no deadline;
  the counter of ids, whatever value it starts from, does not reach its maximum. The server's responses come back in any order: no
  assertion fails, every closure is run exactly once, in the order of the responses, with the result of the method for the request of its own
  call, and no call stays outstanding.\<close>

theorem rpc_calls_answered:
  assumes "unat i + length cs < 2 ^ 64" "\<forall>c \<in> set cs. handled S c" "mset js = mset [0..<length cs]"
    "\<forall>j < length cs. parse j (reply S f (cs ! j))"
  shows "\<exists>ch ch'. issue 0 cs (RpcChannel i) = Inr ch \<and> length (rc_out ch) = length cs \<and>
    deliver parse (map (\<lambda>j. serve S f (rc_out ch ! j)) js) ch = Inr ch' \<and>
    rc_done ch' = map (\<lambda>j. (j, reply S f (cs ! j))) js \<and> rc_calls ch' = Map.empty"
proof -
  let ?n = "length cs" and ?b = "unat i"
  have "outstanding ?b {..<0} (RpcChannel i)" "rc_id (RpcChannel i) = of_nat (?b + 0)" by (simp_all add: outstanding_def RpcChannel_def)
  from issue_calls [OF this(2,1), of cs] assms(1) obtain ch where ch: "issue 0 cs (RpcChannel i) = Inr ch"
    "rc_id ch = of_nat (?b + ?n)" "outstanding ?b {..<?n} ch" "rc_out ch = map (\<lambda>j. request_of (?b + j) (cs ! j)) [0..<?n]" "rc_done ch = []"
    by (auto simp: RpcChannel_def)
  have js: "set js = {..<?n}" "distinct js"
    using assms(3) mset_eq_setD [OF assms(3)] mset_eq_imp_distinct_iff [OF assms(3)] by (auto simp: lessThan_atLeast0)
  have sv: "map (\<lambda>j. serve S f (rc_out ch ! j)) js = map (\<lambda>j. SendRpcResponse (reply S f (cs ! j)) (of_nat (?b + j))) js"
    by (rule map_cong) (use js(1) assms(2) in \<open>auto simp: ch(4) serve_handled simp del: of_nat_add\<close>)
  have "?b + j < 2 ^ 64 \<and> of_nat (?b + j) \<le> rc_id ch" if "j < ?n" for j
    using that assms(1) unat_id [of "?b + j"] unat_id [of "?b + ?n"] unfolding ch(2) word_le_nat_alt by linarith
  then have "\<forall>j \<in> {..<?n}. ?b + j < 2 ^ 64 \<and> of_nat (?b + j) \<le> rc_id ch" by blast
  from deliver_responses [OF ch(3) _ js(2) this, of parse "\<lambda>j. reply S f (cs ! j)"] js(1) assms(4)
  obtain ch' where ch': "deliver parse (map (\<lambda>j. SendRpcResponse (reply S f (cs ! j)) (of_nat (?b + j))) js) ch = Inr ch'"
    "outstanding ?b {} ch'" "rc_done ch' = map (\<lambda>j. (j, reply S f (cs ! j))) js" by (auto simp: ch(5))
  have "rc_calls ch' = Map.empty" using ch'(2) by (auto simp: outstanding_def)
  moreover have "length (rc_out ch) = ?n" by (simp add: ch(4))
  ultimately show ?thesis using ch(1) ch'(1,3) unfolding sv [symmetric] by blast
qed

text \<open>Two calls of a method that doubles a byte, answered in the reverse order.\<close>

definition demo_services :: "8 word services" where
  "demo_services = [''calc'' \<mapsto> [''twice'' \<mapsto> (\<lambda>q. case q of [x] \<Rightarrow> Some x | _ \<Rightarrow> None)]]"

theorem rpc_calls_answered_witness:
  "\<exists>ch ch'. issue 0 [(''calc'', ''twice'', [2]), (''calc'', ''twice'', [5])] (RpcChannel 7) = Inr ch \<and>
     deliver (\<lambda>_ _. True) (map (\<lambda>j. serve demo_services (\<lambda>_ _ x. [2 * x]) (rc_out ch ! j)) [1, 0]) ch = Inr ch' \<and>
     rc_done ch' = [(1, [10]), (0, [4])]"
proof -
  let ?cs = "[(''calc'', ''twice'', [2]), (''calc'', ''twice'', [5])]" and ?f = "\<lambda>_ _ x. [2 * x]"
  have h: "unat (7 :: 64 word) + length ?cs < 2 ^ 64" "\<forall>c \<in> set ?cs. handled demo_services c" "mset [1, 0] = mset [0..<length ?cs]"
    "\<forall>j < length ?cs. (\<lambda>_ _. True) j (reply demo_services ?f (?cs ! j))"
    by (simp_all add: handled_def demo_services_def add_mset_commute)
  have eq: "map (\<lambda>j. (j, reply demo_services ?f (?cs ! j))) [1, 0] = [(1, [10]), (0, [4])]"
    by (simp add: reply_def demo_services_def)
  from rpc_calls_answered [OF h] obtain ch ch' where r: "issue 0 ?cs (RpcChannel 7) = Inr ch"
    "deliver (\<lambda>_ _. True) (map (\<lambda>j. serve demo_services ?f (rc_out ch ! j)) [1, 0]) ch = Inr ch'"
    "rc_done ch' = map (\<lambda>j. (j, reply demo_services ?f (?cs ! j))) [1, 0]" by blast
  then show ?thesis by (intro exI [of _ ch] exI [of _ ch'] conjI r(1,2)) (simp only: eq)
qed

section \<open>No closure is run twice\<close>

text \<open>A client whose peer may send any response, also repeated or unasked ones, and whose calls may have deadlines. The closure
  of a call is numbered like the call; the counter does not wrap around.\<close>

inductive rpc_step :: "(nat \<Rightarrow> bytes \<Rightarrow> bool) \<Rightarrow> rpc_channel \<Rightarrow> rpc_channel \<Rightarrow> bool" for parse where
  call: "rc_id ch \<noteq> - 1 \<Longrightarrow> dn \<in> {None, Some (unat (rc_id ch))} \<Longrightarrow> CallMethod s m q r dn d ch = Inr ch' \<Longrightarrow> rpc_step parse ch ch'"
| response: "OnRpcMessageForResponse parse msg ch = Inr ch' \<Longrightarrow> rpc_step parse ch ch'"
| expired: "(i, d) \<in> set (rc_timers ch) \<Longrightarrow> rpc_step parse ch (deadline_timer i ch)"

definition done_inv :: "rpc_channel \<Rightarrow> bool" where
  "done_inv ch \<longleftrightarrow> distinct (map fst (rc_done ch)) \<and> (\<forall>k \<in> set (map fst (rc_done ch)). k < unat (rc_id ch)) \<and>
     (\<forall>i r k. rc_calls ch i = Some (r, k) \<longrightarrow> k = unat i \<and> i < rc_id ch \<and> k \<notin> set (map fst (rc_done ch)))"

lemma CallMethod_fields:
  assumes "CallMethod s m q r done d ch = Inr ch'"
  shows "rc_done ch' = rc_done ch" "rc_id ch' = rc_id ch + 1"
    "rc_calls ch' = rc_calls ch \<or> (\<exists>k. done = Some k \<and> rc_calls ch' = (rc_calls ch)(rc_id ch \<mapsto> (r, k)))"
  using assms by (auto simp: CallMethod_def call_load_def call_add_def SendRpcRequest_def request_message_def empty_message_def
      Let_def split: option.splits if_splits)

lemma done_inv_call:
  assumes "done_inv ch" "rc_id ch \<noteq> - 1" "done \<in> {None, Some (unat (rc_id ch))}" "CallMethod s m q r done d ch = Inr ch'"
  shows "done_inv ch'"
proof -
  note F = CallMethod_fields [OF assms(4)]
  have "rc_id ch < - 1" using assms(2) unat_usize_less [of "rc_id ch"] by (simp add: word_less_nat_alt word_unat_eq_iff)
  then have u: "unat (rc_id ch + 1) = Suc (unat (rc_id ch))" by (rule unat_suc_usize)
  have lt: "i < rc_id ch + 1 \<longleftrightarrow> i \<le> rc_id ch" for i by (simp add: word_less_nat_alt word_le_nat_alt u less_Suc_eq_le)
  from F(3) show ?thesis
  proof
    assume "rc_calls ch' = rc_calls ch"
    with assms(1) F(1,2) show ?thesis by (fastforce simp: done_inv_def u lt intro: less_SucI)
  next
    assume "\<exists>k. done = Some k \<and> rc_calls ch' = (rc_calls ch)(rc_id ch \<mapsto> (r, k))"
    with assms(3) have "rc_calls ch' = (rc_calls ch)(rc_id ch \<mapsto> (r, unat (rc_id ch)))" by auto
    with assms(1) F(1,2) show ?thesis by (fastforce simp: done_inv_def u lt intro: less_SucI)
  qed
qed

lemma done_inv_response:
  assumes "done_inv ch" "OnRpcMessageForResponse parse msg ch = Inr ch'"
  shows "done_inv ch'"
proof -
  from assms(2) consider "ch' = ch" | r k body where "rc_calls ch (rm_id msg) = Some (r, k)"
    "ch' = ch\<lparr>rc_calls := (rc_calls ch)(rm_id msg := None), rc_done := rc_done ch @ [(k, body)]\<rparr>"
    by (auto simp: OnRpcMessageForResponse_def Let_def split: if_splits option.splits)
  then show ?thesis
  proof cases
    case (2 r k body)
    with assms(1) have k: "k = unat (rm_id msg)" "rm_id msg < rc_id ch" "k \<notin> set (map fst (rc_done ch))"
      unfolding done_inv_def by blast+
    have "k' \<noteq> k" if "rc_calls ch i = Some (r', k')" "i \<noteq> rm_id msg" for i r' k'
      using assms(1) that k(1) unfolding done_inv_def by (metis word_unat_eq_iff)
    with assms(1) k show ?thesis unfolding 2 by (fastforce simp: done_inv_def word_less_nat_alt)
  qed (use assms(1) in simp)
qed

text \<open>C26. No closure is run twice. Whatever the peer sends, however often and in whatever order, and whichever deadlines expire,
  the closure of a call is run at most once, and the closure of an outstanding call has not been run.\<close>

theorem rpc_done_at_most_once:
  assumes "(rpc_step parse)\<^sup>*\<^sup>* (RpcChannel i) ch"
  shows "distinct (map fst (rc_done ch)) \<and> (\<forall>i r k. rc_calls ch i = Some (r, k) \<longrightarrow> k \<notin> fst ` set (rc_done ch))"
proof -
  have "done_inv ch" using assms
  proof (induction rule: rtranclp_induct)
    case base
    show ?case by (simp add: done_inv_def RpcChannel_def)
  next
    case (step ch ch')
    from step.hyps(2) step.IH show ?case
    proof (induction rule: rpc_step.induct)
      case (call ch dn s m q r d ch')
      from call.prems call.hyps show ?case by (rule done_inv_call)
    next
      case (response msg ch ch')
      from response.prems response.hyps show ?case by (rule done_inv_response)
    next
      case (expired i d ch)
      then show ?case by (auto simp: done_inv_def deadline_timer_def)
    qed
  qed
  then show ?thesis unfolding done_inv_def by (metis set_map)
qed

theorem rpc_done_at_most_once_witness:
  "\<exists>ch. (rpc_step (\<lambda>_ _. True))\<^sup>*\<^sup>* (RpcChannel 0) ch \<and> rc_done ch = [(0, [9])] \<and> distinct (map fst (rc_done ch))"
proof -
  let ?c1 = "\<lparr>rc_id = 1, rc_calls = [0 \<mapsto> (True, 0)], rc_out = [request_message 0 ''s'' ''m'' []], rc_timers = [], rc_done = []\<rparr>"
  let ?c2 = "?c1\<lparr>rc_calls := Map.empty, rc_done := [(0, [9])]\<rparr>"
  have "rpc_step (\<lambda>_ _. True) (RpcChannel 0) ?c1"
    by (rule rpc_step.call [where s = "''s''" and m = "''m''" and q = "[]" and r = True and d = "Some (- 1)" and dn = "Some 0"])
       (simp_all add: RpcChannel_def CallMethod_def call_load_def call_add_def SendRpcRequest_def request_message_def empty_message_def)
  moreover have "rpc_step (\<lambda>_ _. True) ?c1 ?c2"
    by (rule rpc_step.response [where msg = "SendRpcResponse [9] 0"])
       (simp add: OnRpcMessageForResponse_def SendRpcResponse_def empty_message_def)
  ultimately have r: "(rpc_step (\<lambda>_ _. True))\<^sup>*\<^sup>* (RpcChannel 0) ?c2" by (meson rtranclp.rtrancl_into_rtrancl rtranclp.rtrancl_refl)
  with rpc_done_at_most_once [OF r] show ?thesis by (intro exI [of _ ?c2]) simp
qed

section \<open>Calls from two threads\<close>

text \<open>C35. Calls from two threads can get the same id, and then one of them is never completed. If both threads read the counter
  before either increments it, the second request is not registered; the closure of the first call gets the response that
  arrives first, which may be the one to the other call, and the closure of the second is never run.\<close>

theorem rpc_concurrent_calls:
  assumes "rc_calls ch (call_load ch) = None" "call_load ch \<le> call_load ch + 2" "parse k body"
  shows "\<exists>ch1 ch2. SendRpcRequest (request_message (call_load ch) s m q) True (Some k) (Some RpcController) (call_add (call_add ch)) = Inr ch1 \<and>
    SendRpcRequest (request_message (call_load ch) s' m' q') True (Some k') (Some RpcController) ch1 = Inr ch2 \<and>
    (\<exists>ch3. deliver parse [SendRpcResponse body (call_load ch), SendRpcResponse body' (call_load ch)] ch2 = Inr ch3 \<and>
       rc_done ch3 = rc_done ch @ [(k, body)] \<and> rc_calls ch3 (call_load ch) = None)"
  using assms by (simp add: SendRpcRequest_def request_message_def empty_message_def call_load_def call_add_def RpcController_def
      SendRpcResponse_def OnRpcMessageForResponse_def add.assoc)

theorem rpc_concurrent_calls_witness:
  "\<exists>ch1 ch2 ch3. SendRpcRequest (request_message 0 ''s'' ''first'' []) True (Some 0) (Some RpcController) (call_add (call_add (RpcChannel 0))) = Inr ch1 \<and>
     SendRpcRequest (request_message 0 ''s'' ''second'' []) True (Some 1) (Some RpcController) ch1 = Inr ch2 \<and>
     deliver (\<lambda>_ _. True) [SendRpcResponse [2] 0, SendRpcResponse [1] 0] ch2 = Inr ch3 \<and> rc_done ch3 = [(0, [2])]"
proof -
  have h: "rc_calls (RpcChannel 0) (call_load (RpcChannel 0)) = None" "call_load (RpcChannel 0) \<le> call_load (RpcChannel 0) + 2" "(\<lambda>_ _. True) 0 [2]"
    and z: "call_load (RpcChannel 0) = 0" "rc_done (RpcChannel 0) = []"
    by (simp_all add: call_load_def RpcChannel_def)
  show ?thesis using rpc_concurrent_calls [OF h] unfolding z append_Nil by blast
qed

text \<open>A call with a null controller, as the test clients make it, dereferences it.\<close>

lemma null_controller_call: "CallMethod s m q True (Some k) None ch = Inl NullDeref"
  by (simp add: CallMethod_def SendRpcRequest_def)

text \<open>Any error response, also one to a call without a closure or to one whose deadline has passed, ends the program of the
  client.\<close>

lemma error_response_aborts:
  "rm_error message \<noteq> None \<Longrightarrow> OnRpcMessageForResponse parse message ch \<in> {Inl AssertFail, Inl Fatal}"
  by (auto simp: OnRpcMessageForResponse_def assertR_def)

text \<open>A call whose deadline passes is dropped; its closure is not told.\<close>

lemma expired_call_dropped:
  assumes "rm_error message = None" "rm_response message \<noteq> None" "rm_id message \<le> rc_id ch"
  shows "OnRpcMessageForResponse parse message (deadline_timer (rm_id message) ch) = Inr (deadline_timer (rm_id message) ch)"
  using assms by (auto simp: OnRpcMessageForResponse_def deadline_timer_def)

text \<open>What the server answers to a message that is not a complete request, to one for an unknown service, for an unknown method
  and with a request that does not parse.\<close>

lemma serve_errors:
  "rm_request message = None \<Longrightarrow> serve S f message = ErrorHandle (rm_id message) kInvalidMessage"
  "S s = None \<Longrightarrow> serve S f (request_message i s m q) = ErrorHandle i kNoService"
  "S s = Some M \<Longrightarrow> M m = None \<Longrightarrow> serve S f (request_message i s m q) = ErrorHandle i kNoMethod"
  "S s = Some M \<Longrightarrow> M m = Some p \<Longrightarrow> p q = None \<Longrightarrow> serve S f (request_message i s m q) = ErrorHandle i kInvalidRequest"
  by (simp_all add: serve_def OnRpcMessageForRequest_def request_message_def empty_message_def)

end
