(* ===== verification/Any_Value.thy ===== *)
theory Any_Value
  imports Kanon_Prelude
begin

text \<open>
  Model of \<^verbatim>\<open>kanon/util/any.h\<close>: type-erased values. An \<open>Any\<close> object is its pointer to a holder on the heap; a holder has
  the type of the value (what \<open>typeid\<close> gives) and the value. A program is a sequence of operations on named objects. Allocation
  succeeds and copying a value gives an equal one.
\<close>

section \<open>Holders and the operations on one object\<close>

record ('t, 'v) any_heap =
  ah_cells :: "nat \<rightharpoonup> 't \<times> 'v"
  ah_next :: nat

definition new_Holder :: "'t \<Rightarrow> 'v \<Rightarrow> ('t, 'v) any_heap \<Rightarrow> nat \<times> ('t, 'v) any_heap" where
  "new_Holder t v h = (ah_next h, h\<lparr>ah_cells := (ah_cells h)(ah_next h \<mapsto> (t, v)), ah_next := Suc (ah_next h)\<rparr>)"

definition Holder_clone :: "nat \<Rightarrow> ('t, 'v) any_heap \<Rightarrow> (nat \<times> ('t, 'v) any_heap) res" where
  "Holder_clone a h = (case ah_cells h a of None \<Rightarrow> Inl UseAfterFree | Some (t, v) \<Rightarrow> Inr (new_Holder t v h))"

definition delete_Holder :: "nat \<Rightarrow> ('t, 'v) any_heap \<Rightarrow> ('t, 'v) any_heap res" where
  "delete_Holder a h = (if ah_cells h a = None then Inl UseAfterFree else Inr (h\<lparr>ah_cells := (ah_cells h)(a := None)\<rparr>))"

definition Any_copy :: "nat option \<Rightarrow> ('t, 'v) any_heap \<Rightarrow> (nat option \<times> ('t, 'v) any_heap) res" where
  "Any_copy rhs h = (case rhs of None \<Rightarrow> Inr (None, h) | Some a \<Rightarrow> rbind (Holder_clone a h) (\<lambda>(b, h). Inr (Some b, h)))"

definition Any_clear :: "nat option \<Rightarrow> ('t, 'v) any_heap \<Rightarrow> (nat option \<times> ('t, 'v) any_heap) res" where
  "Any_clear p h = (case p of None \<Rightarrow> Inr (None, h) | Some a \<Rightarrow> rbind (delete_Holder a h) (\<lambda>h. Inr (None, h)))"

definition Any_type :: "nat option \<Rightarrow> ('t, 'v) any_heap \<Rightarrow> 't res" where
  "Any_type p h = (case p of None \<Rightarrow> Inl NullDeref
     | Some a \<Rightarrow> (case ah_cells h a of None \<Rightarrow> Inl UseAfterFree | Some (t, _) \<Rightarrow> Inr t))"

text \<open>A cast gives the address of the value, which is that of its holder here, or a null pointer.\<close>

definition SafeAnyCast :: "'t \<Rightarrow> nat option \<Rightarrow> ('t, 'v) any_heap \<Rightarrow> nat option res" where
  "SafeAnyCast t p h = rbind (Any_type p h) (\<lambda>t'. Inr (if t' = t then p else None))"

definition UnsafeAnyCast :: "'t \<Rightarrow> nat option \<Rightarrow> ('t, 'v) any_heap \<Rightarrow> nat option res" where
  "UnsafeAnyCast t p h = Inr p"

definition AnyCast :: "bool \<Rightarrow> 't \<Rightarrow> nat option \<Rightarrow> ('t, 'v) any_heap \<Rightarrow> nat option res" where
  "AnyCast ndebug = (if ndebug then UnsafeAnyCast else SafeAnyCast)"

section \<open>Programs over several objects\<close>

record ('t, 'v) any_state =
  as_objs :: "nat \<rightharpoonup> nat option"
  as_heap :: "('t, 'v) any_heap"

datatype ('t, 'v) any_op =
    ODefault nat
  | OValue nat 't 'v
  | OCopy nat nat
  | OMove nat nat
  | OAssignValue nat 't 'v
  | OAssign nat nat
  | OAssignMove nat nat
  | OSwap nat nat
  | OClear nat
  | ODestroy nat

definition obj :: "nat \<Rightarrow> ('t, 'v) any_state \<Rightarrow> nat option res" where
  "obj x s = (case as_objs s x of None \<Rightarrow> Inl UseAfterFree | Some p \<Rightarrow> Inr p)"

definition set_obj :: "nat \<Rightarrow> nat option \<Rightarrow> ('t, 'v) any_state \<Rightarrow> ('t, 'v) any_state" where
  "set_obj x p s = s\<lparr>as_objs := (as_objs s)(x \<mapsto> p)\<rparr>"

text \<open>The assignments from a value and from another object construct a temporary, swap it with the object, and destroy it.\<close>

fun any_exec :: "('t, 'v) any_op \<Rightarrow> ('t, 'v) any_state \<Rightarrow> ('t, 'v) any_state res" where
  "any_exec (ODefault x) s = Inr (set_obj x None s)"
| "any_exec (OValue x t v) s = (let (a, h) = new_Holder t v (as_heap s) in Inr (set_obj x (Some a) (s\<lparr>as_heap := h\<rparr>)))"
| "any_exec (OCopy x y) s = rbind (obj y s) (\<lambda>q. rbind (Any_copy q (as_heap s)) (\<lambda>(p, h). Inr (set_obj x p (s\<lparr>as_heap := h\<rparr>))))"
| "any_exec (OMove x y) s = rbind (obj y s) (\<lambda>q. Inr (set_obj y None (set_obj x q s)))"
| "any_exec (OAssignValue x t v) s = rbind (obj x s) (\<lambda>p.
     let (tmp, h) = new_Holder t v (as_heap s); s = set_obj x (Some tmp) s in
     rbind (Any_clear p h) (\<lambda>(_, h). Inr (s\<lparr>as_heap := h\<rparr>)))"
| "any_exec (OAssign x y) s = rbind (obj x s) (\<lambda>p. rbind (obj y s) (\<lambda>q. rbind (Any_copy q (as_heap s)) (\<lambda>(tmp, h).
     let s = set_obj x tmp s in rbind (Any_clear p h) (\<lambda>(_, h). Inr (s\<lparr>as_heap := h\<rparr>)))))"
| "any_exec (OAssignMove x y) s = rbind (obj x s) (\<lambda>p. rbind (obj y s) (\<lambda>q. Inr (set_obj y p (set_obj x q s))))"
| "any_exec (OSwap x y) s = rbind (obj x s) (\<lambda>p. rbind (obj y s) (\<lambda>q. Inr (set_obj y p (set_obj x q s))))"
| "any_exec (OClear x) s = rbind (obj x s) (\<lambda>p. rbind (Any_clear p (as_heap s)) (\<lambda>(p, h). Inr (set_obj x p (s\<lparr>as_heap := h\<rparr>))))"
| "any_exec (ODestroy x) s = rbind (obj x s) (\<lambda>p. rbind (Any_clear p (as_heap s)) (\<lambda>(_, h).
     Inr (s\<lparr>as_objs := (as_objs s)(x := None), as_heap := h\<rparr>)))"

fun any_run :: "('t, 'v) any_op list \<Rightarrow> ('t, 'v) any_state \<Rightarrow> ('t, 'v) any_state res" where
  "any_run [] s = Inr s"
| "any_run (p # ps) s = rbind (any_exec p s) (any_run ps)"

definition any_init :: "('t, 'v) any_state" where
  "any_init = \<lparr>as_objs = Map.empty, as_heap = \<lparr>ah_cells = Map.empty, ah_next = 0\<rparr>\<rparr>"

section \<open>What an \<open>Any\<close> is: an optional typed value\<close>

text \<open>The specification has value semantics and no heap. It is undefined where a program would construct an object twice or use
  one that does not exist, which scoping excludes.\<close>

type_synonym ('t, 'v) any_spec = "nat \<rightharpoonup> ('t \<times> 'v) option"

fun spec_exec :: "('t, 'v) any_op \<Rightarrow> ('t, 'v) any_spec \<Rightarrow> ('t, 'v) any_spec option" where
  "spec_exec (ODefault x) A = (if A x = None then Some (A(x \<mapsto> None)) else None)"
| "spec_exec (OValue x t v) A = (if A x = None then Some (A(x \<mapsto> Some (t, v))) else None)"
| "spec_exec (OCopy x y) A = (case A y of Some c \<Rightarrow> if A x = None then Some (A(x \<mapsto> c)) else None | None \<Rightarrow> None)"
| "spec_exec (OMove x y) A = (case A y of Some c \<Rightarrow> if A x = None then Some (A(x \<mapsto> c, y \<mapsto> None)) else None | None \<Rightarrow> None)"
| "spec_exec (OAssignValue x t v) A = (if A x = None then None else Some (A(x \<mapsto> Some (t, v))))"
| "spec_exec (OAssign x y) A = (case (A x, A y) of (Some _, Some c) \<Rightarrow> Some (A(x \<mapsto> c)) | _ \<Rightarrow> None)"
| "spec_exec (OAssignMove x y) A = (case (A x, A y) of (Some b, Some c) \<Rightarrow> Some (A(x \<mapsto> c, y \<mapsto> b)) | _ \<Rightarrow> None)"
| "spec_exec (OSwap x y) A = (case (A x, A y) of (Some b, Some c) \<Rightarrow> Some (A(x \<mapsto> c, y \<mapsto> b)) | _ \<Rightarrow> None)"
| "spec_exec (OClear x) A = (if A x = None then None else Some (A(x \<mapsto> None)))"
| "spec_exec (ODestroy x) A = (if A x = None then None else Some (A(x := None)))"

fun spec_run :: "('t, 'v) any_op list \<Rightarrow> ('t, 'v) any_spec \<Rightarrow> ('t, 'v) any_spec option" where
  "spec_run [] A = Some A"
| "spec_run (p # ps) A = (case spec_exec p A of None \<Rightarrow> None | Some A \<Rightarrow> spec_run ps A)"

text \<open>Well-formed states: every pointer is to a live holder of its own, every live holder has an owner, and new addresses are
  fresh. The content of a state.\<close>

definition any_wf :: "('t, 'v) any_state \<Rightarrow> bool" where
  "any_wf s \<longleftrightarrow> (\<forall>x y a. as_objs s x = Some (Some a) \<longrightarrow> as_objs s y = Some (Some a) \<longrightarrow> x = y) \<and>
     (\<forall>a. ah_cells (as_heap s) a \<noteq> None \<longleftrightarrow> (\<exists>x. as_objs s x = Some (Some a))) \<and>
     (\<forall>a. ah_cells (as_heap s) a \<noteq> None \<longrightarrow> a < ah_next (as_heap s))"

definition any_content :: "('t, 'v) any_state \<Rightarrow> ('t, 'v) any_spec" where
  "any_content s x = (case as_objs s x of None \<Rightarrow> None | Some None \<Rightarrow> Some None | Some (Some a) \<Rightarrow> Some (ah_cells (as_heap s) a))"

section \<open>The operations in terms of four elementary ones\<close>

definition put_new :: "nat \<Rightarrow> ('t \<times> 'v) option \<Rightarrow> ('t, 'v) any_state \<Rightarrow> ('t, 'v) any_state" where
  "put_new x c s = (case c of None \<Rightarrow> set_obj x None s
     | Some (t, v) \<Rightarrow> set_obj x (Some (ah_next (as_heap s))) (s\<lparr>as_heap := snd (new_Holder t v (as_heap s))\<rparr>))"

definition drop_obj :: "nat \<Rightarrow> ('t, 'v) any_state \<Rightarrow> ('t, 'v) any_state" where
  "drop_obj x s = (case as_objs s x of Some (Some a) \<Rightarrow>
       set_obj x None (s\<lparr>as_heap := (as_heap s)\<lparr>ah_cells := (ah_cells (as_heap s))(a := None)\<rparr>\<rparr>)
     | _ \<Rightarrow> set_obj x None s)"

definition no_holder :: "nat \<Rightarrow> ('t, 'v) any_state \<Rightarrow> bool" where
  "no_holder x s \<longleftrightarrow> as_objs s x = None \<or> as_objs s x = Some None"

lemma any_wfD:
  assumes "any_wf s"
  shows "as_objs s x = Some (Some a) \<Longrightarrow> as_objs s y = Some (Some a) \<Longrightarrow> x = y"
    "as_objs s x = Some (Some a) \<Longrightarrow> \<exists>t v. ah_cells (as_heap s) a = Some (t, v)"
    "ah_cells (as_heap s) a \<noteq> None \<Longrightarrow> \<exists>x. as_objs s x = Some (Some a)"
    "as_objs s x = Some (Some a) \<Longrightarrow> a < ah_next (as_heap s)"
    "ah_cells (as_heap s) (ah_next (as_heap s)) = None"
    "ah_cells (as_heap s) a \<noteq> None \<Longrightarrow> a < ah_next (as_heap s)"
proof -
  note W = assms [unfolded any_wf_def]
  show "as_objs s x = Some (Some a) \<Longrightarrow> as_objs s y = Some (Some a) \<Longrightarrow> x = y" using W by blast
  show "as_objs s x = Some (Some a) \<Longrightarrow> \<exists>t v. ah_cells (as_heap s) a = Some (t, v)" using W by fastforce
  show "ah_cells (as_heap s) a \<noteq> None \<Longrightarrow> \<exists>x. as_objs s x = Some (Some a)" using W by blast
  show "as_objs s x = Some (Some a) \<Longrightarrow> a < ah_next (as_heap s)" using W by blast
  show "ah_cells (as_heap s) (ah_next (as_heap s)) = None" using W by blast
  show "ah_cells (as_heap s) a \<noteq> None \<Longrightarrow> a < ah_next (as_heap s)" using W by blast
qed

lemma put_new_fields:
  "as_objs (put_new x (Some (t, v)) s) = (as_objs s)(x \<mapsto> Some (ah_next (as_heap s)))"
  "ah_cells (as_heap (put_new x (Some (t, v)) s)) = (ah_cells (as_heap s))(ah_next (as_heap s) \<mapsto> (t, v))"
  "ah_next (as_heap (put_new x (Some (t, v)) s)) = Suc (ah_next (as_heap s))"
  "as_objs (put_new x None s) = (as_objs s)(x \<mapsto> None)" "as_heap (put_new x None s) = as_heap s"
  by (simp_all add: put_new_def set_obj_def new_Holder_def)

lemma put_new_wf:
  assumes "any_wf s" "no_holder x s"
  shows "any_wf (put_new x c s)"
proof (cases c)
  case None
  then show ?thesis using assms unfolding any_wf_def no_holder_def put_new_fields None
    by (auto split: if_splits; force)
next
  case (Some tv)
  obtain t v where tv: "tv = (t, v)" by (cases tv)
  have x: "as_objs s x \<noteq> Some (Some a)" for a using assms(2) by (auto simp: no_holder_def)
  have lt: "as_objs s y = Some (Some a) \<Longrightarrow> a < ah_next (as_heap s)" for y a by (rule any_wfD(4) [OF assms(1)])
  have ne: "as_objs s y \<noteq> Some (Some (ah_next (as_heap s)))" for y using lt by blast
  show ?thesis unfolding any_wf_def Some tv put_new_fields
  proof (intro conjI allI impI)
    fix y z a
    assume "((as_objs s)(x \<mapsto> Some (ah_next (as_heap s)))) y = Some (Some a)"
      "((as_objs s)(x \<mapsto> Some (ah_next (as_heap s)))) z = Some (Some a)"
    then show "y = z" using any_wfD(1) [OF assms(1)] ne by (auto split: if_splits)
  next
    fix a
    show "(((ah_cells (as_heap s))(ah_next (as_heap s) \<mapsto> (t, v))) a \<noteq> None) =
      (\<exists>y. ((as_objs s)(x \<mapsto> Some (ah_next (as_heap s)))) y = Some (Some a))"
      using any_wfD(2,3) [OF assms(1)] x ne by (cases "a = ah_next (as_heap s)") (auto, metis option.distinct(1))
  next
    fix a
    assume "((ah_cells (as_heap s))(ah_next (as_heap s) \<mapsto> (t, v))) a \<noteq> None"
    then show "a < Suc (ah_next (as_heap s))" using any_wfD(6) [OF assms(1), of a] by (auto split: if_splits)
  qed
qed

lemma put_new_content:
  assumes "any_wf s"
  shows "any_content (put_new x c s) = (any_content s)(x \<mapsto> c)"
proof (cases c)
  case (Some tv)
  obtain t v where tv: "tv = (t, v)" by (cases tv)
  have "as_objs s y \<noteq> Some (Some (ah_next (as_heap s)))" for y using any_wfD(4) [OF assms] by blast
  then show ?thesis unfolding Some tv by (auto simp: any_content_def put_new_fields fun_eq_iff split: option.splits)
qed (auto simp: any_content_def put_new_fields fun_eq_iff split: option.splits)

lemma drop_obj_fields:
  "as_objs (drop_obj x s) = (as_objs s)(x \<mapsto> None)"
  "ah_cells (as_heap (drop_obj x s)) a = (if as_objs s x = Some (Some a) then None else ah_cells (as_heap s) a)"
  "ah_next (as_heap (drop_obj x s)) = ah_next (as_heap s)"
  by (auto simp: drop_obj_def set_obj_def split: option.splits)

lemma drop_obj_wf:
  assumes "any_wf s"
  shows "any_wf (drop_obj x s)"
  unfolding any_wf_def drop_obj_fields
proof (intro conjI allI impI)
  fix a
  show "((if as_objs s x = Some (Some a) then None else ah_cells (as_heap s) a) \<noteq> None) =
    (\<exists>y. ((as_objs s)(x \<mapsto> None)) y = Some (Some a))"
    using any_wfD(1,2,3) [OF assms] by (auto split: if_splits) (metis option.distinct(1))+
qed (use any_wfD(1,6) [OF assms] in \<open>auto split: if_splits\<close>)

lemma drop_obj_content:
  assumes "any_wf s"
  shows "any_content (drop_obj x s) = (any_content s)(x \<mapsto> None)"
proof
  fix y
  show "any_content (drop_obj x s) y = ((any_content s)(x \<mapsto> None)) y"
    using any_wfD(1) [OF assms, of x _ y] by (auto simp: any_content_def drop_obj_fields split: option.splits)
qed

lemma no_holder_drop [simp]: "no_holder x (drop_obj x s)"
  by (simp add: no_holder_def drop_obj_fields)

text \<open>Exchanging the pointers of two objects, and ending the life of an object without a holder.\<close>

lemma exchange_wf:
  assumes "any_wf s" "as_objs s x = Some p \<or> as_objs s x = None \<and> p = None" "as_objs s y = Some q"
  shows "any_wf (set_obj y p (set_obj x q s))"
proof -
  let ?o = "(as_objs s)(x \<mapsto> q, y \<mapsto> p)"
  define f where "f z = (if z = x then y else if z = y then x else z)" for z
  have f: "f (f z) = z" for z by (simp add: f_def)
  have o: "?o z = Some (Some a) \<longleftrightarrow> as_objs s (f z) = Some (Some a)" for z a using assms(2,3) by (auto simp: f_def)
  have inj: "z = w" if zw: "?o z = Some (Some a)" "?o w = Some (Some a)" for z w a
  proof -
    have "f z = f w" by (rule any_wfD(1) [OF assms(1)]) (use zw in \<open>simp_all only: o\<close>)
    then have "f (f z) = f (f w)" by (rule arg_cong)
    then show ?thesis by (simp only: f)
  qed
  have ex: "(\<exists>z. ?o z = Some (Some a)) \<longleftrightarrow> (\<exists>z. as_objs s z = Some (Some a))" for a
  proof
    assume "\<exists>z. as_objs s z = Some (Some a)"
    then obtain z where "as_objs s z = Some (Some a)" ..
    then have "?o (f z) = Some (Some a)" by (simp only: o f)
    then show "\<exists>z. ?o z = Some (Some a)" ..
  qed (simp only: o, blast)
  have eq: "as_objs (set_obj y p (set_obj x q s)) = ?o" "as_heap (set_obj y p (set_obj x q s)) = as_heap s"
    by (simp_all add: set_obj_def)
  show ?thesis using assms(1) inj ex unfolding any_wf_def eq by (simp only:) blast
qed

lemma exchange_content:
  assumes "as_objs s x = Some p \<or> as_objs s x = None \<and> p = None" "as_objs s y = Some q"
  shows "any_content (set_obj y p (set_obj x q s)) =
    (any_content s)(x := any_content s y, y := (case any_content s x of None \<Rightarrow> Some None | Some c \<Rightarrow> Some c))"
  using assms by (auto simp: any_content_def set_obj_def fun_eq_iff split: option.splits)

lemma forget_wf: "any_wf s \<Longrightarrow> no_holder x s \<Longrightarrow> any_wf (s\<lparr>as_objs := (as_objs s)(x := None)\<rparr>)"
  unfolding any_wf_def no_holder_def by (auto split: if_splits; force)

lemma forget_content: "any_content (s\<lparr>as_objs := (as_objs s)(x := None)\<rparr>) = (any_content s)(x := None)"
  by (auto simp: any_content_def fun_eq_iff split: option.splits)

text \<open>The operations in these terms.\<close>

lemma content_cases:
  assumes "any_wf s" "any_content s x = Some c"
  obtains "c = None" "as_objs s x = Some None" | a t v where "c = Some (t, v)" "as_objs s x = Some (Some a)"
    "ah_cells (as_heap s) a = Some (t, v)"
  using assms any_wfD(2) [OF assms(1), of x] by (fastforce simp: any_content_def split: option.splits)

lemma content_None: "any_content s x = None \<longleftrightarrow> as_objs s x = None"
  by (auto simp: any_content_def split: option.splits)

lemma exec_copy:
  assumes "any_wf s" "any_content s y = Some c"
  shows "any_exec (OCopy x y) s = Inr (put_new x c s)"
  using assms by (rule content_cases)
    (simp_all add: obj_def Any_copy_def Holder_clone_def put_new_def new_Holder_def)

lemma exec_clear:
  assumes "any_wf s" "any_content s x = Some c"
  shows "any_exec (OClear x) s = Inr (drop_obj x s)"
    "any_exec (ODestroy x) s = Inr ((drop_obj x s)\<lparr>as_objs := (as_objs (drop_obj x s))(x := None)\<rparr>)"
  using assms by (atomize (full), rule content_cases)
    (simp_all add: obj_def Any_clear_def delete_Holder_def drop_obj_def set_obj_def)

lemma exec_assign_value:
  assumes "any_wf s" "any_content s x = Some c"
  shows "any_exec (OAssignValue x t v) s = Inr (put_new x (Some (t, v)) (drop_obj x s))"
  using assms any_wfD(4) [OF assms(1), of x] by (elim content_cases)
    (auto simp: obj_def Any_clear_def delete_Holder_def drop_obj_def set_obj_def put_new_def new_Holder_def fun_upd_twist)

lemma exec_assign:
  assumes "any_wf s" "any_content s x = Some b" "any_content s y = Some c"
  shows "any_exec (OAssign x y) s = Inr (put_new x c (drop_obj x s))"
  using assms(1,3)
proof (rule content_cases)
  assume y: "c = None" "as_objs s y = Some None"
  from assms(1,2) show ?thesis
    by (rule content_cases) (simp_all add: y obj_def Any_copy_def Any_clear_def delete_Holder_def drop_obj_def set_obj_def put_new_def)
next
  fix a t v
  assume y: "c = Some (t, v)" "as_objs s y = Some (Some a)" "ah_cells (as_heap s) a = Some (t, v)"
  have "any_exec (OAssign x y) s = any_exec (OAssignValue x t v) s"
    using y by (simp add: obj_def Any_copy_def Holder_clone_def new_Holder_def)
  with exec_assign_value [OF assms(1,2)] y(1) show ?thesis by simp
qed

lemma exec_move:
  assumes "any_wf s" "any_content s x = None" "any_content s y = Some c"
  shows "\<exists>s'. any_exec (OMove x y) s = Inr s' \<and> any_wf s' \<and> any_content s' = (any_content s)(x \<mapsto> c, y \<mapsto> None)"
proof -
  from assms(3) obtain q where q: "as_objs s y = Some q" by (metis content_None option.exhaust option.distinct(1))
  have x: "as_objs s x = Some None \<or> as_objs s x = None \<and> None = None" using assms(2) by (simp add: content_None)
  show ?thesis using exchange_wf [OF assms(1) x q] exchange_content [OF x q] q assms(2,3) by (simp add: obj_def)
qed

lemma exec_exchange:
  assumes "any_wf s" "any_content s x = Some b" "any_content s y = Some c" "p = OSwap x y \<or> p = OAssignMove x y"
  shows "\<exists>s'. any_exec p s = Inr s' \<and> any_wf s' \<and> any_content s' = (any_content s)(x \<mapsto> c, y \<mapsto> b)"
proof -
  from assms(2,3) obtain p' q where pq: "as_objs s x = Some p'" "as_objs s y = Some q"
    by (metis content_None option.exhaust option.distinct(1))
  have x: "as_objs s x = Some p' \<or> as_objs s x = None \<and> p' = None" using pq(1) by simp
  show ?thesis using exchange_wf [OF assms(1) x pq(2)] exchange_content [OF x pq(2)] pq assms(2-4) by (auto simp: obj_def)
qed

lemma any_exec_refines:
  assumes "any_wf s" "spec_exec p (any_content s) = Some A"
  shows "\<exists>s'. any_exec p s = Inr s' \<and> any_wf s' \<and> any_content s' = A"
proof (cases p)
  case (OMove x y)
  with assms(2) exec_move [OF assms(1), of x y] show ?thesis by (auto split: option.splits if_splits)
next
  case (ODefault x)
  with assms put_new_wf [OF assms(1), of x None] put_new_content [OF assms(1), of x None] show ?thesis
    by (auto simp: content_None no_holder_def put_new_def split: if_splits)
next
  case (OValue x t v)
  with assms put_new_wf [OF assms(1), of x "Some (t, v)"] put_new_content [OF assms(1), of x "Some (t, v)"] show ?thesis
    by (auto simp: content_None no_holder_def put_new_def new_Holder_def split: if_splits)
next
  case (OCopy x y)
  with assms(2) obtain c where c: "any_content s y = Some c" "any_content s x = None" "A = (any_content s)(x \<mapsto> c)"
    by (auto split: option.splits if_splits)
  show ?thesis unfolding OCopy exec_copy [OF assms(1) c(1)]
    using put_new_wf [OF assms(1)] put_new_content [OF assms(1)] c by (simp add: content_None no_holder_def)
next
  case (OAssignValue x t v)
  with assms(2) obtain c where c: "any_content s x = Some c" "A = (any_content s)(x \<mapsto> Some (t, v))" by (auto split: if_splits)
  show ?thesis unfolding OAssignValue exec_assign_value [OF assms(1) c(1)]
    by (simp add: c put_new_wf put_new_content drop_obj_wf drop_obj_content assms(1))
next
  case (OAssign x y)
  with assms(2) obtain b c where c: "any_content s x = Some b" "any_content s y = Some c" "A = (any_content s)(x \<mapsto> c)"
    by (auto split: option.splits)
  show ?thesis unfolding OAssign exec_assign [OF assms(1) c(1,2)]
    by (simp add: c put_new_wf put_new_content drop_obj_wf drop_obj_content assms(1))
next
  case (OAssignMove x y)
  with assms(2) obtain b c where "any_content s x = Some b" "any_content s y = Some c" "A = (any_content s)(x \<mapsto> c, y \<mapsto> b)"
    by (auto split: option.splits)
  with exec_exchange [OF assms(1), of x b y c p] show ?thesis unfolding OAssignMove by blast
next
  case (OSwap x y)
  with assms(2) obtain b c where "any_content s x = Some b" "any_content s y = Some c" "A = (any_content s)(x \<mapsto> c, y \<mapsto> b)"
    by (auto split: option.splits)
  with exec_exchange [OF assms(1), of x b y c p] show ?thesis unfolding OSwap by blast
next
  case (OClear x)
  with assms(2) obtain c where c: "any_content s x = Some c" "A = (any_content s)(x \<mapsto> None)" by (auto split: if_splits)
  show ?thesis unfolding OClear exec_clear [OF assms(1) c(1)] by (simp add: c drop_obj_wf drop_obj_content assms(1))
next
  case (ODestroy x)
  with assms(2) obtain c where c: "any_content s x = Some c" "A = (any_content s)(x := None)" by (auto split: if_splits)
  show ?thesis unfolding ODestroy exec_clear [OF assms(1) c(1)]
    by (simp add: c forget_wf forget_content drop_obj_wf drop_obj_content assms(1))
qed

lemma any_run_refines:
  assumes "any_wf s" "spec_run ps (any_content s) = Some A"
  shows "\<exists>s'. any_run ps s = Inr s' \<and> any_wf s' \<and> any_content s' = A"
  using assms
proof (induction ps arbitrary: s)
  case (Cons p ps)
  from Cons.prems(2) obtain B where B: "spec_exec p (any_content s) = Some B" "spec_run ps B = Some A" by (auto split: option.splits)
  from any_exec_refines [OF Cons.prems(1) B(1)] obtain s1 where s1: "any_exec p s = Inr s1" "any_wf s1" "any_content s1 = B" by blast
  from Cons.IH [OF s1(2)] B(2) s1 show ?case by simp
qed simp

lemma any_init_ok: "any_wf any_init" "any_content any_init = Map.empty"
  by (auto simp: any_wf_def any_init_def any_content_def fun_eq_iff)

text \<open>C7. Type safety of \<open>Any\<close>. A program that creates, copies, moves, assigns, swaps, clears and destroys objects in any order
  never touches a freed holder and never frees one twice; afterwards every holder belongs to exactly one object, so none is
  leaked; every object has the content that value semantics gives it; and a checked cast to a type gives a pointer to the value
  if that is the type of the value, and a null pointer if it is not.\<close>

theorem Any_type_safe:
  assumes "spec_run ps Map.empty = Some A"
  shows "\<exists>s. any_run ps any_init = Inr s \<and> any_wf s \<and> any_content s = A \<and>
    (\<forall>x t v t'. A x = Some (Some (t, v)) \<longrightarrow> (\<exists>a. as_objs s x = Some (Some a) \<and> ah_cells (as_heap s) a = Some (t, v) \<and>
       SafeAnyCast t' (Some a) (as_heap s) = Inr (if t' = t then Some a else None)))"
proof -
  from any_run_refines [OF any_init_ok(1), of ps A] assms obtain s where s: "any_run ps any_init = Inr s" "any_wf s" "any_content s = A"
    by (auto simp: any_init_ok(2))
  have "\<exists>a. as_objs s x = Some (Some a) \<and> ah_cells (as_heap s) a = Some (t, v) \<and>
      SafeAnyCast t' (Some a) (as_heap s) = Inr (if t' = t then Some a else None)" if "A x = Some (Some (t, v))" for x t v t'
  proof -
    have "any_content s x = Some (Some (t, v))" using that s(3) by simp
    with s(2) show ?thesis by (rule content_cases) (auto simp: SafeAnyCast_def Any_type_def)
  qed
  with s show ?thesis by blast
qed

text \<open>An object is copied, the original is assigned a value of another type and the copy is moved from.\<close>

theorem Any_type_safe_witness:
  "\<exists>s a. any_run [OValue 0 ''int'' (7 :: int), OCopy 1 0, OAssignValue 0 ''string'' 9, OMove 2 1] any_init = Inr s \<and>
     as_objs s 2 = Some (Some a) \<and> SafeAnyCast ''int'' (Some a) (as_heap s) = Inr (Some a) \<and>
     SafeAnyCast ''string'' (Some a) (as_heap s) = Inr None"
proof -
  let ?A = "[0 \<mapsto> Some (''string'', 9), 1 \<mapsto> None, 2 \<mapsto> Some (''int'', 7 :: int)]"
  let ?ps = "[OValue 0 ''int'' (7 :: int), OCopy 1 0, OAssignValue 0 ''string'' 9, OMove 2 1]"
  have "spec_run ?ps Map.empty = Some ?A" by (simp add: fun_upd_twist)
  from Any_type_safe [OF this] obtain s where s: "any_run ?ps any_init = Inr s" and
    c: "\<And>x t v t'. ?A x = Some (Some (t, v)) \<Longrightarrow> \<exists>a. as_objs s x = Some (Some a) \<and> ah_cells (as_heap s) a = Some (t, v) \<and>
       SafeAnyCast t' (Some a) (as_heap s) = Inr (if t' = t then Some a else None)" by blast
  have two: "?A 2 = Some (Some (''int'', 7))" by simp
  from c [OF two, of "''int''"] c [OF two, of "''string''"] s show ?thesis by auto
qed

text \<open>A cast of an empty object dereferences a null pointer instead of failing, and with \<open>NDEBUG\<close> a cast to the wrong type gives
  a pointer.\<close>

lemma SafeAnyCast_empty: "SafeAnyCast t None h = Inl NullDeref"
  by (simp add: SafeAnyCast_def Any_type_def)

lemma AnyCast_release_unchecked:
  "ah_cells h a = Some (t, v) \<Longrightarrow> t' \<noteq> t \<Longrightarrow> AnyCast True t' (Some a) h = Inr (Some a) \<and> AnyCast False t' (Some a) h = Inr None"
  by (simp add: AnyCast_def UnsafeAnyCast_def SafeAnyCast_def Any_type_def)

end
