(* ===== verification/Sync.thy ===== *)
theory Sync
  imports Kanon_Prelude "HOL-Library.Multiset"
begin

text \<open>
  Model of the synchronisation primitives of \<^verbatim>\<open>kanon/thread\<close>: \<^verbatim>\<open>mutex_lock.h\<close>, \<^verbatim>\<open>count_down_latch.h\<close>, \<^verbatim>\<open>rw_lock.{h,cc}\<close> and
  \<^verbatim>\<open>thread_pool.{h,cc}\<close>. What a thread does between taking the mutex and releasing it, or waiting on a condition, is one
  step. A waiting thread is asleep until it is notified or woken for no reason, as POSIX allows; it then tests its condition
  again. Calls of pthreads succeed.
\<close>

section \<open>MutexLock\<close>

text \<open>The pthread mutex (the thread that has it) and the recorded holder; thread ids are not 0. \<open>Lock\<close> and \<open>Unlock\<close> each have
  two steps. \<open>ASSERT\<close> aborts if its argument is not 0.\<close>

record mutex_lock =
  mx_mutex :: "nat option"
  mx_holder :: nat

definition Lock_assign :: "nat \<Rightarrow> mutex_lock \<Rightarrow> mutex_lock" where
  "Lock_assign t m = m\<lparr>mx_holder := t\<rparr>"

definition Lock_acquire :: "nat \<Rightarrow> mutex_lock \<Rightarrow> mutex_lock option" where
  "Lock_acquire t m = (if mx_mutex m = None then Some (m\<lparr>mx_mutex := Some t\<rparr>) else None)"

definition Unlock_release :: "mutex_lock \<Rightarrow> mutex_lock" where
  "Unlock_release m = m\<lparr>mx_mutex := None\<rparr>"

definition Unlock_unassign :: "mutex_lock \<Rightarrow> mutex_lock" where
  "Unlock_unassign m = m\<lparr>mx_holder := 0\<rparr>"

definition TryLock :: "nat \<Rightarrow> mutex_lock \<Rightarrow> bool \<times> mutex_lock" where
  "TryLock t m = (case Lock_acquire t m of None \<Rightarrow> (False, m) | Some m \<Rightarrow> (True, Unlock_unassign m))"

definition IsLockedInThisThread :: "nat \<Rightarrow> mutex_lock \<Rightarrow> bool" where
  "IsLockedInThisThread t m \<longleftrightarrow> mx_holder m = t"

definition AssertLocked :: "nat \<Rightarrow> mutex_lock \<Rightarrow> unit res" where
  "AssertLocked t m = (if IsLockedInThisThread t m then Inl Fatal else Inr ())"

text \<open>\<open>AssertLocked\<close> aborts exactly when the calling thread is recorded as the holder. A thread that waits for the mutex is
  recorded as its holder, and one that got it with \<open>TryLock\<close> is not.\<close>

lemma AssertLocked_inverted:
  "Lock_acquire t (Lock_assign t m) = Some m' \<Longrightarrow> AssertLocked t m' = Inl Fatal"
  by (auto simp: Lock_acquire_def Lock_assign_def AssertLocked_def IsLockedInThisThread_def split: if_splits)

lemma Lock_waiting_is_holder:
  "mx_mutex m = Some u \<Longrightarrow> u \<noteq> t \<Longrightarrow> Lock_acquire t (Lock_assign t m) = None \<and>
     IsLockedInThisThread t (Lock_assign t m) \<and> \<not> IsLockedInThisThread u (Lock_assign t m)"
  by (simp add: Lock_acquire_def Lock_assign_def IsLockedInThisThread_def)

lemma TryLock_not_holder:
  "TryLock t m = (True, m') \<Longrightarrow> t \<noteq> 0 \<Longrightarrow> mx_mutex m' = Some t \<and> \<not> IsLockedInThisThread t m'"
  by (auto simp: TryLock_def Lock_acquire_def Unlock_unassign_def IsLockedInThisThread_def split: if_splits)

section \<open>CountDownLatch\<close>

text \<open>The counter is an \<open>int\<close>; the waiting operations give whether the thread waits. There is no loop around the wait: a thread
  that is woken returns.\<close>

type_synonym latch = "32 word"

definition latch_Add :: "latch \<Rightarrow> latch \<Rightarrow> latch" where
  "latch_Add n c = c + n"

definition latch_Minus :: "latch \<Rightarrow> latch \<Rightarrow> latch" where
  "latch_Minus n c = c - n"

definition latch_Wait :: "latch \<Rightarrow> bool" where
  "latch_Wait c \<longleftrightarrow> 0 <s c"

definition ResetAndWait :: "latch \<Rightarrow> latch \<Rightarrow> latch \<times> bool" where
  "ResetAndWait n c = (n, latch_Wait n)"

definition AddAndWait :: "latch \<Rightarrow> latch \<Rightarrow> latch \<times> bool" where
  "AddAndWait n c = (let c = latch_Add n c in (c, latch_Wait c))"

definition IncrAndWait :: "latch \<Rightarrow> latch \<times> bool" where
  "IncrAndWait c = AddAndWait 1 c"

text \<open>Gives the new count and whether all waiting threads are notified.\<close>

definition Countdown :: "latch \<Rightarrow> latch \<times> bool" where
  "Countdown c = (let c = c - 1 in (c, c = 0))"

text \<open>Counting down \<open>n\<close> times from \<open>n\<close> notifies the waiting threads with the last call and not before.\<close>

fun countdowns :: "nat \<Rightarrow> latch \<Rightarrow> latch \<times> bool list" where
  "countdowns 0 c = (c, [])"
| "countdowns (Suc n) c = (let (c, b) = Countdown c; (c, bs) = countdowns n c in (c, b # bs))"

lemma countdowns_notify: "n < 2 ^ 32 \<Longrightarrow> countdowns n (of_nat n) = (0, map (\<lambda>i. Suc i = n) [0..<n])"
proof (induction n)
  case (Suc n)
  have z: "(of_nat n :: latch) = 0 \<longleftrightarrow> n = 0"
    using Suc.prems by (simp add: word_unat_eq_iff unat_of_nat)
  have "map (\<lambda>i. Suc i = Suc n) [0..<Suc n] = (0 = n) # map (\<lambda>i. Suc i = n) [0..<n]"
    by (cases n) (simp_all add: upt_conv_Cons map_Suc_upt [symmetric] del: upt_Suc)
  then show ?case using Suc z by (auto simp: Countdown_def Let_def simp del: upt_Suc)
qed simp

text \<open>\<open>Decr\<close> and \<open>Minus\<close> reach 0 without notifying: a thread that waits then sleeps although the count is 0, and \<open>Countdown\<close>
  does not wake it any more.\<close>

lemma Minus_strands_waiters: "latch_Wait 1 \<and> latch_Minus 1 1 = 0 \<and> \<not> snd (Countdown (latch_Minus 1 1))"
  by (simp add: latch_Wait_def latch_Minus_def Countdown_def Let_def word_sless_alt)

section \<open>RWLock\<close>

record rwlock =
  rw_has_writer :: bool
  rw_reader_num :: "32 word"

abbreviation (input) MAX_READER_NUM :: "32 word" where "MAX_READER_NUM \<equiv> - 1"

datatype rw_notify = NoNotify | Notify_r | Notify_w | NotifyAll_w

definition RWLock :: rwlock where
  "RWLock = \<lparr>rw_has_writer = False, rw_reader_num = 0\<rparr>"

text \<open>One round of the waiting loop of \<open>RLock\<close>; \<^term>\<open>None\<close> if it waits. The same for the first loop of \<open>WLock\<close>, and whether its
  second loop waits.\<close>

definition RLock :: "rwlock \<Rightarrow> rwlock option" where
  "RLock l = (if rw_has_writer l \<or> rw_reader_num l = MAX_READER_NUM then None else Some (l\<lparr>rw_reader_num := rw_reader_num l + 1\<rparr>))"

definition WLock_claim :: "rwlock \<Rightarrow> rwlock option" where
  "WLock_claim l = (if rw_has_writer l then None else Some (l\<lparr>rw_has_writer := True\<rparr>))"

definition WLock_drain :: "rwlock \<Rightarrow> bool" where
  "WLock_drain l \<longleftrightarrow> rw_reader_num l > 0"

definition RUnlock :: "rwlock \<Rightarrow> rwlock \<times> rw_notify" where
  "RUnlock l = (let l = l\<lparr>rw_reader_num := rw_reader_num l - 1\<rparr> in
     (l, if rw_has_writer l then (if rw_reader_num l = 0 then Notify_r else NoNotify)
         else (if rw_reader_num l = MAX_READER_NUM - 1 then Notify_w else NoNotify)))"

definition WUnlock :: "rwlock \<Rightarrow> rwlock \<times> rw_notify" where
  "WUnlock l = (l\<lparr>rw_has_writer := False\<rparr>, NotifyAll_w)"

text \<open>Where a thread is: outside, in the waiting loop of \<open>RLock\<close>, in the first or the second one of \<open>WLock\<close>, or inside.\<close>

datatype rw_pc = Outside | RAsleep | RWoken | WAsleep | WWoken | DAsleep | DWoken | Reading | Writing

fun wake :: "rw_pc \<Rightarrow> rw_pc" where
  "wake RAsleep = RWoken" | "wake WAsleep = WWoken" | "wake DAsleep = DWoken" | "wake p = p"

fun notified :: "rw_notify \<Rightarrow> (nat \<Rightarrow> rw_pc) \<Rightarrow> (nat \<Rightarrow> rw_pc) \<Rightarrow> bool" where
  "notified NoNotify pc pc' = (pc' = pc)"
| "notified Notify_r pc pc' = ((pc' = pc \<and> (\<forall>u. pc u \<noteq> DAsleep)) \<or> (\<exists>u. pc u = DAsleep \<and> pc' = pc(u := DWoken)))"
| "notified Notify_w pc pc' =
     ((pc' = pc \<and> (\<forall>u. pc u \<notin> {RAsleep, WAsleep})) \<or> (\<exists>u. pc u \<in> {RAsleep, WAsleep} \<and> pc' = pc(u := wake (pc u))))"
| "notified NotifyAll_w pc pc' = (pc' = (\<lambda>u. if pc u \<in> {RAsleep, WAsleep} then wake (pc u) else pc u))"

definition enter_w :: "nat \<Rightarrow> rwlock \<Rightarrow> (nat \<Rightarrow> rw_pc) \<Rightarrow> rwlock \<times> (nat \<Rightarrow> rw_pc)" where
  "enter_w t l pc = (l, pc(t := if WLock_drain l then DAsleep else Writing))"

text \<open>The steps of the first \<open>n\<close> threads, and waking up for no reason.\<close>

inductive rw_step :: "nat \<Rightarrow> rwlock \<times> (nat \<Rightarrow> rw_pc) \<Rightarrow> rwlock \<times> (nat \<Rightarrow> rw_pc) \<Rightarrow> bool" for n where
  rlock: "t < n \<Longrightarrow> pc t \<in> {Outside, RWoken} \<Longrightarrow> RLock l = Some l' \<Longrightarrow> rw_step n (l, pc) (l', pc(t := Reading))"
| rlock_wait: "t < n \<Longrightarrow> pc t \<in> {Outside, RWoken} \<Longrightarrow> RLock l = None \<Longrightarrow> rw_step n (l, pc) (l, pc(t := RAsleep))"
| wlock: "t < n \<Longrightarrow> pc t \<in> {Outside, WWoken} \<Longrightarrow> WLock_claim l = Some l' \<Longrightarrow> rw_step n (l, pc) (enter_w t l' pc)"
| wlock_wait: "t < n \<Longrightarrow> pc t \<in> {Outside, WWoken} \<Longrightarrow> WLock_claim l = None \<Longrightarrow> rw_step n (l, pc) (l, pc(t := WAsleep))"
| drain: "t < n \<Longrightarrow> pc t = DWoken \<Longrightarrow> rw_step n (l, pc) (enter_w t l pc)"
| runlock: "t < n \<Longrightarrow> pc t = Reading \<Longrightarrow> RUnlock l = (l', k) \<Longrightarrow> notified k (pc(t := Outside)) pc' \<Longrightarrow> rw_step n (l, pc) (l', pc')"
| wunlock: "t < n \<Longrightarrow> pc t = Writing \<Longrightarrow> WUnlock l = (l', k) \<Longrightarrow> notified k (pc(t := Outside)) pc' \<Longrightarrow> rw_step n (l, pc) (l', pc')"

inductive rw_reach :: "nat \<Rightarrow> rwlock \<times> (nat \<Rightarrow> rw_pc) \<Rightarrow> bool" for n where
  start: "rw_reach n (RWLock, \<lambda>_. Outside)"
| move: "rw_reach n s \<Longrightarrow> rw_step n s s' \<Longrightarrow> rw_reach n s'"
| spurious: "rw_reach n (l, pc) \<Longrightarrow> rw_reach n (l, pc(t := wake (pc t)))"

text \<open>The readers are counted, one thread at most has or claims the write lock, and no one sleeps without a reason.\<close>

definition readers :: "(nat \<Rightarrow> rw_pc) \<Rightarrow> nat set" where
  "readers pc = {t. pc t = Reading}"

fun claims :: "rw_pc \<Rightarrow> bool" where
  "claims DAsleep = True" | "claims DWoken = True" | "claims Writing = True" | "claims p = False"

definition rw_count :: "nat \<Rightarrow> rwlock \<times> (nat \<Rightarrow> rw_pc) \<Rightarrow> bool" where
  "rw_count n s \<longleftrightarrow> (\<forall>t \<ge> n. snd s t = Outside) \<and> card (readers (snd s)) = unat (rw_reader_num (fst s))"

definition rw_writer :: "rwlock \<times> (nat \<Rightarrow> rw_pc) \<Rightarrow> bool" where
  "rw_writer s \<longleftrightarrow> (rw_has_writer (fst s) \<longleftrightarrow> (\<exists>t. claims (snd s t))) \<and> (\<forall>t u. claims (snd s t) \<longrightarrow> claims (snd s u) \<longrightarrow> t = u) \<and>
     (\<forall>t. snd s t = Writing \<longrightarrow> rw_reader_num (fst s) = 0) \<and> (\<forall>t. snd s t = DAsleep \<longrightarrow> rw_reader_num (fst s) \<noteq> 0)"

definition rw_sleep :: "rwlock \<times> (nat \<Rightarrow> rw_pc) \<Rightarrow> bool" where
  "rw_sleep s \<longleftrightarrow> (\<forall>t. snd s t \<in> {RAsleep, WAsleep} \<longrightarrow> rw_has_writer (fst s))"

section \<open>ThreadPool\<close>

text \<open>One round of the loops of \<open>Push\<close> and \<open>Pop\<close>; \<^term>\<open>None\<close> if it waits. The size of the queue is cast to \<open>int\<close>.\<close>

record 'a thread_pool =
  tp_tasks :: "'a list"
  tp_max :: "32 word"

definition ThreadPool :: "32 word \<Rightarrow> 'a thread_pool" where
  "ThreadPool max_queue_size = \<lparr>tp_tasks = [], tp_max = max_queue_size\<rparr>"

definition Push :: "'a \<Rightarrow> 'a thread_pool \<Rightarrow> 'a thread_pool option" where
  "Push task p = (if of_nat (length (tp_tasks p)) = tp_max p then None else Some (p\<lparr>tp_tasks := tp_tasks p @ [task]\<rparr>))"

definition Pop :: "'a thread_pool \<Rightarrow> ('a \<times> 'a thread_pool) option" where
  "Pop p = (case tp_tasks p of [] \<Rightarrow> None | task # ts \<Rightarrow> Some (task, p\<lparr>tp_tasks := ts\<rparr>))"

definition SetMaxQueueSize :: "32 word \<Rightarrow> 'a thread_pool \<Rightarrow> 'a thread_pool" where
  "SetMaxQueueSize num p = (if 0 <s num then p\<lparr>tp_max := num\<rparr> else p)"

text \<open>The pool with the tasks pushed, popped and started so far, and the workers. The function that \<open>StartRun\<close> gives to every thread pops
  one task, runs it without the mutex and returns; a worker waits in \<open>Pop\<close>, has returned from it with a task, or has started the
  task. When a waiting thread is woken is not restricted here.\<close>

datatype 'a worker = InPop | HasTask 'a | StartedTask 'a

record 'a pool_state =
  ps_pool :: "'a thread_pool"
  ps_workers :: "'a worker list"
  ps_pushed :: "'a list"
  ps_popped :: "'a list"
  ps_started :: "'a list"

definition threads_StartRun :: "nat \<Rightarrow> 32 word \<Rightarrow> 'a pool_state" where
  "threads_StartRun thread_num max_queue_size =
     \<lparr>ps_pool = ThreadPool max_queue_size, ps_workers = replicate thread_num InPop, ps_pushed = [], ps_popped = [], ps_started = []\<rparr>"

inductive pool_step :: "'a pool_state \<Rightarrow> 'a pool_state \<Rightarrow> bool" where
  push: "Push x (ps_pool s) = Some p \<Longrightarrow> pool_step s (s\<lparr>ps_pool := p, ps_pushed := ps_pushed s @ [x]\<rparr>)"
| pop: "i < length (ps_workers s) \<Longrightarrow> ps_workers s ! i = InPop \<Longrightarrow> Pop (ps_pool s) = Some (x, p) \<Longrightarrow>
    pool_step s (s\<lparr>ps_pool := p, ps_workers := (ps_workers s)[i := HasTask x], ps_popped := ps_popped s @ [x]\<rparr>)"
| start: "i < length (ps_workers s) \<Longrightarrow> ps_workers s ! i = HasTask x \<Longrightarrow>
    pool_step s (s\<lparr>ps_workers := (ps_workers s)[i := StartedTask x], ps_started := ps_started s @ [x]\<rparr>)"

section \<open>The read-write lock is exclusive\<close>

lemma readers_upd:
  "readers (pc(t := p)) = (if p = Reading then insert t (readers pc) else readers pc - {t})"
  by (auto simp: readers_def)

lemma readers_fin:
  assumes "rw_count n (l, pc)"
  shows "finite (readers pc)" "readers pc \<subseteq> {..<n}"
proof -
  have "t < n" if "pc t = Reading" for t using assms that by (cases "t < n") (auto simp: rw_count_def)
  then show "readers pc \<subseteq> {..<n}" by (auto simp: readers_def)
  then show "finite (readers pc)" by (rule finite_subset) simp
qed

lemma unat_inc32: "(x :: 32 word) \<noteq> - 1 \<Longrightarrow> unat (x + 1) = Suc (unat x)"
  using unat_minus_one [of "x + 1"] by (metis Suc_pred' add_diff_cancel_right' add.commute eq_neg_iff_add_eq_0 unat_gt_0)

lemma wake_simps [simp]:
  "claims (wake p) = claims p" "wake p = Writing \<longleftrightarrow> p = Writing" "wake p = Reading \<longleftrightarrow> p = Reading"
  "wake p = Outside \<longleftrightarrow> p = Outside" "wake p \<noteq> DAsleep" "wake p \<noteq> RAsleep" "wake p \<noteq> WAsleep" "wake (wake p) = wake p"
  by (cases p; simp)+

lemma readers_wake: "readers (pc(t := wake (pc t))) = readers pc"
  by (auto simp: readers_def split: if_splits)

lemma notified_wake:
  assumes "notified k pc pc'"
  shows "pc' t = pc t \<or> pc' t = wake (pc t)" "readers pc' = readers pc" "pc' t = Writing \<longleftrightarrow> pc t = Writing"
    "claims (pc' t) \<longleftrightarrow> claims (pc t)" "pc' t = DAsleep \<Longrightarrow> pc t = DAsleep"
    "pc' t \<in> {RAsleep, WAsleep} \<Longrightarrow> pc t \<in> {RAsleep, WAsleep}" "pc t = Outside \<Longrightarrow> pc' t = Outside"
proof -
  have w: "pc' u = pc u \<or> pc' u = wake (pc u)" for u using assms by (cases k) (auto split: if_splits)
  then show "pc' t = pc t \<or> pc' t = wake (pc t)" .
  have r: "pc' u = Reading \<longleftrightarrow> pc u = Reading" for u using w [of u] by (cases "pc u") auto
  show "readers pc' = readers pc" by (simp add: readers_def r)
  show "pc' t = Writing \<longleftrightarrow> pc t = Writing" using w [of t] by (cases "pc t") auto
  show "claims (pc' t) \<longleftrightarrow> claims (pc t)" using w [of t] by (cases "pc t") auto
  show "pc' t = DAsleep \<Longrightarrow> pc t = DAsleep" using w [of t] by (cases "pc t") auto
  show "pc' t \<in> {RAsleep, WAsleep} \<Longrightarrow> pc t \<in> {RAsleep, WAsleep}" using w [of t] by (cases "pc t") auto
  show "pc t = Outside \<Longrightarrow> pc' t = Outside" using w [of t] by auto
qed

lemma rw_count_upd:
  assumes "rw_count n (l, pc)" "t < n" "pc t \<noteq> Reading" "p \<noteq> Reading" "rw_reader_num l' = rw_reader_num l"
  shows "rw_count n (l', pc(t := p))"
proof -
  have "readers (pc(t := p)) = readers pc" using assms(3,4) by (auto simp: readers_def)
  then show ?thesis using assms by (auto simp: rw_count_def)
qed

lemma RUnlock_fields:
  "RUnlock l = (l', k) \<Longrightarrow> rw_reader_num l' = rw_reader_num l - 1 \<and> rw_has_writer l' = rw_has_writer l \<and>
     (rw_has_writer l \<longrightarrow> rw_reader_num l' = 0 \<longrightarrow> k = Notify_r)"
  by (auto simp: RUnlock_def Let_def)

lemma rw_count_runlock:
  assumes "rw_count n (l, pc)" "t < n" "pc t = Reading" "RUnlock l = (l', k)" "notified k (pc(t := Outside)) pc'"
  shows "rw_count n (l', pc')"
proof -
  have t: "t \<in> readers pc" using assms(3) by (simp add: readers_def)
  have c: "card (readers pc) = unat (rw_reader_num l)" using assms(1) by (simp add: rw_count_def)
  have "rw_reader_num l \<noteq> 0" using c t readers_fin(1) [OF assms(1)] by auto
  then have "unat (rw_reader_num l - 1) = unat (rw_reader_num l) - 1" by (simp add: unat_minus_one)
  moreover have "card (readers pc') = card (readers pc) - 1"
    using t readers_fin(1) [OF assms(1)] by (simp add: notified_wake(2) [OF assms(5)] readers_upd)
  moreover have "pc' u = Outside" if "n \<le> u" for u
    using notified_wake(7) [OF assms(5), of u] assms(1) that by (auto simp: rw_count_def)
  ultimately show ?thesis using RUnlock_fields [OF assms(4)] c by (simp add: rw_count_def)
qed

lemma rw_count_step: "rw_step n s s' \<Longrightarrow> rw_count n s \<Longrightarrow> rw_count n s'"
proof (induction rule: rw_step.induct)
  case (rlock t pc l l')
  have "t \<notin> readers pc" using rlock.hyps(2) by (auto simp: readers_def)
  moreover have "rw_reader_num l' = rw_reader_num l + 1" "rw_reader_num l \<noteq> - 1"
    using rlock.hyps(3) by (auto simp: RLock_def split: if_splits)
  ultimately show ?case using rlock.prems rlock.hyps(1) readers_fin(1) [OF rlock.prems]
    by (auto simp: rw_count_def readers_upd unat_inc32)
next
  case (wlock t pc l l')
  have "rw_reader_num l' = rw_reader_num l" using wlock.hyps(3) by (auto simp: WLock_claim_def split: if_splits)
  moreover have "pc t \<noteq> Reading" using wlock.hyps(2) by auto
  ultimately show ?case unfolding enter_w_def by (intro rw_count_upd [OF wlock.prems wlock.hyps(1)]) simp_all
next
  case (runlock t pc l l' k pc')
  from runlock.prems runlock.hyps show ?case by (rule rw_count_runlock)
next
  case (wunlock t pc l l' k pc')
  have "rw_count n (l', pc(t := Outside))" using wunlock.hyps wunlock.prems
    by (intro rw_count_upd [OF wunlock.prems wunlock.hyps(1)]) (auto simp: WUnlock_def)
  then show ?case using notified_wake(2,7) [OF wunlock.hyps(4)] by (auto simp: rw_count_def)
next
  case (rlock_wait t pc l)
  then show ?case by (intro rw_count_upd [OF rlock_wait.prems rlock_wait.hyps(1)]) auto
next
  case (wlock_wait t pc l)
  then show ?case by (intro rw_count_upd [OF wlock_wait.prems wlock_wait.hyps(1)]) auto
next
  case (drain t pc l)
  then show ?case unfolding enter_w_def by (intro rw_count_upd [OF drain.prems drain.hyps(1)]) auto
qed

lemma rw_writerD:
  assumes "rw_writer (l, pc)"
  shows "claims (pc t) \<Longrightarrow> rw_has_writer l" "\<not> rw_has_writer l \<Longrightarrow> \<not> claims (pc t)"
    "claims (pc t) \<Longrightarrow> claims (pc u) \<Longrightarrow> u = t" "rw_has_writer l \<Longrightarrow> \<exists>t. claims (pc t)"
  using assms unfolding rw_writer_def fst_conv snd_conv by blast+

lemma rw_writer_none:
  assumes "\<not> rw_has_writer l" "\<And>u. \<not> claims (pc u)"
  shows "rw_writer (l, pc)"
  unfolding rw_writer_def fst_conv snd_conv using assms by (metis claims.simps(1,3))

lemma rw_writer_one:
  assumes "rw_has_writer l" "\<And>u. claims (pc u) \<longleftrightarrow> u = t" "pc t = Writing \<Longrightarrow> rw_reader_num l = 0"
    "pc t = DAsleep \<Longrightarrow> rw_reader_num l \<noteq> 0"
  shows "rw_writer (l, pc)"
  unfolding rw_writer_def fst_conv snd_conv using assms by (metis claims.simps(1,3))

lemma rw_writer_runlock:
  assumes "rw_count n (l, pc)" "rw_writer (l, pc)" "pc t = Reading" "RUnlock l = (l', k)" "notified k (pc(t := Outside)) pc'"
  shows "rw_writer (l', pc')"
proof -
  note N = notified_wake [OF assms(5)] and F = RUnlock_fields [OF assms(4)]
  have "card (readers pc) \<noteq> 0" using assms(3) readers_fin(1) [OF assms(1)] by (auto simp: readers_def)
  then have nz: "rw_reader_num l \<noteq> 0" using assms(1) by (auto simp: rw_count_def)
  have c: "claims (pc' u) \<longleftrightarrow> claims (pc u)" for u unfolding N(4) using assms(3) by auto
  have w: "pc' u \<noteq> Writing" for u unfolding N(3) using nz assms(2) by (auto simp: rw_writer_def)
  have d: "rw_reader_num l' \<noteq> 0" if u: "pc' u = DAsleep" for u
  proof
    assume z: "rw_reader_num l' = 0"
    have pu: "pc u = DAsleep" using N(5) [OF u] by (auto split: if_splits)
    then have cu: "claims (pc u)" by simp
    have "rw_has_writer l" by (rule rw_writerD(1) [OF assms(2) cu])
    with F z have "k = Notify_r" by simp
    moreover have "(pc(t := Outside)) u = DAsleep" using pu assms(3) by auto
    ultimately obtain v where v: "(pc(t := Outside)) v = DAsleep" "pc' = (pc(t := Outside))(v := DWoken)"
      using assms(5) by (metis notified.simps(2))
    have "claims (pc v)" using v(1) by (auto split: if_splits)
    then have "v = u" by (rule rw_writerD(3) [OF assms(2) cu])
    with v(2) u show False by simp
  qed
  show ?thesis using assms(2) F w d unfolding rw_writer_def fst_conv snd_conv c by blast
qed

lemma rw_writer_enter:
  assumes "rw_has_writer l" "\<And>u. u \<noteq> t \<Longrightarrow> \<not> claims (pc u)"
  shows "rw_writer (enter_w t l pc)"
  unfolding enter_w_def
  by (rule rw_writer_one [where t = t]) (use assms in \<open>auto simp: WLock_drain_def word_gt_0 split: if_splits\<close>)

lemma rw_writer_same:
  assumes "rw_writer (l, pc)" "\<not> claims (pc t)" "\<not> claims p"
  shows "rw_writer (l, pc(t := p))"
proof (cases "rw_has_writer l")
  case True
  with rw_writerD(4) [OF assms(1)] obtain w where w: "claims (pc w)" by blast
  with assms(2) have "w \<noteq> t" by blast
  show ?thesis
  proof (rule rw_writer_one [where t = w, OF True])
    show "claims ((pc(t := p)) u) \<longleftrightarrow> u = w" for u
      using w assms(2,3) rw_writerD(3) [OF assms(1) w, of u] \<open>w \<noteq> t\<close> by auto
  qed (use assms(1) \<open>w \<noteq> t\<close> in \<open>auto simp: rw_writer_def\<close>)
next
  case False
  then show ?thesis by (rule rw_writer_none) (use rw_writerD(2) [OF assms(1) False] assms(3) in auto)
qed

lemma rw_writer_step: "rw_step n s s' \<Longrightarrow> rw_count n s \<Longrightarrow> rw_writer s \<Longrightarrow> rw_writer s'"
proof (induction rule: rw_step.induct)
  case (runlock t pc l l' k pc')
  from runlock.prems runlock.hyps(2-4) show ?case by (rule rw_writer_runlock)
next
  case (wunlock t pc l l' k pc')
  have t: "claims (pc t)" using wunlock.hyps(2) by simp
  have "\<not> claims ((pc(t := Outside)) u)" for u using rw_writerD(3) [OF wunlock.prems(2) t, of u] by auto
  then have "\<not> claims (pc' u)" for u unfolding notified_wake(4) [OF wunlock.hyps(4)] .
  moreover have "\<not> rw_has_writer l'" using wunlock.hyps(3) by (auto simp: WUnlock_def)
  ultimately show ?case by (intro rw_writer_none)
next
  case (rlock t pc l l')
  then have l: "\<not> rw_has_writer l" "\<not> rw_has_writer l'" by (auto simp: RLock_def split: if_splits)
  show ?case by (rule rw_writer_none [OF l(2)]) (use rw_writerD(2) [OF rlock.prems(2) l(1)] in auto)
next
  case (rlock_wait t pc l)
  then show ?case by (intro rw_writer_same) auto
next
  case (wlock t pc l l')
  then have l: "\<not> rw_has_writer l" "rw_has_writer l'" by (auto simp: WLock_claim_def split: if_splits)
  show ?case by (rule rw_writer_enter [OF l(2)]) (rule rw_writerD(2) [OF wlock.prems(2) l(1)])
next
  case (wlock_wait t pc l)
  then show ?case by (intro rw_writer_same) auto
next
  case (drain t pc l)
  have t: "claims (pc t)" using drain.hyps(2) by simp
  show ?case by (rule rw_writer_enter [OF rw_writerD(1) [OF drain.prems(2) t]]) (use rw_writerD(3) [OF drain.prems(2) t] in blast)
qed

lemma rw_sleep_step: "rw_step n s s' \<Longrightarrow> n < 2 ^ 32 - 1 \<Longrightarrow> rw_count n s \<Longrightarrow> rw_sleep s \<Longrightarrow> rw_sleep s'"
proof (induction rule: rw_step.induct)
  case (rlock_wait t pc l)
  have "card (readers pc) \<le> card {..<n}" by (rule card_mono) (use readers_fin(2) [OF rlock_wait.prems(2)] in auto)
  then have "unat (rw_reader_num l) < 2 ^ 32 - 1" using rlock_wait.prems(1,2) by (simp add: rw_count_def)
  then have "rw_reader_num l \<noteq> - 1" by (auto simp: unsigned_minus_1_eq_mask mask_eq_exp_minus_1)
  then show ?case using rlock_wait.hyps(3) by (auto simp: rw_sleep_def RLock_def split: if_splits)
next
  case (runlock t pc l l' k pc')
  then show ?case using notified_wake(6) [OF runlock.hyps(4)] RUnlock_fields [OF runlock.hyps(3)]
    by (fastforce simp: rw_sleep_def split: if_splits)
next
  case (wunlock t pc l l' k pc')
  then show ?case by (auto simp: rw_sleep_def WUnlock_def)
qed (auto simp: rw_sleep_def RLock_def WLock_claim_def enter_w_def split: if_splits)

lemma wake_upd:
  "rw_count n (l, pc) \<Longrightarrow> rw_count n (l, pc(t := wake (pc t)))" "rw_writer (l, pc) \<Longrightarrow> rw_writer (l, pc(t := wake (pc t)))"
  "rw_sleep (l, pc) \<Longrightarrow> rw_sleep (l, pc(t := wake (pc t)))"
proof -
  let ?q = "pc(t := wake (pc t))"
  have r: "readers ?q = readers pc" by (rule readers_wake)
  have q: "?q u = Outside \<longleftrightarrow> pc u = Outside" "claims (?q u) \<longleftrightarrow> claims (pc u)" "?q u = Writing \<longleftrightarrow> pc u = Writing"
    "?q u = DAsleep \<Longrightarrow> pc u = DAsleep" "?q u \<in> {RAsleep, WAsleep} \<Longrightarrow> pc u \<in> {RAsleep, WAsleep}" for u
    by (cases "u = t"; simp)+
  show "rw_count n (l, pc) \<Longrightarrow> rw_count n (l, ?q)" unfolding rw_count_def fst_conv snd_conv r q(1) .
  show "rw_writer (l, pc) \<Longrightarrow> rw_writer (l, ?q)" unfolding rw_writer_def fst_conv snd_conv q(2,3) using q(4) by blast
  show "rw_sleep (l, pc) \<Longrightarrow> rw_sleep (l, ?q)" unfolding rw_sleep_def fst_conv snd_conv using q(5) by blast
qed

lemma rw_reach_inv: "rw_reach n s \<Longrightarrow> rw_count n s \<and> rw_writer s"
proof (induction rule: rw_reach.induct)
  case start
  show ?case by (simp add: rw_count_def rw_writer_def RWLock_def readers_def)
next
  case (move s s')
  then show ?case using rw_count_step rw_writer_step by blast
next
  case (spurious l pc t)
  then show ?case using wake_upd(1,2) by blast
qed

lemma rw_reach_sleep: "rw_reach n s \<Longrightarrow> n < 2 ^ 32 - 1 \<Longrightarrow> rw_sleep s"
proof (induction rule: rw_reach.induct)
  case start
  show ?case by (simp add: rw_sleep_def)
next
  case (move s s')
  then show ?case using rw_reach_inv rw_sleep_step by blast
next
  case (spurious l pc t)
  then show ?case by (intro wake_upd(3)) simp
qed

text \<open>C12. The read-write lock is exclusive. However many threads lock and unlock it, in whatever order they run and are woken, also
  for no reason, a thread inside \<open>WLock\<close> is the only thread inside, and the lock counts its readers exactly.\<close>

theorem RWLock_exclusive:
  assumes "rw_reach n (l, pc)"
  shows "card {t. pc t = Reading} = unat (rw_reader_num l) \<and> (pc t = Writing \<longrightarrow> u \<noteq> t \<longrightarrow> pc u \<notin> {Reading, Writing})"
proof -
  have I: "rw_count n (l, pc)" "rw_writer (l, pc)" using rw_reach_inv [OF assms] by auto
  have "pc u \<noteq> Reading" if "pc t = Writing"
  proof
    assume "pc u = Reading"
    then have "card (readers pc) \<noteq> 0" using readers_fin(1) [OF I(1)] by (auto simp: readers_def)
    with I that show False by (auto simp: rw_count_def rw_writer_def)
  qed
  with I show ?thesis by (auto simp: rw_count_def rw_writer_def readers_def)
qed

section \<open>The read-write lock never deadlocks\<close>

definition rw_inv :: "nat \<Rightarrow> rwlock \<times> (nat \<Rightarrow> rw_pc) \<Rightarrow> bool" where
  "rw_inv n s \<longleftrightarrow> rw_count n s \<and> rw_writer s \<and> rw_sleep s"

lemma rw_inv_step:
  assumes "rw_step n s s'" "n < 2 ^ 32 - 1" "rw_inv n s"
  shows "rw_inv n s'"
  using rw_count_step [OF assms(1)] rw_writer_step [OF assms(1)] rw_sleep_step [OF assms(1,2)] assms(3)
  unfolding rw_inv_def by blast

lemma notified_ex: "\<exists>pc'. notified k pc pc'"
proof (cases k)
  case Notify_r
  then show ?thesis unfolding Notify_r notified.simps by blast
next
  case Notify_w
  then show ?thesis unfolding Notify_w notified.simps by blast
qed simp_all

lemma rw_inside: "rw_count n (l, pc) \<Longrightarrow> pc t \<noteq> Outside \<Longrightarrow> t < n"
  unfolding rw_count_def snd_conv by (meson not_le)

text \<open>The steps by which the thread \<open>t\<close> gets the lock: \<open>t\<close> goes on; and of the other threads, those inside leave, the one that has claimed the
  write lock and has been woken enters, and those asleep are notified. No other thread calls \<open>RLock\<close> or \<open>WLock\<close> or gets a lock.\<close>

definition rw_help :: "nat \<Rightarrow> nat \<Rightarrow> rwlock \<times> (nat \<Rightarrow> rw_pc) \<Rightarrow> rwlock \<times> (nat \<Rightarrow> rw_pc) \<Rightarrow> bool" where
  "rw_help n t s s' \<longleftrightarrow> rw_step n s s' \<and> (\<forall>u. u \<noteq> t \<longrightarrow> snd s' u = snd s u \<or> snd s' u = wake (snd s u) \<or>
     (snd s u \<in> {Reading, Writing} \<and> snd s' u = Outside) \<or> (snd s u = DWoken \<and> snd s' u = Writing))"

lemma rw_help_leave:
  assumes "rw_step n (l, pc) (l', pc')" "pc w \<in> {Reading, Writing}" "notified k (pc(w := Outside)) pc'"
  shows "rw_help n t (l, pc) (l', pc')"
  unfolding rw_help_def snd_conv
proof (intro conjI allI impI)
  fix u
  show "pc' u = pc u \<or> pc' u = wake (pc u) \<or> (pc u \<in> {Reading, Writing} \<and> pc' u = Outside) \<or> (pc u = DWoken \<and> pc' u = Writing)"
    using notified_wake(1) [OF assms(3), of u] assms(2) by (cases "u = w") auto
qed fact

text \<open>All readers leave. No other thread does anything but wake up.\<close>

lemma drain_readers:
  assumes "rw_inv n (l, pc)" "n < 2 ^ 32 - 1"
  shows "\<exists>l' pc'. (rw_help n t)\<^sup>*\<^sup>* (l, pc) (l', pc') \<and> rw_inv n (l', pc') \<and> readers pc' = {} \<and>
    (\<forall>u. pc u \<noteq> Reading \<longrightarrow> wake (pc' u) = wake (pc u))"
  using assms(1)
proof (induction "card (readers pc)" arbitrary: l pc)
  case 0
  have "finite (readers pc)" using 0(2) readers_fin(1) unfolding rw_inv_def by blast
  with 0(1) have "readers pc = {}" by simp
  with 0(2) show ?case by blast
next
  case (Suc m)
  have C: "rw_count n (l, pc)" using Suc.prems unfolding rw_inv_def by blast
  note fin = readers_fin(1) [OF C]
  from Suc.hyps(2) have "readers pc \<noteq> {}" by auto
  then obtain v where t: "pc v = Reading" unfolding readers_def by blast
  obtain l1 k where u: "RUnlock l = (l1, k)" by (cases "RUnlock l")
  obtain pc1 where n: "notified k (pc(v := Outside)) pc1" using notified_ex by blast
  have st: "rw_step n (l, pc) (l1, pc1)" by (rule rw_step.runlock [OF rw_inside [OF C] t u n]) (simp add: t)
  have I: "rw_inv n (l1, pc1)" by (rule rw_inv_step [OF st assms(2) Suc.prems])
  have hp: "rw_help n t (l, pc) (l1, pc1)" by (rule rw_help_leave [OF st _ n]) (simp add: t)
  have "v \<in> readers pc" using t by (simp add: readers_def)
  then have "card (readers pc1) = m" using Suc.hyps(2) fin by (simp add: notified_wake(2) [OF n] readers_upd)
  from Suc.hyps(1) [OF this [symmetric] I] obtain l' pc' where r: "(rw_help n t)\<^sup>*\<^sup>* (l1, pc1) (l', pc')" "rw_inv n (l', pc')"
    "readers pc' = {}" "\<forall>u. pc1 u \<noteq> Reading \<longrightarrow> wake (pc' u) = wake (pc1 u)" by blast
  have "wake (pc' x) = wake (pc x)" if x: "pc x \<noteq> Reading" for x
  proof -
    have "x \<noteq> v" using x t by blast
    then have "pc1 x = pc x \<or> pc1 x = wake (pc x)" using notified_wake(1) [OF n, of x] by simp
    then have "wake (pc1 x) = wake (pc x)" "pc1 x \<noteq> Reading" using x by auto
    then show ?thesis using r(4) by simp
  qed
  moreover have "(rw_help n t)\<^sup>*\<^sup>* (l, pc) (l', pc')" using hp r(1) by (rule converse_rtranclp_into_rtranclp)
  ultimately show ?case using r(2,3) by blast
qed

text \<open>Without readers the thread that has or claims the write lock can finish, and then a waiting thread gets in.\<close>

lemma writer_leaves:
  assumes "rw_inv n (l, pc)" "n < 2 ^ 32 - 1" "pc w = Writing"
  shows "\<exists>l' pc'. rw_help n t (l, pc) (l', pc') \<and> rw_inv n (l', pc') \<and> \<not> rw_has_writer l' \<and> rw_reader_num l' = rw_reader_num l \<and>
    (\<forall>u. u \<noteq> w \<longrightarrow> wake (pc' u) = wake (pc u))"
proof -
  have C: "rw_count n (l, pc)" using assms(1) unfolding rw_inv_def by blast
  obtain l' k where k: "WUnlock l = (l', k)" by (cases "WUnlock l")
  obtain pc' where n: "notified k (pc(w := Outside)) pc'" using notified_ex by blast
  have st: "rw_step n (l, pc) (l', pc')" by (rule rw_step.wunlock [OF rw_inside [OF C] assms(3) k n]) (simp add: assms(3))
  have "wake (pc' u) = wake (pc u)" if "u \<noteq> w" for u using notified_wake(1) [OF n, of u] that by auto
  moreover have "\<not> rw_has_writer l'" "rw_reader_num l' = rw_reader_num l" using k by (auto simp: WUnlock_def)
  moreover have "rw_help n t (l, pc) (l', pc')" by (rule rw_help_leave [OF st _ n]) (simp add: assms(3))
  ultimately show ?thesis using rw_inv_step [OF st assms(2,1)] by blast
qed

lemma waiting_enters:
  assumes "rw_inv n (l, pc)" "rw_reader_num l = 0" "\<not> rw_has_writer l" "wake (pc t) \<in> {RWoken, WWoken}"
  shows "\<exists>s'. rw_help n t (l, pc) s' \<and> snd s' t \<in> {Reading, Writing}"
proof -
  have C: "rw_count n (l, pc)" and S: "rw_sleep (l, pc)" using assms(1) unfolding rw_inv_def by blast+
  have "pc t \<noteq> Outside" using assms(4) by auto
  then have tn: "t < n" by (rule rw_inside [OF C])
  have "pc t \<noteq> RAsleep" "pc t \<noteq> WAsleep" using S assms(3) unfolding rw_sleep_def by auto
  with assms(4) consider "pc t = RWoken" | "pc t = WWoken" by (cases "pc t") auto
  then show ?thesis
  proof cases
    case 1
    have "RLock l = Some (l\<lparr>rw_reader_num := rw_reader_num l + 1\<rparr>)" using assms(2,3) by (simp add: RLock_def)
    from rw_step.rlock [OF tn _ this, of pc] 1 show ?thesis unfolding rw_help_def by fastforce
  next
    case 2
    have "WLock_claim l = Some (l\<lparr>rw_has_writer := True\<rparr>)" using assms(3) by (simp add: WLock_claim_def)
    from rw_step.wlock [OF tn _ this, of pc] 2 have "rw_step n (l, pc) (enter_w t (l\<lparr>rw_has_writer := True\<rparr>) pc)" by simp
    moreover have "snd (enter_w t (l\<lparr>rw_has_writer := True\<rparr>) pc) t = Writing" using assms(2) by (simp add: enter_w_def WLock_drain_def)
    ultimately show ?thesis unfolding rw_help_def enter_w_def by fastforce
  qed
qed

lemma waiting_after_writer:
  assumes "rw_inv n (l, pc)" "n < 2 ^ 32 - 1" "rw_reader_num l = 0" "pc w = Writing" "w \<noteq> t \<Longrightarrow> wake (pc t) \<in> {RWoken, WWoken}"
  shows "\<exists>s'. (rw_help n t)\<^sup>*\<^sup>* (l, pc) s' \<and> snd s' t \<in> {Reading, Writing}"
proof (cases "w = t")
  case True
  then show ?thesis using assms(4) by (intro exI [of _ "(l, pc)"]) simp
next
  case False
  from writer_leaves [OF assms(1,2,4), of t] obtain l' pc' where r: "rw_help n t (l, pc) (l', pc')" "rw_inv n (l', pc')"
    "\<not> rw_has_writer l'" "rw_reader_num l' = rw_reader_num l" "\<forall>u. u \<noteq> w \<longrightarrow> wake (pc' u) = wake (pc u)" by blast
  have z: "rw_reader_num l' = 0" using r(4) assms(3) by simp
  have t: "wake (pc' t) \<in> {RWoken, WWoken}" using r(5) assms(5) [OF False] False by simp
  from waiting_enters [OF r(2) z r(3) t] r(1) show ?thesis by (meson converse_rtranclp_into_rtranclp rtranclp.rtrancl_refl)
qed

lemma waiting_gets_lock:
  assumes "rw_inv n (l, pc)" "n < 2 ^ 32 - 1" "readers pc = {}" "wake (pc t) \<in> {RWoken, WWoken, DWoken}"
  shows "\<exists>s'. (rw_help n t)\<^sup>*\<^sup>* (l, pc) s' \<and> snd s' t \<in> {Reading, Writing}"
proof -
  have C: "rw_count n (l, pc)" and W: "rw_writer (l, pc)" using assms(1) unfolding rw_inv_def by blast+
  have z: "rw_reader_num l = 0" using C assms(3) by (simp add: rw_count_def unat_eq_zero)
  show ?thesis
  proof (cases "rw_has_writer l")
    case False
    have "\<not> claims (wake (pc t))" using rw_writerD(2) [OF W False] by simp
    with assms(4) have "wake (pc t) \<in> {RWoken, WWoken}" by (cases "pc t") auto
    from waiting_enters [OF assms(1) z False this] show ?thesis by blast
  next
    case True
    with rw_writerD(4) [OF W] obtain w where w: "claims (pc w)" by blast
    have t: "wake (pc t) \<in> {RWoken, WWoken}" if "w \<noteq> t"
    proof -
      have "\<not> claims (wake (pc t))" using rw_writerD(3) [OF W w, of t] that by auto
      with assms(4) show ?thesis by (cases "pc t") auto
    qed
    have "pc w \<noteq> DAsleep" using W z unfolding rw_writer_def by auto
    with w consider "pc w = Writing" | "pc w = DWoken" by (cases "pc w") auto
    then show ?thesis
    proof cases
      case 1
      show ?thesis by (rule waiting_after_writer [OF assms(1,2) z 1 t])
    next
      case 2
      have e: "enter_w w l pc = (l, pc(w := Writing))" using z by (simp add: enter_w_def WLock_drain_def)
      have st: "rw_step n (l, pc) (l, pc(w := Writing))"
        using rw_step.drain [where t = w and n = n and pc = pc and l = l] rw_inside [OF C, of w] 2 unfolding e by simp
      have hp: "rw_help n t (l, pc) (l, pc(w := Writing))" using st 2 by (simp add: rw_help_def)
      have q: "(pc(w := Writing)) w = Writing" "w \<noteq> t \<Longrightarrow> wake ((pc(w := Writing)) t) \<in> {RWoken, WWoken}" using t by simp_all
      from waiting_after_writer [OF rw_inv_step [OF st assms(2,1)] assms(2) z q] hp show ?thesis by (meson converse_rtranclp_into_rtranclp)
    qed
  qed
qed

text \<open>C13. The read-write lock never deadlocks. Take any state that fewer than \<open>2 ^ 32 - 1\<close> threads reach by locking and unlocking, with
  threads also woken for no reason, and a thread that waits for the lock as a reader or a writer. It can still get it by steps in
  which no thread is woken without being notified and no other thread makes a new call of \<open>RLock\<close> or \<open>WLock\<close> or wakes up and gets a lock
  before it, except a writer that had claimed the lock already: the threads inside only have to leave, and the notifications of
  \<open>RUnlock\<close> and \<open>WUnlock\<close> wake those that have to be woken. The lock is not shown to be fair: other threads may overtake.\<close>

theorem RWLock_no_deadlock:
  assumes "rw_reach n (l, pc)" "n < 2 ^ 32 - 1" "pc t \<in> {RAsleep, RWoken, WAsleep, WWoken, DAsleep, DWoken}"
  shows "\<exists>s'. (rw_help n t)\<^sup>*\<^sup>* (l, pc) s' \<and> snd s' t \<in> {Reading, Writing}"
proof -
  have I: "rw_inv n (l, pc)" unfolding rw_inv_def using rw_reach_inv [OF assms(1)] rw_reach_sleep [OF assms(1,2)] by blast
  from drain_readers [OF I assms(2), of t] obtain l' pc' where r: "(rw_help n t)\<^sup>*\<^sup>* (l, pc) (l', pc')" "rw_inv n (l', pc')"
    "readers pc' = {}" "\<forall>u. pc u \<noteq> Reading \<longrightarrow> wake (pc' u) = wake (pc u)" by blast
  have "pc t \<noteq> Reading" using assms(3) by auto
  with r(4) have "wake (pc' t) = wake (pc t)" by blast
  then have "wake (pc' t) \<in> {RWoken, WWoken, DWoken}" using assms(3) by auto
  from waiting_gets_lock [OF r(2) assms(2) r(3) this] r(1) show ?thesis by (meson rtranclp_trans)
qed

text \<open>A reader is inside and a writer waits for it to leave.\<close>

lemma rw_reach_example: "rw_reach 2 (\<lparr>rw_has_writer = True, rw_reader_num = 1\<rparr>, (\<lambda>_. Outside)(0 := Reading, 1 := DAsleep))"
proof -
  have "rw_step 2 (RWLock, \<lambda>_. Outside) (RWLock\<lparr>rw_reader_num := 1\<rparr>, (\<lambda>_. Outside)(0 := Reading))"
    by (rule rw_step.rlock) (simp_all add: RWLock_def RLock_def)
  with rw_reach.start have r: "rw_reach 2 (RWLock\<lparr>rw_reader_num := 1\<rparr>, (\<lambda>_. Outside)(0 := Reading))" by (rule rw_reach.move)
  have "rw_step 2 (RWLock\<lparr>rw_reader_num := 1\<rparr>, (\<lambda>_. Outside)(0 := Reading))
    (enter_w 1 (RWLock\<lparr>rw_reader_num := 1, rw_has_writer := True\<rparr>) ((\<lambda>_. Outside)(0 := Reading)))"
    by (rule rw_step.wlock) (simp_all add: RWLock_def WLock_claim_def)
  with r have "rw_reach 2 (enter_w 1 (RWLock\<lparr>rw_reader_num := 1, rw_has_writer := True\<rparr>) ((\<lambda>_. Outside)(0 := Reading)))"
    by (rule rw_reach.move)
  then show ?thesis by (simp add: enter_w_def WLock_drain_def RWLock_def)
qed

theorem RWLock_no_deadlock_witness:
  "\<exists>s'. (rw_help 2 1)\<^sup>*\<^sup>* (\<lparr>rw_has_writer = True, rw_reader_num = 1\<rparr>, (\<lambda>_. Outside)(0 := Reading, 1 := DAsleep)) s' \<and>
     snd s' 1 \<in> {Reading, Writing}"
  by (rule RWLock_no_deadlock [OF rw_reach_example]) simp_all

text \<open>A writer is inside.\<close>

theorem RWLock_exclusive_witness:
  "\<exists>l pc. rw_reach 2 (l, pc) \<and> pc 0 = Writing \<and> pc 1 \<notin> {Reading, Writing} \<and> card {t. pc t = Reading} = unat (rw_reader_num l)"
proof -
  let ?l = "RWLock\<lparr>rw_has_writer := True\<rparr>" and ?pc = "(\<lambda>_ :: nat. Outside)(0 := Writing)"
  have "rw_step 2 (RWLock, \<lambda>_. Outside) (enter_w 0 ?l (\<lambda>_. Outside))"
    by (rule rw_step.wlock) (simp_all add: RWLock_def WLock_claim_def)
  with rw_reach.start have "rw_reach 2 (enter_w 0 ?l (\<lambda>_. Outside))" by (rule rw_reach.move)
  moreover have "enter_w 0 ?l (\<lambda>_. Outside) = (?l, ?pc)" by (simp add: enter_w_def WLock_drain_def RWLock_def)
  ultimately have r: "rw_reach 2 (?l, ?pc)" by simp
  have w: "?pc 0 = Writing" "1 \<noteq> (0 :: nat)" by simp_all
  from RWLock_exclusive [OF r, of 0 1] w r show ?thesis by blast
qed

section \<open>The thread pool\<close>

text \<open>The task a worker has popped, and the one it has started.\<close>

fun popped_by :: "'a worker \<Rightarrow> 'a list" where
  "popped_by InPop = []" | "popped_by (HasTask x) = [x]" | "popped_by (StartedTask x) = [x]"

fun started_by :: "'a worker \<Rightarrow> 'a list" where
  "started_by (StartedTask x) = [x]" | "started_by _ = []"

definition pool_inv :: "nat \<Rightarrow> 32 word \<Rightarrow> 'a pool_state \<Rightarrow> bool" where
  "pool_inv n mx s \<longleftrightarrow> ps_pushed s = ps_popped s @ tp_tasks (ps_pool s) \<and> length (ps_workers s) = n \<and>
     mset (ps_popped s) = mset (concat (map popped_by (ps_workers s))) \<and>
     mset (ps_started s) = mset (concat (map started_by (ps_workers s))) \<and>
     tp_max (ps_pool s) = mx \<and> length (tp_tasks (ps_pool s)) \<le> unat mx"

lemma mset_concat_upd:
  "i < length ws \<Longrightarrow> mset (concat (map f (ws[i := w]))) + mset (f (ws ! i)) = mset (concat (map f ws)) + mset (f w)"
proof (induction ws arbitrary: i)
  case (Cons v ws)
  then show ?case by (cases i) (auto simp: add.assoc add.left_commute)
qed simp

lemma pool_inv_step: "pool_step s s' \<Longrightarrow> pool_inv n mx s \<Longrightarrow> pool_inv n mx s'"
proof (induction rule: pool_step.induct)
  case (push x s p)
  then have p: "of_nat (length (tp_tasks (ps_pool s))) \<noteq> mx" "p = (ps_pool s)\<lparr>tp_tasks := tp_tasks (ps_pool s) @ [x]\<rparr>"
    by (auto simp: Push_def pool_inv_def split: if_splits)
  have "length (tp_tasks (ps_pool s)) \<noteq> unat mx" using p(1) by auto
  with push.prems p(2) show ?case by (simp add: pool_inv_def)
next
  case (pop i s x p)
  then have p: "tp_tasks (ps_pool s) = x # tp_tasks p" "tp_max p = tp_max (ps_pool s)" by (auto simp: Pop_def split: list.splits)
  show ?case using pop.prems p mset_concat_upd [OF pop.hyps(1), of popped_by "HasTask x"]
      mset_concat_upd [OF pop.hyps(1), of started_by "HasTask x"] by (simp add: pool_inv_def pop.hyps(2))
next
  case (start i s x)
  show ?case using start.prems mset_concat_upd [OF start.hyps(1), of popped_by "StartedTask x"]
      mset_concat_upd [OF start.hyps(1), of started_by "StartedTask x"] by (simp add: pool_inv_def start.hyps(2))
qed

lemma pool_inv_workers:
  "mset (concat (map started_by ws)) \<subseteq># mset (concat (map popped_by ws))"
  "length (concat (map popped_by ws)) \<le> length ws"
  "InPop \<notin> set ws \<Longrightarrow> length (concat (map popped_by ws)) = length ws"
proof -
  have "mset (started_by w) \<subseteq># mset (popped_by w)" "length (popped_by w) \<le> 1" "w \<noteq> InPop \<Longrightarrow> length (popped_by w) = 1" for w :: "'a worker"
    by (cases w; simp)+
  then show "mset (concat (map started_by ws)) \<subseteq># mset (concat (map popped_by ws))" "length (concat (map popped_by ws)) \<le> length ws"
    "InPop \<notin> set ws \<Longrightarrow> length (concat (map popped_by ws)) = length ws"
    by (induction ws) (auto intro: subset_mset.add_mono add_le_mono [of _ 1, simplified])
qed

text \<open>C33. A thread pool runs at most as many tasks as it has threads, since every worker pops one task, runs it and returns. In every
  interleaving of calls of \<open>Push\<close> with \<open>n\<close> workers, where a task is started some time after it was popped and the maximum is not changed: the tasks
  are popped in the order in which they were pushed; what has been started are popped tasks, each at most once, in some order; at
  most one task for each thread is ever popped; the queue never holds more than its maximum, so at most the sum of the two is
  ever pushed, and every later \<open>Push\<close> blocks; and a worker that still waits in \<open>Pop\<close> remains as long as fewer tasks than threads were
  pushed.\<close>

theorem ThreadPool_one_task_per_thread:
  assumes "pool_step\<^sup>*\<^sup>* (threads_StartRun n mx) s"
  shows "ps_pushed s = ps_popped s @ tp_tasks (ps_pool s) \<and> mset (ps_started s) \<subseteq># mset (ps_popped s) \<and>
    length (ps_popped s) \<le> n \<and> length (tp_tasks (ps_pool s)) \<le> unat mx \<and>
    (length (ps_pushed s) = n + unat mx \<longrightarrow> Push x (ps_pool s) = None) \<and>
    (length (ps_pushed s) < n \<longrightarrow> InPop \<in> set (ps_workers s))"
proof -
  have I: "pool_inv n mx s" using assms
  proof (induction rule: rtranclp_induct)
    case base
    show ?case by (simp add: pool_inv_def threads_StartRun_def ThreadPool_def map_replicate_const concat_replicate_trivial)
  next
    case (step s s')
    then show ?case by (blast intro: pool_inv_step)
  qed
  have pl: "length (ps_popped s) = length (concat (map popped_by (ps_workers s)))"
    using I by (metis pool_inv_def size_mset)
  have le: "length (ps_popped s) \<le> n" using I pool_inv_workers(2) [of "ps_workers s"] pl by (simp add: pool_inv_def)
  have "Push x (ps_pool s) = None" if "length (ps_pushed s) = n + unat mx"
  proof -
    have "length (tp_tasks (ps_pool s)) = unat mx" using I le that by (simp add: pool_inv_def)
    then show ?thesis using I by (simp add: Push_def pool_inv_def)
  qed
  moreover have "InPop \<in> set (ps_workers s)" if "length (ps_pushed s) < n"
  proof (rule ccontr)
    assume "InPop \<notin> set (ps_workers s)"
    from pool_inv_workers(3) [OF this] show False using I that pl by (simp add: pool_inv_def)
  qed
  ultimately show ?thesis using I le pool_inv_workers(1) [of "ps_workers s"] by (simp add: pool_inv_def)
qed

text \<open>One thread, a queue of one, and two tasks: the first runs, the second stays.\<close>

theorem ThreadPool_one_task_per_thread_witness:
  "\<exists>s. pool_step\<^sup>*\<^sup>* (threads_StartRun 1 1 :: nat pool_state) s \<and> ps_pushed s = [7, 8] \<and> ps_started s = [7] \<and> Push 9 (ps_pool s) = None"
proof -
  let ?s0 = "threads_StartRun 1 1 :: nat pool_state"
  let ?s1 = "?s0\<lparr>ps_pool := \<lparr>tp_tasks = [7], tp_max = 1\<rparr>, ps_pushed := [7]\<rparr>"
  let ?s2 = "?s1\<lparr>ps_pool := \<lparr>tp_tasks = [], tp_max = 1\<rparr>, ps_workers := [HasTask 7], ps_popped := [7]\<rparr>"
  let ?s3 = "?s2\<lparr>ps_pool := \<lparr>tp_tasks = [8], tp_max = 1\<rparr>, ps_pushed := [7, 8]\<rparr>"
  let ?s4 = "?s3\<lparr>ps_workers := [StartedTask 7], ps_started := [7]\<rparr>"
  have "pool_step ?s0 ?s1" using pool_step.push [of 7 ?s0] by (simp add: threads_StartRun_def ThreadPool_def Push_def)
  moreover have "pool_step ?s1 ?s2" using pool_step.pop [of 0 ?s1 7] by (simp add: threads_StartRun_def Pop_def)
  moreover have "pool_step ?s2 ?s3" using pool_step.push [of 8 ?s2] by (simp add: threads_StartRun_def Push_def)
  moreover have "pool_step ?s3 ?s4" using pool_step.start [of 0 ?s3 7] by (simp add: threads_StartRun_def)
  ultimately have r: "pool_step\<^sup>*\<^sup>* ?s0 ?s4" by (meson rtranclp.rtrancl_into_rtrancl rtranclp.rtrancl_refl)
  have "length (ps_pushed ?s4) = 1 + unat (1 :: 32 word)" by simp
  with ThreadPool_one_task_per_thread [OF r, of 9] have "Push 9 (ps_pool ?s4) = None" by blast
  with r show ?thesis by (intro exI [of _ ?s4]) simp
qed

text \<open>\<open>SetMaxQueueSize\<close> below the number of queued tasks makes the queue unbounded: \<open>Push\<close> compares with \<open>==\<close>.\<close>

lemma SetMaxQueueSize_unbounds:
  assumes "0 <s num" "unat num < length (tp_tasks p)" "length (tp_tasks p) < 2 ^ 32"
  shows "Push task (SetMaxQueueSize num p) \<noteq> None"
proof -
  have "of_nat (length (tp_tasks p)) \<noteq> num"
  proof
    assume "of_nat (length (tp_tasks p)) = num"
    then have "unat num = length (tp_tasks p)" using assms(3) by (auto simp: unat_of_nat)
    then show False using assms(2) by simp
  qed
  then show ?thesis using assms(1) by (simp add: Push_def SetMaxQueueSize_def)
qed

end
