(* ===== verification/Text_Stream.thy ===== *)
theory Text_Stream
  imports String_View "HOL-Library.Sublist" "HOL-Library.Signed_Division"
begin

text \<open>
  Model of the text streams of \<^verbatim>\<open>kanon/string\<close>: \<^verbatim>\<open>fixed_buffer.{h,cc}\<close> (a character array with a length and the conversion of
  numbers to text), \<^verbatim>\<open>lexical_stream.h\<close>, \<^verbatim>\<open>fmt_stream.h\<close> and the conversion to strings of \<^verbatim>\<open>lexical_cast.h\<close>. The text that
  \<open>snprintf\<close> gives for a floating-point number is an argument.
\<close>

section \<open>Numbers as text\<close>

text \<open>The digits for the remainders from -9 to 9. Division and remainder are those of C.\<close>

definition digits :: bytes where
  "digits = [57, 56, 55, 54, 53, 52, 51, 50, 49, 48, 49, 50, 51, 52, 53, 54, 55, 56, 57]"

function int2Str_loop :: "int \<Rightarrow> bytes" where
  "int2Str_loop i = (let left = i smod 10; i = i sdiv 10 in
     digits ! nat (9 + left) # (if i \<noteq> 0 then int2Str_loop i else []))"
  by pat_completeness auto
termination
  by (relation "measure (\<lambda>i. nat \<bar>i\<bar>)") (auto simp: signed_divide_int_def abs_mult zero_less_mult_iff)

declare int2Str_loop.simps [simp del]

definition int2Str :: "int \<Rightarrow> bytes" where
  "int2Str i = rev (int2Str_loop i @ (if i < 0 then [45] else []))"

definition hex_digits :: bytes where
  "hex_digits = [48, 49, 50, 51, 52, 53, 54, 55, 56, 57, 65, 66, 67, 68, 69, 70]"

function ptrToHexStr_loop :: "nat \<Rightarrow> bytes" where
  "ptrToHexStr_loop p = (let r = p mod 16; p = p div 16 in hex_digits ! r # (if p \<noteq> 0 then ptrToHexStr_loop p else []))"
  by pat_completeness auto
termination
  by (relation "measure id") auto

declare ptrToHexStr_loop.simps [simp del]

definition ptrToHexStr :: "64 word \<Rightarrow> bytes" where
  "ptrToHexStr p = (let ds = ptrToHexStr_loop (unat p) in rev (ds @ replicate (16 - length ds) 48))"

section \<open>The buffer\<close>

record fixed_buffer =
  fb_data :: bytes
  fb_len :: "32 word"

definition FixedBuffer :: "bytes \<Rightarrow> fixed_buffer" where
  "FixedBuffer data = \<lparr>fb_data = data, fb_len = 0\<rparr>"

definition avali :: "fixed_buffer \<Rightarrow> 32 word" where
  "avali b = of_nat (length (fb_data b)) - fb_len b"

definition fb_contents :: "fixed_buffer \<Rightarrow> bytes" where
  "fb_contents b = take (unat (fb_len b)) (fb_data b)"

text \<open>Storing bytes at \<open>cur() + k\<close>.\<close>

definition fb_store :: "nat \<Rightarrow> bytes \<Rightarrow> fixed_buffer \<Rightarrow> fixed_buffer res" where
  "fb_store k bs b =
     (if unat (fb_len b) + k + length bs \<le> length (fb_data b)
      then Inr (b\<lparr>fb_data := put_at (unat (fb_len b) + k) bs (fb_data b)\<rparr>) else Inl OutOfBounds)"

definition fb_Append :: "bytes \<Rightarrow> fixed_buffer \<Rightarrow> fixed_buffer res" where
  "fb_Append str b = (let len = of_nat (length str) in
     if len < avali b then
       rbind (fb_store 0 (take (unat len) str) b) (\<lambda>b.
       let b = b\<lparr>fb_len := fb_len b + len\<rparr> in fb_store 0 [0] b)
     else Inr b)"

definition fb_AdvanceRead :: "32 word \<Rightarrow> fixed_buffer \<Rightarrow> fixed_buffer res" where
  "fb_AdvanceRead diff b = (let b = b\<lparr>fb_len := fb_len b + diff\<rparr> in
     rbind (assertR (fb_len b < of_nat (length (fb_data b)))) (\<lambda>_. Inr b))"

text \<open>A conversion writes its text and a terminating null character behind the contents; then the length is advanced.\<close>

definition fb_convert :: "bytes \<Rightarrow> fixed_buffer \<Rightarrow> fixed_buffer res" where
  "fb_convert tx b =
     rbind (fb_store 0 (tx @ [0]) b) (\<lambda>b. rbind (fb_AdvanceRead (of_nat (length tx)) b) (fb_store 0 [0]))"

definition appendInt :: "int \<Rightarrow> fixed_buffer \<Rightarrow> fixed_buffer res" where
  "appendInt i b = (if 32 < avali b then fb_convert (int2Str i) b else Inr b)"

definition appendFloat :: "bytes \<Rightarrow> fixed_buffer \<Rightarrow> fixed_buffer res" where
  "appendFloat tx b = (if 324 < avali b then fb_convert tx b else Inr b)"

definition appendBool :: "bool \<Rightarrow> fixed_buffer \<Rightarrow> fixed_buffer res" where
  "appendBool v b = (if v then fb_Append [84, 114, 117, 101] b else fb_Append [70, 97, 108, 115, 101] b)"

definition appendChar :: "byte \<Rightarrow> fixed_buffer \<Rightarrow> fixed_buffer res" where
  "appendChar c b = fb_Append [c] b"

definition null_text :: bytes where
  "null_text = [40, 110, 117, 108, 108, 41]"

definition appendPtr :: "64 word \<Rightarrow> fixed_buffer \<Rightarrow> fixed_buffer res" where
  "appendPtr p b =
     (if p = 0 \<and> 6 < avali b then fb_Append null_text b
      else if 10 < avali b then
        rbind (fb_store 0 [48, 120] b) (\<lambda>b.
        rbind (fb_store 2 (ptrToHexStr p @ [0]) b) (\<lambda>b.
        rbind (fb_AdvanceRead (of_nat (length (ptrToHexStr p)) + 2) b) (fb_store 0 [0])))
      else Inr b)"

definition fb_reset :: "fixed_buffer \<Rightarrow> fixed_buffer" where
  "fb_reset b = b\<lparr>fb_len := 0\<rparr>"

definition fb_zero :: "fixed_buffer \<Rightarrow> fixed_buffer" where
  "fb_zero b = b\<lparr>fb_data := replicate (length (fb_data b)) 0\<rparr>"

definition fb_swap :: "fixed_buffer \<Rightarrow> fixed_buffer \<Rightarrow> fixed_buffer \<times> fixed_buffer" where
  "fb_swap a b = (b, a)"

section \<open>The streams\<close>

text \<open>The values that can be written with \<open><<\<close>; all integer types are integers here.\<close>

datatype lex_val = LBool bool | LChar byte | LInt int | LDouble bytes | LStr bytes | LPtr "64 word"

fun LexicalStream_shift :: "lex_val \<Rightarrow> fixed_buffer \<Rightarrow> fixed_buffer res" where
  "LexicalStream_shift (LBool v) b = appendBool v b"
| "LexicalStream_shift (LChar c) b = fb_Append [c] b"
| "LexicalStream_shift (LInt i) b = appendInt i b"
| "LexicalStream_shift (LDouble tx) b = appendFloat tx b"
| "LexicalStream_shift (LStr s) b = fb_Append s b"
| "LexicalStream_shift (LPtr p) b = appendPtr p b"

fun stream_all :: "lex_val list \<Rightarrow> fixed_buffer \<Rightarrow> fixed_buffer res" where
  "stream_all [] b = Inr b"
| "stream_all (v # vs) b = rbind (LexicalStream_shift v b) (stream_all vs)"

text \<open>The string of a value through the stream of 64 characters; the size is unsigned.\<close>

definition LexicalCast_string :: "lex_val \<Rightarrow> fixed_buffer \<Rightarrow> (bytes \<times> fixed_buffer) res" where
  "LexicalCast_string src b =
     rbind (LexicalStream_shift src (fb_reset b)) (\<lambda>b.
     rbind (LexicalStream_shift (LChar 0) b) (\<lambda>b.
     let n = unat (fb_len b - 1) in
     if n \<le> length (fb_data b) then Inr (take n (fb_data b), b) else Inl OutOfBounds))"

fun SerializeOne :: "lex_val \<Rightarrow> fixed_buffer \<Rightarrow> fixed_buffer res" where
  "SerializeOne (LBool v) b = appendBool v b"
| "SerializeOne (LChar c) b = appendChar c b"
| "SerializeOne (LInt i) b = appendInt i b"
| "SerializeOne (LDouble tx) b = appendFloat tx b"
| "SerializeOne (LStr s) b = fb_Append s b"
| "SerializeOne (LPtr p) b = appendPtr p b"

text \<open>\<open>ParseAndSerialize\<close> without arguments: the rest of the format. \<^term>\<open>None\<close> if it does not return.\<close>

partial_function (option) fmt_rest :: "string_view \<Rightarrow> fixed_buffer \<Rightarrow> fixed_buffer res option" where
  "fmt_rest fmt b =
     (case sv_find_char fmt 37 0 of
        Inl e \<Rightarrow> Some (Inl e)
      | Inr pos \<Rightarrow>
          if pos < sv_len fmt then
            if pos = sv_len fmt - 1 then Some (Inl AssertFail) else
            (case sv_index fmt (pos + 1) of
               Inl e \<Rightarrow> Some (Inl e)
             | Inr c \<Rightarrow>
                 if c \<noteq> 37 then Some (Inl AssertFail) else
                 (case fb_Append (sv_str (sv_substr fmt 0 (pos + 1))) b of
                    Inl e \<Rightarrow> Some (Inl e)
                  | Inr b \<Rightarrow> fmt_rest (sv_remove_prefix fmt (pos + 2)) b))
          else Some (fb_Append (sv_str fmt) b))"

text \<open>\<open>ParseAndSerialize\<close> with the arguments that are left; with at least one it is \<open>ParseAndSerializeSingle\<close>.\<close>

partial_function (option) ParseAndSerialize :: "string_view \<Rightarrow> lex_val list \<Rightarrow> fixed_buffer \<Rightarrow> fixed_buffer res option" where
  "ParseAndSerialize fmt args b =
     (case args of
        [] \<Rightarrow> fmt_rest fmt b
      | arg # rest \<Rightarrow>
          (case sv_find fmt (StringView_string [37]) 0 of
             Inl e \<Rightarrow> Some (Inl e)
           | Inr pos \<Rightarrow>
               (case fb_Append (take (unat (if pos = npos then sv_len fmt else pos)) (sv_data fmt)) b of
                  Inl e \<Rightarrow> Some (Inl e)
                | Inr b \<Rightarrow>
                    if pos < sv_len fmt then
                      (case sv_index fmt (pos + 1) of
                         Inl e \<Rightarrow> Some (Inl e)
                       | Inr c \<Rightarrow>
                           if c = 37 then
                             (case fb_Append [37] b of
                                Inl e \<Rightarrow> Some (Inl e)
                              | Inr b \<Rightarrow> ParseAndSerialize (sv_substr fmt (pos + 2) npos) args b)
                           else
                             (case SerializeOne arg b of
                                Inl e \<Rightarrow> Some (Inl e)
                              | Inr b \<Rightarrow> ParseAndSerialize (sv_substr fmt (pos + 1) npos) rest b))
                    else Some (Inl AssertFail))))"

definition FmtStream :: "bytes \<Rightarrow> string_view \<Rightarrow> lex_val list \<Rightarrow> fixed_buffer res option" where
  "FmtStream data fmt args = ParseAndSerialize fmt args (FixedBuffer data)"

section \<open>Decimal text\<close>

fun dec_digits :: "nat \<Rightarrow> bytes" where
  "dec_digits n = of_nat (48 + n mod 10) # (if n div 10 \<noteq> 0 then dec_digits (n div 10) else [])"

declare dec_digits.simps [simp del]

text \<open>The value of a decimal text, most significant digit first.\<close>

definition dec_nat :: "bytes \<Rightarrow> nat" where
  "dec_nat = foldl (\<lambda>n c. 10 * n + (unat c - 48)) 0"

definition dec_int :: "bytes \<Rightarrow> int" where
  "dec_int s = (case s of c # cs \<Rightarrow> if c = 45 then - int (dec_nat cs) else int (dec_nat s) | [] \<Rightarrow> 0)"

lemma digits_nth: "r < 10 \<Longrightarrow> digits ! (9 + r) = of_nat (48 + r) \<and> digits ! (9 - r) = of_nat (48 + r)"
proof -
  assume "r < 10"
  then have "r \<in> {0, 1, 2, 3, 4, 5, 6, 7, 8, 9}" by auto
  then show ?thesis by (elim insertE) (simp_all add: digits_def)
qed

lemma int2Str_loop_dec: "int2Str_loop i = dec_digits (nat \<bar>i\<bar>)"
proof (induction i rule: int2Str_loop.induct)
  case (1 i)
  let ?n = "nat \<bar>i\<bar>"
  have d: "nat \<bar>i sdiv 10\<bar> = ?n div 10"
    by (cases "i = 0") (auto simp: signed_divide_int_def abs_mult nat_div_distrib)
  have z: "i sdiv 10 = 0 \<longleftrightarrow> ?n div 10 = 0" unfolding d [symmetric] by simp
  have m: "i smod 10 = sgn i * int (?n mod 10)"
    by (simp add: signed_modulo_int_def zmod_int)
  have "digits ! nat (9 + i smod 10) = of_nat (48 + ?n mod 10)"
  proof (cases "i < 0")
    case True
    then have "nat (9 + i smod 10) = 9 - ?n mod 10" by (simp add: m)
    then show ?thesis using digits_nth [of "?n mod 10"] by simp
  next
    case False
    then have "nat (9 + i smod 10) = 9 + ?n mod 10" by (cases "i = 0") (simp_all add: m nat_add_distrib)
    then show ?thesis using digits_nth [of "?n mod 10"] by simp
  qed
  then show ?case using 1 d z by (subst int2Str_loop.simps, subst dec_digits.simps) (auto simp: Let_def)
qed

lemma unat_digit: "r < 10 \<Longrightarrow> unat (of_nat (48 + r) :: byte) = 48 + r"
  by (simp only: unat_of_nat_byte) simp

lemma dec_nat_digits: "dec_nat (rev (dec_digits n)) = n"
proof (induction n rule: dec_digits.induct)
  case (1 n)
  have u: "unat (of_nat (48 + n mod 10) :: byte) - 48 = n mod 10" using unat_digit [of "n mod 10"] by simp
  show ?case
  proof (cases "n div 10 = 0")
    case True
    then show ?thesis using u by (subst dec_digits.simps) (simp add: dec_nat_def)
  next
    case False
    with 1 have "dec_nat (rev (dec_digits (n div 10))) = n div 10" by simp
    with False u show ?thesis by (subst dec_digits.simps) (simp add: dec_nat_def)
  qed
qed

lemma dec_digits_length: "n < 10 ^ Suc k \<Longrightarrow> length (dec_digits n) \<le> Suc k"
proof (induction k arbitrary: n)
  case 0
  then show ?case by (subst dec_digits.simps) simp
next
  case (Suc k)
  then have "n div 10 < 10 ^ Suc k" by (simp add: less_mult_imp_div_less)
  with Suc.IH show ?case by (subst dec_digits.simps) simp
qed

lemma dec_digits_set: "c \<in> set (dec_digits n) \<Longrightarrow> 48 \<le> unat c \<and> unat c < 58"
proof (induction n rule: dec_digits.induct)
  case (1 n)
  have "48 \<le> unat (of_nat (48 + n mod 10) :: byte) \<and> unat (of_nat (48 + n mod 10) :: byte) < 58"
    using unat_digit [of "n mod 10"] by simp
  with 1 show ?case by (subst (asm) (2) dec_digits.simps) (auto split: if_splits)
qed

lemma dec_int_int2Str: "dec_int (int2Str i) = i"
proof (cases "i < 0")
  case True
  then show ?thesis by (simp add: int2Str_def int2Str_loop_dec dec_int_def dec_nat_digits)
next
  case False
  let ?s = "rev (dec_digits (nat i))"
  have "?s \<noteq> []" by (subst dec_digits.simps) simp
  then obtain c cs where s: "?s = c # cs" by (cases ?s) auto
  have "c \<in> set (dec_digits (nat i))" using s by (metis list.set_intros(1) set_rev)
  then have "c \<noteq> 45" using dec_digits_set [of c "nat i"] by auto
  then have "dec_int ?s = int (dec_nat ?s)" by (simp add: dec_int_def s)
  then show ?thesis using False by (simp add: int2Str_def int2Str_loop_dec dec_nat_digits)
qed

lemma int2Str_length: "\<bar>i\<bar> < 10 ^ 20 \<Longrightarrow> length (int2Str i) \<le> 21"
  using dec_digits_length [of "nat \<bar>i\<bar>" 19] by (cases "i < 0") (simp_all add: int2Str_def int2Str_loop_dec nat_less_iff)

section \<open>Appending to the buffer\<close>

definition fb_inv :: "fixed_buffer \<Rightarrow> bool" where
  "fb_inv b \<longleftrightarrow> unat (fb_len b) < length (fb_data b) \<and> length (fb_data b) < 2 ^ 32"

definition room :: "fixed_buffer \<Rightarrow> nat" where
  "room b = length (fb_data b) - unat (fb_len b)"

text \<open>The call returned, and added exactly the text.\<close>

definition fb_added :: "bytes \<Rightarrow> fixed_buffer \<Rightarrow> fixed_buffer res \<Rightarrow> bool" where
  "fb_added tx b r \<longleftrightarrow> (\<exists>b'. r = Inr b' \<and> fb_inv b' \<and> length (fb_data b') = length (fb_data b) \<and>
     fb_contents b' = fb_contents b @ tx)"

lemma unat_add32: "unat x + unat y < 2 ^ 32 \<Longrightarrow> unat (x + y :: 32 word) = unat x + unat y"
  by (simp add: unat_word_ariths)

lemma unat_of_nat32: "n < 2 ^ 32 \<Longrightarrow> unat (of_nat n :: 32 word) = n"
  by (simp add: unat_of_nat)

lemma unat_avali:
  assumes "fb_inv b"
  shows "unat (avali b) = room b"
proof -
  have n: "unat (of_nat (length (fb_data b)) :: 32 word) = length (fb_data b)"
    by (rule unat_of_nat32) (use assms in \<open>simp add: fb_inv_def\<close>)
  have "fb_len b \<le> of_nat (length (fb_data b))" unfolding word_le_nat_alt n using assms by (simp add: fb_inv_def)
  then show ?thesis by (simp add: avali_def room_def unat_sub n)
qed

lemma avali_gt: "fb_inv b \<Longrightarrow> n < 2 ^ 32 \<Longrightarrow> of_nat n < avali b \<longleftrightarrow> n < room b"
  by (simp add: word_less_nat_alt unat_avali unat_of_nat32)

lemma room_data: "fb_inv b \<Longrightarrow> unat (fb_len b) + room b = length (fb_data b)"
  by (simp add: fb_inv_def room_def)

lemma room_bound: "fb_inv b \<Longrightarrow> room b < 2 ^ 32"
  by (simp add: fb_inv_def room_def less_imp_diff_less)

lemma len_advance:
  assumes "fb_inv b" "n < room b"
  shows "unat (fb_len b + of_nat n) = unat (fb_len b) + n"
proof -
  have n: "unat (of_nat n :: 32 word) = n" using assms room_bound [OF assms(1)] by (intro unat_of_nat32) simp
  show ?thesis by (subst unat_add32) (use assms n room_data [OF assms(1)] in \<open>simp_all add: fb_inv_def\<close>)
qed

lemma fb_addedI:
  assumes "fb_inv b" "length tx < room b" "length d = length (fb_data b)"
    "take (unat (fb_len b) + length tx) d = fb_contents b @ tx"
  shows "fb_added tx b (Inr (b\<lparr>fb_data := d, fb_len := fb_len b + of_nat (length tx)\<rparr>))"
  using assms len_advance [OF assms(1,2)] room_data [OF assms(1)] by (simp add: fb_added_def fb_inv_def fb_contents_def)

lemma fb_Append_added:
  assumes "fb_inv b" "length str < room b"
  shows "fb_added str b (fb_Append str b)"
proof -
  let ?d = "put_at (unat (fb_len b)) str (fb_data b)"
  let ?e = "put_at (unat (fb_len b) + length str) [0] ?d"
  have lt: "length str < 2 ^ 32" using assms room_bound [OF assms(1)] by simp
  have n: "unat (of_nat (length str) :: 32 word) = length str" by (rule unat_of_nat32 [OF lt])
  have s: "unat (fb_len b) + length str < length (fb_data b)" using assms room_data [OF assms(1)] by simp
  have l: "length ?d = length (fb_data b)" using s by simp
  have "fb_Append str b = Inr (b\<lparr>fb_data := ?e, fb_len := fb_len b + of_nat (length str)\<rparr>)"
    using s assms avali_gt [OF assms(1) lt] by (simp add: fb_Append_def Let_def fb_store_def n l len_advance)
  moreover have "fb_added str b (Inr (b\<lparr>fb_data := ?e, fb_len := fb_len b + of_nat (length str)\<rparr>))"
  proof (rule fb_addedI [OF assms])
    show "length ?e = length (fb_data b)" using s l by simp
    show "take (unat (fb_len b) + length str) ?e = fb_contents b @ str"
      using s l by (simp add: put_at_def fb_contents_def)
  qed
  ultimately show ?thesis by simp
qed

lemma fb_Append_full: "fb_inv b \<Longrightarrow> length str < 2 ^ 32 \<Longrightarrow> room b \<le> length str \<Longrightarrow> fb_Append str b = Inr b"
  using avali_gt [of b "length str"] by (simp add: fb_Append_def Let_def)

lemma fb_AdvanceRead_ok:
  assumes "fb_inv b" "n < room b" "length d = length (fb_data b)"
  shows "fb_AdvanceRead (of_nat n) (b\<lparr>fb_data := d\<rparr>) = Inr (b\<lparr>fb_data := d, fb_len := fb_len b + of_nat n\<rparr>)"
proof -
  have "unat (of_nat (length (fb_data b)) :: 32 word) = length (fb_data b)" using assms(1) by (intro unat_of_nat32) (simp add: fb_inv_def)
  then have "fb_len b + of_nat n < of_nat (length (fb_data b))"
    using assms room_data [OF assms(1)] by (simp add: word_less_nat_alt len_advance)
  then show ?thesis by (simp add: fb_AdvanceRead_def Let_def assms(3))
qed

lemma fb_convert_added:
  assumes "fb_inv b" "length tx < room b"
  shows "fb_added tx b (fb_convert tx b)"
proof -
  let ?d = "put_at (unat (fb_len b)) (tx @ [0]) (fb_data b)"
  let ?e = "put_at (unat (fb_len b) + length tx) [0] ?d"
  have s: "unat (fb_len b) + length tx < length (fb_data b)" using assms room_data [OF assms(1)] by simp
  have l: "length ?d = length (fb_data b)" using s by simp
  have "fb_convert tx b = Inr (b\<lparr>fb_data := ?e, fb_len := fb_len b + of_nat (length tx)\<rparr>)"
    using s fb_AdvanceRead_ok [OF assms l] by (simp add: fb_convert_def fb_store_def len_advance [OF assms] l)
  moreover have "fb_added tx b (Inr (b\<lparr>fb_data := ?e, fb_len := fb_len b + of_nat (length tx)\<rparr>))"
  proof (rule fb_addedI [OF assms])
    show "length ?e = length (fb_data b)" using s l by simp
    show "take (unat (fb_len b) + length tx) ?e = fb_contents b @ tx"
      using s l by (simp add: put_at_def fb_contents_def)
  qed
  ultimately show ?thesis by simp
qed

section \<open>Values are written whole or not at all\<close>

fun render :: "lex_val \<Rightarrow> bytes" where
  "render (LBool v) = (if v then [84, 114, 117, 101] else [70, 97, 108, 115, 101])"
| "render (LChar c) = [c]"
| "render (LInt i) = int2Str i"
| "render (LDouble tx) = tx"
| "render (LStr s) = s"
| "render (LPtr p) = (if p = 0 then null_text else [48, 120] @ ptrToHexStr p)"

text \<open>The values of the types of C: integers of 64 bits, texts of \<open>snprintf\<close> with its limit, strings below 4 GB.\<close>

fun lex_ok :: "lex_val \<Rightarrow> bool" where
  "lex_ok (LInt i) \<longleftrightarrow> - (2 ^ 63) \<le> i \<and> i < 2 ^ 64"
| "lex_ok (LDouble tx) \<longleftrightarrow> length tx < 324"
| "lex_ok (LStr s) \<longleftrightarrow> length s < 2 ^ 32"
| "lex_ok (LPtr p) \<longleftrightarrow> p = 0"
| "lex_ok _ \<longleftrightarrow> True"

lemma fb_added_Nil: "fb_inv b \<Longrightarrow> fb_added [] b (Inr b)"
  by (simp add: fb_added_def)

lemma fb_Append_cases:
  assumes "fb_inv b" "length str < 2 ^ 32"
  shows "fb_added str b (fb_Append str b) \<or> fb_Append str b = Inr b"
  using fb_Append_added [OF assms(1), of str] fb_Append_full [OF assms] by (cases "length str < room b") simp_all

lemma int2Str_bound: "lex_ok (LInt i) \<Longrightarrow> length (int2Str i) \<le> 21"
  by (rule int2Str_length) auto

lemma appendInt_added: "fb_inv b \<Longrightarrow> lex_ok (LInt i) \<Longrightarrow> 32 < room b \<Longrightarrow> fb_added (int2Str i) b (appendInt i b)"
  using avali_gt [of b 32] int2Str_bound [of i] fb_convert_added [of b "int2Str i"] by (simp add: appendInt_def)

lemma appendFloat_added: "fb_inv b \<Longrightarrow> length tx < 324 \<Longrightarrow> 324 < room b \<Longrightarrow> fb_added tx b (appendFloat tx b)"
  using avali_gt [of b 324] fb_convert_added [of b tx] by (simp add: appendFloat_def)

lemma appendPtr_null: "fb_inv b \<Longrightarrow> 6 < room b \<Longrightarrow> fb_added null_text b (appendPtr 0 b)"
  using avali_gt [of b 6] fb_Append_added [of b null_text] by (simp add: appendPtr_def null_text_def)

lemma appendPtr_null_cases:
  assumes "fb_inv b"
  shows "fb_added null_text b (appendPtr 0 b) \<or> appendPtr 0 b = Inr b"
  using appendPtr_null [OF assms] avali_gt [OF assms, of 6] avali_gt [OF assms, of 10]
  by (cases "6 < room b") (simp_all add: appendPtr_def)

lemma shift_cases:
  assumes "fb_inv b" "lex_ok v"
  shows "fb_added (render v) b (LexicalStream_shift v b) \<or> LexicalStream_shift v b = Inr b"
proof (cases v)
  case (LInt i)
  then show ?thesis using assms appendInt_added [of b i] avali_gt [of b 32] by (cases "32 < room b") (simp_all add: appendInt_def)
next
  case (LDouble tx)
  then show ?thesis using assms appendFloat_added [of b tx] avali_gt [of b 324]
    by (cases "324 < room b") (simp_all add: appendFloat_def)
next
  case (LPtr p)
  then show ?thesis using assms appendPtr_null_cases by simp
qed (use assms(2) fb_Append_cases [OF assms(1)] in \<open>simp_all add: appendBool_def\<close>)

lemma shift_room:
  assumes "fb_inv b" "lex_ok v" "length (render v) + 324 < room b"
  shows "fb_added (render v) b (LexicalStream_shift v b)"
  using assms appendInt_added [of b] appendFloat_added [of b] appendPtr_null [of b] fb_Append_added [of b]
  by (cases v) (auto simp: appendBool_def)

lemma fb_added_room: "fb_added tx b (Inr b') \<Longrightarrow> fb_inv b \<Longrightarrow> room b = room b' + length tx"
proof -
  assume a: "fb_added tx b (Inr b')" and b: "fb_inv b"
  then have i: "fb_inv b'" "length (fb_data b') = length (fb_data b)" "fb_contents b' = fb_contents b @ tx"
    by (auto simp: fb_added_def)
  have "length (fb_contents b') = length (fb_contents b) + length tx" using i(3) by simp
  then show ?thesis using b i(1,2) by (simp add: fb_contents_def fb_inv_def room_def)
qed

lemma stream_all_whole:
  assumes "fb_inv b" "list_all lex_ok vs"
  shows "\<exists>b' ys. stream_all vs b = Inr b' \<and> fb_inv b' \<and> subseq ys (map render vs) \<and>
    fb_contents b' = fb_contents b @ concat ys \<and> (length (concat (map render vs)) + 324 < room b \<longrightarrow> ys = map render vs)"
  using assms
proof (induction vs arbitrary: b)
  case Nil
  then show ?case by (intro exI [of _ b] exI [of _ "[]"]) simp
next
  case (Cons v vs)
  have v: "lex_ok v" "list_all lex_ok vs" using Cons.prems(2) by simp_all
  show ?case
  proof (cases "fb_added (render v) b (LexicalStream_shift v b)")
    case True
    then obtain b1 where b1: "LexicalStream_shift v b = Inr b1" "fb_inv b1" "fb_contents b1 = fb_contents b @ render v"
      by (auto simp: fb_added_def)
    have r: "room b = room b1 + length (render v)" using fb_added_room True b1(1) Cons.prems(1) by metis
    from Cons.IH [OF b1(2) v(2)] obtain b' ys where i: "stream_all vs b1 = Inr b'" "fb_inv b'" "subseq ys (map render vs)"
      "fb_contents b' = fb_contents b1 @ concat ys" "length (concat (map render vs)) + 324 < room b1 \<longrightarrow> ys = map render vs" by blast
    show ?thesis by (rule exI [of _ b'], rule exI [of _ "render v # ys"]) (use i b1 r in simp)
  next
    case False
    with shift_cases [OF Cons.prems(1) v(1)] have same: "LexicalStream_shift v b = Inr b" by simp
    have no: "\<not> length (render v) + 324 < room b" using shift_room [OF Cons.prems(1) v(1)] False by blast
    from Cons.IH [OF Cons.prems(1) v(2)] obtain b' ys where i: "stream_all vs b = Inr b'" "fb_inv b'" "subseq ys (map render vs)"
      "fb_contents b' = fb_contents b @ concat ys" by blast
    show ?thesis by (rule exI [of _ b'], rule exI [of _ ys]) (use i same no in \<open>auto intro: list_emb_Cons\<close>)
  qed
qed

text \<open>C25. Values other than non-null pointers are written to a stream whole or not at all. Take a well-formed stream and a sequence of integers
  of at most 64 bits, booleans, characters, null pointers, strings below 4 GB, and floating-point values whose text has less than
  324 characters. The stream never writes outside of its array, and what it then contains are the texts of some of the values, in order, none
  of them cut; it has all of them if they fit with 324 characters to spare, and the text of an integer reads back as it.\<close>

theorem LexicalStream_whole_values:
  assumes "fb_inv b" "list_all lex_ok vs"
  shows "\<exists>b' ys. stream_all vs b = Inr b' \<and> fb_inv b' \<and> subseq ys (map render vs) \<and>
    fb_contents b' = fb_contents b @ concat ys \<and>
    (length (concat (map render vs)) + 324 < room b \<longrightarrow> ys = map render vs) \<and> dec_int (render (LInt i)) = i"
  using stream_all_whole [OF assms] by (auto simp: dec_int_int2Str)

theorem LexicalStream_whole_values_witness:
  "\<exists>b' ys. stream_all [LStr [120, 61], LInt (- 42), LBool True] (FixedBuffer (replicate 400 0)) = Inr b' \<and>
     fb_contents b' = concat ys \<and> ys = [[120, 61], [45, 52, 50], [84, 114, 117, 101]]"
proof -
  let ?vs = "[LStr [120, 61], LInt (- 42), LBool True]" and ?b = "FixedBuffer (replicate 400 0)"
  have r: "map render ?vs = [[120, 61], [45, 52, 50], [84, 114, 117, 101]]"
    by (simp add: int2Str_def int2Str_loop_dec dec_digits.simps)
  have b: "fb_inv ?b" "room ?b = 400" "fb_contents ?b = []" by (simp_all add: fb_inv_def room_def fb_contents_def FixedBuffer_def)
  have h: "list_all lex_ok ?vs" "length (concat (map render ?vs)) + 324 < room ?b" by (simp, simp add: r b(2) del: list.map)
  from LexicalStream_whole_values [OF b(1) h(1)] obtain b' ys where "stream_all ?vs ?b = Inr b'"
    "fb_contents b' = fb_contents ?b @ concat ys" "length (concat (map render ?vs)) + 324 < room ?b \<longrightarrow> ys = map render ?vs" by blast
  with h(2) r b(3) show ?thesis by (intro exI [of _ b'] exI [of _ ys]) (simp del: list.map stream_all.simps)
qed

section \<open>Pointers\<close>

lemma ptr_loop_length: "n < 16 ^ Suc k \<Longrightarrow> length (ptrToHexStr_loop n) \<le> Suc k"
proof (induction k arbitrary: n)
  case 0
  then show ?case by (subst ptrToHexStr_loop.simps) simp
next
  case (Suc k)
  then have "n div 16 < 16 ^ Suc k" by (simp add: less_mult_imp_div_less)
  with Suc.IH show ?case by (subst ptrToHexStr_loop.simps) (simp add: Let_def)
qed

lemma ptrToHexStr_length: "length (ptrToHexStr p) = 16"
proof -
  have "unat p < 16 ^ Suc 15" using unat_usize_less [of p] by simp
  then have "length (ptrToHexStr_loop (unat p)) \<le> 16" using ptr_loop_length [of "unat p" 15] by simp
  then show ?thesis by (simp add: ptrToHexStr_def Let_def)
qed

text \<open>C38. A non-null pointer is written behind the end of a stream that is nearly full. Its text and the terminating null character are 19
  characters, but \<open>appendPtr\<close> only asks for more than 10: exactly when 11 to 18 are free it writes outside of the array.\<close>

theorem appendPtr_overflow:
  assumes "fb_inv b" "p \<noteq> 0"
  shows "appendPtr p b = Inl OutOfBounds \<longleftrightarrow> 10 < length (fb_data b) - unat (fb_len b) \<and> length (fb_data b) - unat (fb_len b) < 19"
proof -
  have r: "10 < avali b \<longleftrightarrow> 10 < room b" using avali_gt [OF assms(1), of 10] by simp
  have d: "unat (fb_len b) + room b = length (fb_data b)" by (rule room_data [OF assms(1)])
  let ?d = "put_at (unat (fb_len b)) [48, 120] (fb_data b)"
  let ?e = "put_at (unat (fb_len b) + 2) (ptrToHexStr p @ [0]) ?d"
  have l: "length ?d = length (fb_data b)" if "10 < room b" using that d by simp
  have big: "\<exists>b'. appendPtr p b = Inr b'" if "18 < room b"
  proof -
    have e: "length ?e = length (fb_data b)" using that d l by (simp add: ptrToHexStr_length)
    have a: "fb_AdvanceRead 18 (b\<lparr>fb_data := ?e\<rparr>) = Inr (b\<lparr>fb_data := ?e, fb_len := fb_len b + 18\<rparr>)"
      using fb_AdvanceRead_ok [OF assms(1) that e] by simp
    have "unat (fb_len b + 18) = unat (fb_len b) + 18" using len_advance [OF assms(1) that] by simp
    then show ?thesis using that assms(2) r d l e a by (simp add: appendPtr_def fb_store_def ptrToHexStr_length)
  qed
  show ?thesis
  proof (cases "18 < room b")
    case True
    with big show ?thesis by (auto simp: room_def)
  next
    case False
    then show ?thesis using assms(2) r d l
      by (cases "10 < room b") (auto simp: appendPtr_def fb_store_def ptrToHexStr_length room_def)
  qed
qed

theorem appendPtr_overflow_witness: "appendPtr 1 (FixedBuffer (replicate 15 0)) = Inl OutOfBounds"
  using appendPtr_overflow [of "FixedBuffer (replicate 15 0)" 1] by (simp add: fb_inv_def FixedBuffer_def)

section \<open>Casts to strings\<close>

text \<open>The stream of the casts has 64 characters and a floating-point number needs 325: the string of every number is empty. A
  string of more than 63 characters is cast to the empty string.\<close>

lemma lexical_cast_double_empty:
  assumes "length (fb_data b) = 64" "lex_ok (LDouble tx)"
  shows "\<exists>b'. LexicalCast_string (LDouble tx) b = Inr ([], b')"
proof -
  have i: "fb_inv (fb_reset b)" "room (fb_reset b) = 64" using assms(1) by (simp_all add: fb_inv_def room_def fb_reset_def)
  have f: "appendFloat tx (fb_reset b) = Inr (fb_reset b)" using avali_gt [OF i(1), of 324] i(2) by (simp add: appendFloat_def)
  from fb_Append_added [OF i(1), of "[0]"] i(2) obtain b' where b': "fb_Append [0] (fb_reset b) = Inr b'" "fb_inv b'"
    "length (fb_data b') = 64" "fb_contents b' = [0]" using assms(1) by (auto simp: fb_added_def fb_contents_def fb_reset_def)
  have "unat (fb_len b') = 1" using arg_cong [OF b'(4), of length] b'(2,3) by (simp add: fb_contents_def fb_inv_def)
  then have "fb_len b' = 1" by (simp add: word_unat_eq_iff)
  then show ?thesis using f b'(1) by (simp add: LexicalCast_string_def Let_def)
qed

text \<open>The string of an integer is its decimal text.\<close>

lemma lexical_cast_int:
  assumes "length (fb_data b) = 64" "lex_ok (LInt i)"
  shows "\<exists>s b'. LexicalCast_string (LInt i) b = Inr (s, b') \<and> dec_int s = i"
proof -
  have i: "fb_inv (fb_reset b)" "room (fb_reset b) = 64" "fb_contents (fb_reset b) = []"
    using assms(1) by (simp_all add: fb_inv_def room_def fb_reset_def fb_contents_def)
  have n: "length (int2Str i) \<le> 21" by (rule int2Str_bound [OF assms(2)])
  from appendInt_added [OF i(1) assms(2)] i(2,3) obtain b1 where b1: "appendInt i (fb_reset b) = Inr b1" "fb_inv b1"
    "fb_contents b1 = int2Str i" "length (fb_data b1) = length (fb_data (fb_reset b))" by (auto simp: fb_added_def)
  have l1: "unat (fb_len b1) = length (int2Str i)" using arg_cong [OF b1(3), of length] b1(2) by (simp add: fb_contents_def fb_inv_def)
  have d1: "length (fb_data b1) = 64" using b1(4) assms(1) by (simp add: fb_reset_def)
  have "1 < room b1" using l1 d1 n by (simp add: room_def)
  with fb_Append_added [OF b1(2), of "[0]"] obtain b2 where b2: "fb_Append [0] b1 = Inr b2" "fb_inv b2"
    "fb_contents b2 = int2Str i @ [0]" "length (fb_data b2) = 64" using b1(3) d1 by (auto simp: fb_added_def)
  have l2: "unat (fb_len b2) = Suc (length (int2Str i))" using arg_cong [OF b2(3), of length] b2(2) by (simp add: fb_contents_def fb_inv_def)
  have "fb_len b2 \<noteq> 0" using l2 by auto
  then have m: "unat (fb_len b2 - 1) = length (int2Str i)" using l2 by (simp add: unat_minus_one)
  have "take (length (int2Str i)) (fb_data b2) = take (length (int2Str i)) (fb_contents b2)"
    using l2 by (simp add: fb_contents_def min_def)
  then have "take (length (int2Str i)) (fb_data b2) = int2Str i" using b2(3) by simp
  then have "LexicalCast_string (LInt i) b = Inr (int2Str i, b2)"
    using b1(1) b2(1,4) m n by (simp add: LexicalCast_string_def Let_def)
  then show ?thesis using dec_int_int2Str by blast
qed

section \<open>Format strings\<close>

text \<open>What a format and the texts of its arguments mean: \<open>%%\<close> is a percent sign, any other percent sign is replaced by the next
  argument, and there are as many arguments as placeholders.\<close>

fun fmt_spec :: "bytes \<Rightarrow> bytes list \<Rightarrow> bytes option" where
  "fmt_spec [] [] = Some []"
| "fmt_spec [] (a # as) = None"
| "fmt_spec (c # f) as =
     (if c \<noteq> 37 then map_option ((#) c) (fmt_spec f as)
      else if f \<noteq> [] \<and> hd f = 37 then map_option ((#) 37) (fmt_spec (tl f) as)
      else (case as of [] \<Rightarrow> None | a # as' \<Rightarrow> map_option ((@) a) (fmt_spec f as')))"

lemma fmt_spec_prefix: "37 \<notin> set xs \<Longrightarrow> fmt_spec (xs @ f) as = map_option ((@) xs) (fmt_spec f as)"
proof (induction xs)
  case Nil
  show ?case by (cases "fmt_spec f as") simp_all
next
  case (Cons x xs)
  then show ?case by (cases "fmt_spec f as") auto
qed

abbreviation fmt_size_ok :: "bytes \<Rightarrow> bool" where "fmt_size_ok f \<equiv> length f < 2 ^ 63 - 1"

lemma view_ok: "fmt_size_ok f \<Longrightarrow> sv_ok (StringView_string f) \<and> sv_str (StringView_string f) = f \<and> unat (sv_len (StringView_string f)) = length f"
  by (simp add: sv_ok_def sv_str_def StringView_string_def StringView_def unat_of_nat_usize)

lemma view_find_find:
  assumes "fmt_size_ok f"
  shows "sv_find_char (StringView_string f) 37 0 = Inr (idx_of (find (\<lambda>k. f ! k = 37) [0..<length f]))"
    "sv_find (StringView_string f) (StringView_string [37]) 0 = Inr (idx_of (find (\<lambda>k. f ! k = 37) [0..<length f]))"
proof -
  note v = view_ok [OF assms]
  show "sv_find_char (StringView_string f) 37 0 = Inr (idx_of (find (\<lambda>k. f ! k = 37) [0..<length f]))"
    unfolding sv_find_char_def using v sv_index_in [of "StringView_string f"]
    by (subst for_up_find [where Q = "\<lambda>k. f ! k = 37"]) auto
  have w: "sv_ok (StringView_string [37]) \<and> sv_str (StringView_string [37]) = [37]" using view_ok [of "[37]"] by simp
  have q: "occurs_at [37] k f \<longleftrightarrow> k < length f \<and> f ! k = 37" for k
    by (auto simp: occurs_at_def seg_def take_Suc_conv_app_nth hd_drop_conv_nth take_Suc)
  have "find (\<lambda>k. occurs_at [37] k f) [0..<Suc (length f)] = find (\<lambda>k. occurs_at [37] k f) [0..<length f]"
    by (rule find_upt_cut) (auto simp: q)
  also have "\<dots> = find (\<lambda>k. f ! k = 37) [0..<length f]" by (rule find_cong) (auto simp: q)
  finally show "sv_find (StringView_string f) (StringView_string [37]) 0 = Inr (idx_of (find (\<lambda>k. f ! k = 37) [0..<length f]))"
    using sv_find_eq [of "StringView_string f" "StringView_string [37]" 0] v w by simp
qed

lemma view_find_cases:
  assumes "fmt_size_ok f"
  obtains "37 \<notin> set f" "sv_find_char (StringView_string f) 37 0 = Inr npos"
      "sv_find (StringView_string f) (StringView_string [37]) 0 = Inr npos"
  | xs g where "f = xs @ 37 # g" "37 \<notin> set xs" "sv_find_char (StringView_string f) 37 0 = Inr (of_nat (length xs))"
      "sv_find (StringView_string f) (StringView_string [37]) 0 = Inr (of_nat (length xs))"
proof (cases "37 \<in> set f")
  case True
  then obtain xs g where f: "f = xs @ 37 # g" "37 \<notin> set xs" by (meson split_list_first)
  have "find (\<lambda>k. f ! k = 37) [0..<length f] = Some (length xs)"
    unfolding find_upt_Some_iff using f by (auto simp: nth_append in_set_conv_nth)
  then show ?thesis using that(2) [OF f] view_find_find [OF assms] by (simp add: idx_of_def)
next
  case False
  then have "find (\<lambda>k. f ! k = 37) [0..<length f] = None" by (auto simp: find_None_iff in_set_conv_nth)
  then show ?thesis using that(1) [OF False] view_find_find [OF assms] by (simp add: idx_of_def)
qed

lemma view_drop:
  assumes "fmt_size_ok f" "n \<le> length f"
  shows "sv_substr (StringView_string f) (of_nat n) npos = StringView_string (drop n f)"
    "sv_remove_prefix (StringView_string f) (of_nat n) = StringView_string (drop n f)"
proof -
  have u: "unat (of_nat n :: usize) = n" using assms by (intro unat_of_nat_usize) simp
  have l: "(of_nat (length f - n) :: usize) = of_nat (length f) - of_nat n" using assms(2) by (rule of_nat_diff)
  have m: "min npos x = x" for x :: usize by (rule min_absorb2) simp
  have e: "StringView_string (drop n f) = \<lparr>sv_data = drop n (f @ [0]), sv_len = of_nat (length f) - of_nat n\<rparr>"
    using assms(2) by (simp only: StringView_string_def StringView_def length_drop l drop_append) simp
  show "sv_substr (StringView_string f) (of_nat n) npos = StringView_string (drop n f)"
    unfolding e by (simp only: sv_substr_def StringView_string_def StringView_def string_view.simps u m)
  show "sv_remove_prefix (StringView_string f) (of_nat n) = StringView_string (drop n f)"
    unfolding e by (simp only: sv_remove_prefix_def StringView_string_def StringView_def string_view.simps u)
qed

lemma fb_added_append:
  assumes "fb_added xs b (Inr b')" "fb_added ys b' r"
  shows "fb_added (xs @ ys) b r"
  using assms by (auto simp: fb_added_def)

lemma fb_addedE:
  assumes "fb_added xs b r" "fb_inv b"
  obtains b' where "r = Inr b'" "fb_inv b'" "fb_added xs b (Inr b')" "room b = room b' + length xs"
  using assms fb_added_room by (metis fb_added_def)

lemma SerializeOne_shift: "SerializeOne v b = LexicalStream_shift v b"
  by (cases v) (simp_all add: appendChar_def)

text \<open>The position of a percent sign, seen from the view.\<close>

lemma at_percent:
  assumes "fmt_size_ok f" "f = xs @ 37 # g"
  shows "of_nat (length xs) < sv_len (StringView_string f)" "of_nat (length xs) \<noteq> npos"
    "sv_index (StringView_string f) (of_nat (length xs) + 1) = Inr (if g = [] then 0 else hd g)"
    "of_nat (length xs) = sv_len (StringView_string f) - 1 \<longleftrightarrow> g = []"
    "take (unat (of_nat (length xs) :: usize)) (sv_data (StringView_string f)) = xs"
    "sv_str (sv_substr (StringView_string f) 0 (of_nat (length xs) + 1)) = xs @ [37]"
proof -
  have u: "unat (of_nat (length xs) :: usize) = length xs" "unat (of_nat (Suc (length xs)) :: usize) = Suc (length xs)"
    "unat (of_nat (length f) :: usize) = length f" using assms by (intro unat_of_nat_usize; simp)+
  have s: "of_nat (length xs) + 1 = (of_nat (Suc (length xs)) :: usize)" by (simp add: add.commute)
  have l: "sv_len (StringView_string f) = of_nat (length f)" by (simp add: StringView_string_def StringView_def)
  show "of_nat (length xs) < sv_len (StringView_string f)" unfolding l word_less_nat_alt u using assms(2) by simp
  show "of_nat (length xs) \<noteq> npos"
  proof
    assume "of_nat (length xs) = npos"
    then have "unat (of_nat (length xs) :: usize) = 2 ^ 64 - 1" by (simp only: unat_usize_max)
    then show False using u(1) assms by simp
  qed
  show "sv_index (StringView_string f) (of_nat (length xs) + 1) = Inr (if g = [] then 0 else hd g)"
    unfolding s sv_index_def u using assms(2) by (cases g) (auto simp: StringView_string_def StringView_def nth_append)
  have n: "length f = Suc (length xs + length g)" using assms(2) by simp
  have m: "sv_len (StringView_string f) - 1 = of_nat (length xs + length g)" unfolding l n by simp
  have "unat (of_nat (length xs + length g) :: usize) = length xs + length g" using assms by (intro unat_of_nat_usize) simp
  then show "of_nat (length xs) = sv_len (StringView_string f) - 1 \<longleftrightarrow> g = []" unfolding m word_unat_eq_iff u by simp
  show "take (unat (of_nat (length xs) :: usize)) (sv_data (StringView_string f)) = xs"
    unfolding u using assms(2) by (simp add: StringView_string_def StringView_def)
  have "sv_str (sv_substr (StringView_string f) 0 (of_nat (Suc (length xs)) - 0)) = seg (unat (0 :: usize)) (unat (of_nat (Suc (length xs)) :: usize)) f"
    using sv_str_substr [of "StringView_string f" 0 "of_nat (Suc (length xs))"] view_ok [OF assms(1)] assms(2)
    by (simp add: l word_le_nat_alt u del: of_nat_Suc)
  then show "sv_str (sv_substr (StringView_string f) 0 (of_nat (length xs) + 1)) = xs @ [37]"
    unfolding s u using assms(2) by (simp add: seg_def del: of_nat_Suc)
qed

lemma after_percent:
  assumes "fmt_size_ok f" "f = xs @ 37 # g"
  shows "sv_substr (StringView_string f) (of_nat (length xs) + 1) npos = StringView_string g"
    "g \<noteq> [] \<Longrightarrow> sv_substr (StringView_string f) (of_nat (length xs) + 2) npos = StringView_string (tl g)"
    "g \<noteq> [] \<Longrightarrow> sv_remove_prefix (StringView_string f) (of_nat (length xs) + 2) = StringView_string (tl g)"
proof -
  have n: "of_nat (length xs) + 1 = (of_nat (length xs + 1) :: usize)" "of_nat (length xs) + 2 = (of_nat (length xs + 2) :: usize)"
    by simp_all
  have d: "drop (length xs + 1) f = g" "drop (length xs + 2) f = tl g" unfolding assms(2) by (simp_all add: drop_Suc)
  show "sv_substr (StringView_string f) (of_nat (length xs) + 1) npos = StringView_string g"
    unfolding n using view_drop(1) [OF assms(1), of "length xs + 1"] assms(2) unfolding d by simp
  show "g \<noteq> [] \<Longrightarrow> sv_substr (StringView_string f) (of_nat (length xs) + 2) npos = StringView_string (tl g)"
    unfolding n using view_drop(1) [OF assms(1), of "length xs + 2"] assms(2) unfolding d by (cases g) simp_all
  show "g \<noteq> [] \<Longrightarrow> sv_remove_prefix (StringView_string f) (of_nat (length xs) + 2) = StringView_string (tl g)"
    unfolding n using view_drop(2) [OF assms(1), of "length xs + 2"] assms(2) unfolding d by (cases g) simp_all
qed

lemma fmt_rest_spec:
  assumes "fmt_size_ok f" "fmt_spec f [] = Some out" "length out < room b" "fb_inv b"
  shows "\<exists>r. fmt_rest (StringView_string f) b = Some r \<and> fb_added out b r"
  using assms
proof (induction f arbitrary: out b rule: measure_induct_rule [of length])
  case (less f)
  show ?case using less.prems(1)
  proof (rule view_find_cases)
    assume n: "37 \<notin> set f" "sv_find_char (StringView_string f) 37 0 = Inr npos"
    have "out = f" using less.prems(2) fmt_spec_prefix [OF n(1), of "[]" "[]"] by simp
    moreover have "fmt_rest (StringView_string f) b = Some (fb_Append f b)"
      using view_ok [OF less.prems(1)] by (subst fmt_rest.simps) (simp add: n(2))
    ultimately show ?thesis using fb_Append_added less.prems(3,4) by simp
  next
    fix xs g assume f: "f = xs @ 37 # g" "37 \<notin> set xs" "sv_find_char (StringView_string f) 37 0 = Inr (of_nat (length xs))"
    note P = at_percent [OF less.prems(1) f(1)]
    have "fmt_spec f [] = map_option ((@) xs) (fmt_spec (37 # g) [])" unfolding f(1) by (rule fmt_spec_prefix [OF f(2)])
    with less.prems(2) obtain o1 where o1: "g \<noteq> []" "hd g = 37" "fmt_spec (tl g) [] = Some o1" "out = xs @ 37 # o1"
      by (auto split: if_splits)
    have sz: "length (xs @ [37]) < room b" using less.prems(3) o1(4) by simp
    from fb_addedE [OF fb_Append_added [OF less.prems(4) sz] less.prems(4)] obtain b1 where
      b1: "fb_Append (xs @ [37]) b = Inr b1" "fb_inv b1" "fb_added (xs @ [37]) b (Inr b1)" "room b = room b1 + length (xs @ [37])" .
    have "fmt_rest (StringView_string f) b = fmt_rest (StringView_string (tl g)) b1"
      using f(3) P(1,3,4,6) o1(1,2) b1(1) after_percent(3) [OF less.prems(1) f(1) o1(1)] by (subst fmt_rest.simps) simp
    moreover have "\<exists>r. fmt_rest (StringView_string (tl g)) b1 = Some r \<and> fb_added o1 b1 r"
      by (rule less.IH) (use f(1) less.prems(1,3) o1 b1 in auto)
    ultimately show ?thesis using fb_added_append [OF b1(3)] o1(4) by force
  qed
qed

text \<open>A format with at least one argument left, up to its first percent sign.\<close>

lemma Parse_step:
  assumes "fmt_size_ok f" "f = xs @ 37 # g" "37 \<notin> set xs" "sv_find (StringView_string f) (StringView_string [37]) 0 = Inr (of_nat (length xs))"
    "fb_Append xs b = Inr b1"
  shows "g \<noteq> [] \<Longrightarrow> hd g = 37 \<Longrightarrow> fb_Append [37] b1 = Inr b2 \<Longrightarrow>
      ParseAndSerialize (StringView_string f) (v # vs) b = ParseAndSerialize (StringView_string (tl g)) (v # vs) b2"
    "g = [] \<or> hd g \<noteq> 37 \<Longrightarrow> SerializeOne v b1 = Inr b2 \<Longrightarrow>
      ParseAndSerialize (StringView_string f) (v # vs) b = ParseAndSerialize (StringView_string g) vs b2"
proof -
  note P = at_percent [OF assms(1,2)] and A = after_percent [OF assms(1,2)]
  show "g \<noteq> [] \<Longrightarrow> hd g = 37 \<Longrightarrow> fb_Append [37] b1 = Inr b2 \<Longrightarrow>
      ParseAndSerialize (StringView_string f) (v # vs) b = ParseAndSerialize (StringView_string (tl g)) (v # vs) b2"
    using assms(4,5) P(1,2,3,5) A(2) by (subst ParseAndSerialize.simps) simp
  show "g = [] \<or> hd g \<noteq> 37 \<Longrightarrow> SerializeOne v b1 = Inr b2 \<Longrightarrow>
      ParseAndSerialize (StringView_string f) (v # vs) b = ParseAndSerialize (StringView_string g) vs b2"
    using assms(4,5) P(1,2,3,5) A(1) by (subst ParseAndSerialize.simps) auto
qed

lemma Parse_spec:
  assumes "fmt_size_ok f" "fmt_spec f (map render vs) = Some out" "length out + 324 < room b" "fb_inv b" "list_all lex_ok vs"
  shows "\<exists>r. ParseAndSerialize (StringView_string f) vs b = Some r \<and> fb_added out b r"
  using assms
proof (induction f arbitrary: out b vs rule: measure_induct_rule [of length])
  case (less f)
  show ?case
  proof (cases vs)
    case Nil
    have "ParseAndSerialize (StringView_string f) vs b = fmt_rest (StringView_string f) b" by (subst ParseAndSerialize.simps) (simp add: Nil)
    then show ?thesis using fmt_rest_spec [OF less.prems(1), of out b] less.prems(2-4) Nil by simp
  next
    case (Cons v ws)
    have "37 \<in> set f" using less.prems(2) Cons fmt_spec_prefix [of f "[]" "map render vs"] by (cases "37 \<in> set f") auto
    from less.prems(1) this obtain xs g where f: "f = xs @ 37 # g" "37 \<notin> set xs"
      "sv_find (StringView_string f) (StringView_string [37]) 0 = Inr (of_nat (length xs))" by (blast elim: view_find_cases)
    have S: "fmt_spec f (map render vs) = map_option ((@) xs) (fmt_spec (37 # g) (map render vs))"
      unfolding f(1) by (rule fmt_spec_prefix [OF f(2)])
    have "length xs < room b" using less.prems(2,3) S by auto
    from fb_addedE [OF fb_Append_added [OF less.prems(4) this] less.prems(4)] obtain b1 where
      b1: "fb_Append xs b = Inr b1" "fb_inv b1" "fb_added xs b (Inr b1)" "room b = room b1 + length xs" .
    note step = Parse_step [OF less.prems(1) f b1(1)]
    show ?thesis
    proof (cases "g \<noteq> [] \<and> hd g = 37")
      case True
      with less.prems(2) S obtain o1 where o1: "fmt_spec (tl g) (map render vs) = Some o1" "out = xs @ 37 # o1" by auto
      have "length [37 :: byte] < room b1" using less.prems(3) o1(2) b1(4) by simp
      from fb_addedE [OF fb_Append_added [OF b1(2) this] b1(2)] obtain b2 where
        b2: "fb_Append [37] b1 = Inr b2" "fb_inv b2" "fb_added [37] b1 (Inr b2)" "room b1 = room b2 + length [37 :: byte]" .
      have "\<exists>r. ParseAndSerialize (StringView_string (tl g)) vs b2 = Some r \<and> fb_added o1 b2 r"
        by (rule less.IH) (use f(1) less.prems o1 b1 b2 in auto)
      with step(1) [OF _ _ b2(1)] True Cons fb_added_append [OF b1(3) fb_added_append [OF b2(3)]] o1(2) show ?thesis by force
    next
      case False
      then have "fmt_spec (37 # g) (map render vs) = map_option ((@) (render v)) (fmt_spec g (map render ws))" using Cons by auto
      with less.prems(2) S have "map_option ((@) xs) (map_option ((@) (render v)) (fmt_spec g (map render ws))) = Some out" by simp
      then obtain o1 where o1: "fmt_spec g (map render ws) = Some o1" "out = xs @ render v @ o1" by auto
      have "length (render v) + 324 < room b1" using less.prems(3) o1(2) b1(4) by simp
      with fb_addedE [OF shift_room [OF b1(2)] b1(2)] less.prems(5) Cons obtain b2 where
        b2: "SerializeOne v b1 = Inr b2" "fb_inv b2" "fb_added (render v) b1 (Inr b2)" "room b1 = room b2 + length (render v)"
        unfolding SerializeOne_shift by (metis list.pred_inject(2))
      have "\<exists>r. ParseAndSerialize (StringView_string g) ws b2 = Some r \<and> fb_added o1 b2 r"
        by (rule less.IH) (use f(1) less.prems Cons o1 b1 b2 in auto)
      with step(2) [OF _ b2(1)] False Cons fb_added_append [OF b1(3) fb_added_append [OF b2(3)]] o1(2) show ?thesis by force
    qed
  qed
qed

text \<open>C16. A format stream writes what its format means. The conditions: the format is a string of less than 2^63 - 1 characters with a null
  character behind it (the character behind a final percent sign is read), and has exactly as many placeholders as there are arguments; the arguments are as in the streams above,
  without non-null pointers; the buffer is smaller than 4 GB, and the resulting text fits into it with 324 characters to
  spare. Then the parser returns, does not read or write outside of the format and the buffer, and the buffer contains
  exactly the format with \<open>%%\<close> replaced by percent signs and the placeholders by the texts of the arguments.\<close>

theorem FmtStream_format:
  assumes "fmt_spec f (map render args) = Some out" "length out + 324 < length data" "length data < 2 ^ 32" "fmt_size_ok f"
    "list_all lex_ok args"
  shows "\<exists>b. FmtStream data (StringView_string f) args = Some (Inr b) \<and> fb_inv b \<and> fb_contents b = out"
proof -
  let ?b = "FixedBuffer data"
  have b: "fb_inv ?b" "room ?b = length data" "fb_contents ?b = []"
    using assms(2,3) by (auto simp: fb_inv_def room_def fb_contents_def FixedBuffer_def)
  from Parse_spec [OF assms(4,1), of ?b] assms(2,5) b show ?thesis by (auto simp: FmtStream_def fb_added_def)
qed

text \<open>The format \<open>a=% %%\<close> with the argument 5.\<close>

theorem FmtStream_format_witness:
  "\<exists>b. FmtStream (replicate 400 0) (StringView_string [97, 61, 37, 32, 37, 37]) [LInt 5] = Some (Inr b) \<and>
     fb_contents b = [97, 61, 53, 32, 37]"
proof -
  have "fmt_spec [97, 61, 37, 32, 37, 37] (map render [LInt 5]) = Some [97, 61, 53, 32, 37]"
    by (simp add: int2Str_def int2Str_loop_dec dec_digits.simps)
  from FmtStream_format [OF this, of "replicate 400 0"] show ?thesis by auto
qed

end
