(* ===== verification/Async_Log.thy ===== *)
theory Async_Log
  imports Text_Stream
begin

text \<open>
  Model of \<^verbatim>\<open>kanon/log/async_log.{h,cc}\<close>, \<^verbatim>\<open>log_file.{h,cc}\<close> and \<^verbatim>\<open>append_file.{h,cc}\<close>: log lines are collected in large
  buffers, which a background thread writes to a file that is rolled. The threads interleave at the granularity of the
  mutex. What \<open>malloc\<close> leaves in a new buffer, the note about discarded buffers and the clock are arguments.
\<close>

section \<open>AsyncLog\<close>

datatype back_pc = BTop | BWait | BWrite | BDone

text \<open>The members, the two buffers of the background thread, where that thread is, the bytes it gave to the log file, and
  whether it ever discarded a buffer. A \<open>unique_ptr\<close> that was moved from is \<^term>\<open>None\<close>.\<close>

record async_log =
  al_current :: "fixed_buffer option"
  al_next :: "fixed_buffer option"
  al_buffers :: "fixed_buffer option list"
  al_dup :: "fixed_buffer option list"
  al_buffer1 :: "fixed_buffer option"
  al_buffer2 :: "fixed_buffer option"
  al_running :: bool
  al_pc :: back_pc
  al_out :: bytes
  al_discarded :: bool

abbreviation (input) BUFFER_BOUND :: nat where "BUFFER_BOUND \<equiv> 16"

text \<open>The constructor and \<open>StartRun\<close>, which waits until the background thread runs.\<close>

definition AsyncLog_StartRun :: "bytes \<Rightarrow> async_log" where
  "AsyncLog_StartRun blank = (let b = fb_zero (FixedBuffer blank) in
     \<lparr>al_current = Some b, al_next = Some b, al_buffers = [], al_dup = [], al_buffer1 = Some b, al_buffer2 = Some b,
      al_running = True, al_pc = BTop, al_out = [], al_discarded = False\<rparr>)"

definition deref :: "'a option \<Rightarrow> 'a res" where
  "deref p = (case p of None \<Rightarrow> Inl NullDeref | Some x \<Rightarrow> Inr x)"

definition AsyncLog_Append :: "bytes \<Rightarrow> bytes \<Rightarrow> async_log \<Rightarrow> async_log res" where
  "AsyncLog_Append blank msg s =
     rbind (deref (al_current s)) (\<lambda>cur.
     if length msg < unat (avali cur) then
       rbind (fb_Append msg cur) (\<lambda>cur. Inr (s\<lparr>al_current := Some cur\<rparr>))
     else
       let next = (case al_next s of None \<Rightarrow> FixedBuffer blank | Some b \<Rightarrow> b);
           s = s\<lparr>al_buffers := al_buffers s @ [al_current s], al_current := Some next, al_next := None\<rparr>
       in rbind (fb_Append msg next) (\<lambda>cur. Inr (s\<lparr>al_current := Some cur\<rparr>)))"

text \<open>The body of the loop of the background thread: the assertions, and what it does with the mutex.\<close>

definition empty_buffer :: "fixed_buffer option \<Rightarrow> bool" where
  "empty_buffer p = (case p of None \<Rightarrow> False | Some b \<Rightarrow> fb_len b = 0)"

definition back_swap :: "async_log \<Rightarrow> async_log" where
  "back_swap s =
     (let s = s\<lparr>al_dup := al_buffers s @ [al_current s], al_buffers := al_dup s, al_current := al_buffer1 s, al_buffer1 := None\<rparr> in
      if al_next s = None then s\<lparr>al_next := al_buffer2 s, al_buffer2 := None\<rparr> else s)"

text \<open>What it does without the mutex: it discards all but 16 buffers, writes the others, and takes two of them for its own.\<close>

fun write_buffers :: "fixed_buffer option list \<Rightarrow> bytes \<Rightarrow> bytes res" where
  "write_buffers [] out = Inr out"
| "write_buffers (p # ps) out = rbind (deref p) (\<lambda>b. write_buffers ps (out @ fb_contents b))"

definition take_back :: "fixed_buffer option list \<Rightarrow> (fixed_buffer option \<times> fixed_buffer option list) res" where
  "take_back dup = (if dup = [] then Inl OutOfBounds
     else rbind (deref (last dup)) (\<lambda>b. Inr (Some (fb_reset b), butlast dup)))"

definition back_write :: "bytes \<Rightarrow> async_log \<Rightarrow> async_log res" where
  "back_write nt s =
     (let s = (if BUFFER_BOUND < length (al_dup s)
               then s\<lparr>al_out := al_out s @ nt, al_dup := take BUFFER_BOUND (al_dup s), al_discarded := True\<rparr> else s) in
      rbind (write_buffers (al_dup s) (al_out s)) (\<lambda>out.
      let dup = (if 2 < length (al_dup s) then take 2 (al_dup s) else al_dup s) in
      rbind (if al_buffer1 s = None then take_back dup else Inr (al_buffer1 s, dup)) (\<lambda>(b1, dup).
      rbind (if al_buffer2 s = None then take_back dup else Inr (al_buffer2 s, dup)) (\<lambda>(b2, dup).
      Inr (s\<lparr>al_out := out, al_buffer1 := b1, al_buffer2 := b2, al_dup := []\<rparr>)))))"

definition AsyncLog_Stop :: "async_log \<Rightarrow> async_log res" where
  "AsyncLog_Stop s = rbind (assertR (al_running s)) (\<lambda>_. Inr (s\<lparr>al_running := False\<rparr>))"

text \<open>The steps, with the lines that were logged. The background thread reads \<open>running_\<close>, waits for a full buffer or the flush
  interval, swaps the buffers, writes, and begins again.\<close>

inductive al_step :: "bytes \<Rightarrow> async_log \<times> bytes list \<Rightarrow> (async_log \<times> bytes list) res \<Rightarrow> bool" for blank where
  line: "length msg < length blank \<Longrightarrow> al_step blank (s, ms) (rbind (AsyncLog_Append blank msg s) (\<lambda>s. Inr (s, ms @ [msg])))"
| stop: "al_running s \<Longrightarrow> al_step blank (s, ms) (rbind (AsyncLog_Stop s) (\<lambda>s. Inr (s, ms)))"
| again: "al_pc s = BTop \<Longrightarrow> al_running s \<Longrightarrow>
    al_step blank (s, ms) (rbind (assertR (empty_buffer (al_buffer1 s) \<and> empty_buffer (al_buffer2 s) \<and> al_dup s = []))
      (\<lambda>_. Inr (s\<lparr>al_pc := BWait\<rparr>, ms)))"
| finish: "al_pc s = BTop \<Longrightarrow> \<not> al_running s \<Longrightarrow> al_step blank (s, ms) (Inr (s\<lparr>al_pc := BDone\<rparr>, ms))"
| swap: "al_pc s = BWait \<Longrightarrow> al_step blank (s, ms) (Inr ((back_swap s)\<lparr>al_pc := BWrite\<rparr>, ms))"
| flush: "al_pc s = BWrite \<Longrightarrow> al_step blank (s, ms) (rbind (back_write nt s) (\<lambda>s. Inr (s\<lparr>al_pc := BTop\<rparr>, ms)))"

inductive al_reach :: "bytes \<Rightarrow> (async_log \<times> bytes list) res \<Rightarrow> bool" for blank where
  start: "al_reach blank (Inr (AsyncLog_StartRun blank, []))"
| next_step: "al_reach blank (Inr s) \<Longrightarrow> al_step blank s r \<Longrightarrow> al_reach blank r"

section \<open>No line is lost or reordered\<close>

text \<open>A live buffer, its text, and the text that was logged but not written yet.\<close>

fun live :: "nat \<Rightarrow> fixed_buffer option \<Rightarrow> bool" where
  "live n None = False"
| "live n (Some b) = (fb_inv b \<and> length (fb_data b) = n)"

fun held :: "fixed_buffer option \<Rightarrow> bytes" where
  "held None = []"
| "held (Some b) = fb_contents b"

definition pending :: "async_log \<Rightarrow> bytes" where
  "pending s = concat (map held (al_dup s @ al_buffers s @ [al_current s]))"

definition al_own :: "nat \<Rightarrow> async_log \<Rightarrow> bool" where
  "al_own n s \<longleftrightarrow> (if al_pc s = BWrite then al_buffer1 s = None else live n (al_buffer1 s) \<and> held (al_buffer1 s) = [] \<and> al_dup s = []) \<and>
     (al_buffer2 s = None \<or> live n (al_buffer2 s) \<and> held (al_buffer2 s) = []) \<and>
     (al_buffer2 s = None \<longrightarrow> al_pc s = BWrite \<and> 2 \<le> length (al_dup s)) \<and> (al_pc s = BWrite \<longrightarrow> al_dup s \<noteq> [])"

definition al_front :: "nat \<Rightarrow> async_log \<Rightarrow> bool" where
  "al_front n s \<longleftrightarrow> live n (al_current s) \<and> list_all (live n) (al_buffers s) \<and> list_all (live n) (al_dup s) \<and>
     (al_next s = None \<and> al_buffers s \<noteq> [] \<or> live n (al_next s) \<and> held (al_next s) = [])"

definition al_text :: "async_log \<times> bytes list \<Rightarrow> bool" where
  "al_text x \<longleftrightarrow> (\<not> al_discarded (fst x) \<longrightarrow> concat (snd x) = al_out (fst x) @ pending (fst x))"

lemma live_blank:
  assumes "0 < length blank" "length blank < 2 ^ 32"
  shows "live (length blank) (Some (FixedBuffer blank))" "held (Some (FixedBuffer blank)) = []"
    "live (length blank) (Some (fb_zero (FixedBuffer blank)))" "held (Some (fb_zero (FixedBuffer blank))) = []"
  using assms by (simp_all add: fb_inv_def FixedBuffer_def fb_zero_def fb_contents_def)

lemma live_reset: "live n (Some b) \<Longrightarrow> live n (Some (fb_reset b)) \<and> held (Some (fb_reset b)) = []"
  by (auto simp: fb_inv_def fb_reset_def fb_contents_def)

lemma live_empty: "live n (Some b) \<Longrightarrow> held (Some b) = [] \<Longrightarrow> room b = n \<and> fb_len b = 0"
proof -
  assume a: "live n (Some b)" "held (Some b) = []"
  then have "unat (fb_len b) = 0" by (auto simp: fb_contents_def fb_inv_def)
  then have "fb_len b = 0" by (simp add: unat_eq_zero)
  with a show ?thesis by (simp add: room_def)
qed

lemma Append_live:
  assumes "live n (Some b)" "length msg < room b"
  shows "\<exists>b'. fb_Append msg b = Inr b' \<and> live n (Some b') \<and> held (Some b') = held (Some b) @ msg"
  using fb_Append_added [of b msg] assms by (auto simp: fb_added_def)

text \<open>What appending a line does: the text of the line comes behind everything that is not written yet.\<close>

lemma AsyncLog_Append_ok:
  assumes "al_front n s" "n = length blank" "n < 2 ^ 32" "length msg < n"
  shows "\<exists>s'. AsyncLog_Append blank msg s = Inr s' \<and> al_front n s' \<and> pending s' = pending s @ msg \<and>
    al_dup s' = al_dup s \<and> al_buffer1 s' = al_buffer1 s \<and> al_buffer2 s' = al_buffer2 s \<and> al_pc s' = al_pc s \<and>
    al_out s' = al_out s \<and> al_discarded s' = al_discarded s \<and> al_running s' = al_running s"
proof -
  from assms(1) obtain cur where cur: "al_current s = Some cur" "live n (Some cur)" by (cases "al_current s") (auto simp: al_front_def)
  have av: "unat (avali cur) = room cur" using cur(2) by (simp add: unat_avali)
  show ?thesis
  proof (cases "length msg < room cur")
    case True
    from Append_live [OF cur(2) True] obtain b where b: "fb_Append msg cur = Inr b" "live n (Some b)" "held (Some b) = held (Some cur) @ msg" by blast
    then have "AsyncLog_Append blank msg s = Inr (s\<lparr>al_current := Some b\<rparr>)" using cur True av by (simp add: AsyncLog_Append_def deref_def)
    then show ?thesis using assms(1) b cur by (simp add: al_front_def pending_def)
  next
    case False
    define nx where "nx = (case al_next s of None \<Rightarrow> FixedBuffer blank | Some b \<Rightarrow> b)"
    have "0 < length blank" using assms(2,4) by (auto simp del: length_greater_0_conv)
    then have nx: "live n (Some nx)" "held (Some nx) = []"
      using assms live_blank [of blank] by (auto simp: nx_def al_front_def split: option.splits)
    have "length msg < room nx" using live_empty [OF nx] assms(4) by simp
    from Append_live [OF nx(1) this] nx(2) obtain b where b: "fb_Append msg nx = Inr b" "live n (Some b)" "held (Some b) = msg" by auto
    then have "AsyncLog_Append blank msg s =
        Inr (s\<lparr>al_buffers := al_buffers s @ [Some cur], al_current := Some b, al_next := None\<rparr>)"
      using cur False av by (simp add: AsyncLog_Append_def deref_def nx_def [symmetric])
    then show ?thesis using assms(1) b cur by (simp add: al_front_def pending_def)
  qed
qed

lemma back_swap_ok:
  assumes "al_front n s" "al_own n s" "al_pc s = BWait"
  shows "al_front n (back_swap s) \<and> al_own n ((back_swap s)\<lparr>al_pc := BWrite\<rparr>) \<and> pending (back_swap s) = pending s"
proof (cases "al_next s")
  case None
  then have "al_buffers s \<noteq> []" using assms(1) by (auto simp: al_front_def)
  then show ?thesis using assms None by (auto simp: back_swap_def al_front_def al_own_def pending_def Let_def Suc_le_eq)
next
  case (Some b)
  then show ?thesis using assms by (auto simp: back_swap_def al_front_def al_own_def pending_def Let_def)
qed

lemma write_buffers_ok: "list_all (live n) ps \<Longrightarrow> write_buffers ps out = Inr (out @ concat (map held ps))"
proof (induction ps arbitrary: out)
  case (Cons p ps)
  then show ?case by (cases p) (auto simp: deref_def)
qed simp

lemma take_back_ok:
  assumes "list_all (live n) dup" "dup \<noteq> []"
  shows "\<exists>b. take_back dup = Inr (Some b, butlast dup) \<and> live n (Some b) \<and> held (Some b) = []"
proof -
  have "live n (last dup)" using assms by (metis last_in_set list.pred_set)
  then obtain b where b: "last dup = Some b" "live n (Some b)" by (cases "last dup") auto
  then show ?thesis using assms(2) live_reset [OF b(2)] by (simp add: take_back_def deref_def)
qed

lemma list_all_take: "list_all P xs \<Longrightarrow> list_all P (take k xs)"
  by (auto simp: list_all_iff dest: in_set_takeD)

lemma list_all_butlast: "list_all P xs \<Longrightarrow> list_all P (butlast xs)"
  by (auto simp: list_all_iff dest: in_set_butlastD)

lemma back_write_ok:
  assumes "al_front n s" "al_own n s" "al_pc s = BWrite"
  shows "\<exists>s'. back_write nt s = Inr s' \<and> al_front n s' \<and> al_own n (s'\<lparr>al_pc := BTop\<rparr>) \<and> al_pc s' = BWrite \<and>
    (\<not> al_discarded s' \<longrightarrow> \<not> al_discarded s \<and> al_out s' @ pending s' = al_out s @ pending s) \<and> al_running s' = al_running s \<and>
    (length (al_dup s) \<le> 16 \<longrightarrow> al_discarded s' = al_discarded s \<and> al_out s' = al_out s @ concat (map held (al_dup s)))"
proof -
  define t where "t = (if 16 < length (al_dup s) then s\<lparr>al_out := al_out s @ nt, al_dup := take 16 (al_dup s), al_discarded := True\<rparr> else s)"
  define d where "d = al_dup t"
  define d2 where "d2 = (if 2 < length d then take 2 d else d)"
  have t: "al_buffer1 t = al_buffer1 s" "al_buffer2 t = al_buffer2 s" "al_pc t = al_pc s" "al_front n t"
    "\<not> al_discarded t \<Longrightarrow> t = s \<and> \<not> al_discarded s" "al_dup s \<noteq> [] \<Longrightarrow> d \<noteq> []" "2 \<le> length (al_dup s) \<Longrightarrow> 2 \<le> length d"
    using assms(1) by (auto simp: t_def d_def al_front_def intro: list_all_take)
  have live: "list_all (live n) d" "list_all (live n) d2"
    using t(4) by (auto simp: al_front_def d_def d2_def intro: list_all_take)
  have own: "al_buffer1 s = None" "al_dup s \<noteq> []" "al_buffer2 s = None \<Longrightarrow> 2 \<le> length (al_dup s)"
    "al_buffer2 s \<noteq> None \<Longrightarrow> live n (al_buffer2 s) \<and> held (al_buffer2 s) = []" using assms(2,3) by (auto simp: al_own_def)
  have ne: "d2 \<noteq> []" "al_buffer2 s = None \<Longrightarrow> butlast d2 \<noteq> []"
    using own(2,3) t(6,7) by (auto simp: d2_def butlast_conv_take Suc_le_eq)
  obtain b1 where b1: "take_back d2 = Inr (Some b1, butlast d2)" "live n (Some b1)" "held (Some b1) = []"
    using take_back_ok [OF live(2) ne(1)] by blast
  obtain b2 d3 where b2: "(if al_buffer2 s = None then take_back (butlast d2) else Inr (al_buffer2 s, butlast d2)) = Inr (b2, d3)"
    "live n b2" "held b2 = []"
    using take_back_ok [OF list_all_butlast [OF live(2)] ne(2)] own(4) by (cases "al_buffer2 s = None") auto
  let ?s = "t\<lparr>al_out := al_out t @ concat (map held d), al_buffer1 := Some b1, al_buffer2 := b2, al_dup := []\<rparr>"
  have "back_write nt s = Inr ?s"
    unfolding back_write_def Let_def t_def [symmetric] d_def [symmetric] d2_def [symmetric] t(1,2)
    using b1(1) b2(1) write_buffers_ok [OF live(1), of "al_out t"] own(1) by simp
  moreover have "al_own n (?s\<lparr>al_pc := BTop\<rparr>)" using b1 b2 by (cases b2) (auto simp: al_own_def)
  moreover have "\<not> al_discarded ?s \<longrightarrow> \<not> al_discarded s \<and> al_out ?s @ pending ?s = al_out s @ pending s"
    using t(5) by (auto simp: pending_def d_def)
  moreover have "al_running t = al_running s" "length (al_dup s) \<le> 16 \<Longrightarrow> t = s" by (simp_all add: t_def)
  ultimately show ?thesis using t(3,4) assms(3) by (intro exI [of _ ?s]) (auto simp: al_front_def d_def)
qed

definition al_inv :: "nat \<Rightarrow> async_log \<times> bytes list \<Rightarrow> bool" where
  "al_inv n x \<longleftrightarrow> al_front n (fst x) \<and> al_own n (fst x) \<and> al_text x"

lemma al_start: "0 < length blank \<Longrightarrow> length blank < 2 ^ 32 \<Longrightarrow> al_inv (length blank) (AsyncLog_StartRun blank, [])"
  using live_blank [of blank] by (simp add: al_inv_def al_front_def al_own_def al_text_def AsyncLog_StartRun_def Let_def pending_def)

lemma al_own_pc: "al_own n s \<Longrightarrow> al_pc s \<noteq> BWrite \<Longrightarrow> p \<noteq> BWrite \<Longrightarrow> al_own n (s\<lparr>al_pc := p\<rparr>)"
  by (auto simp: al_own_def)

lemma al_front_pc [simp]: "al_front n (s\<lparr>al_pc := p\<rparr>) = al_front n s" "pending (s\<lparr>al_pc := p\<rparr>) = pending s"
  by (simp_all add: al_front_def pending_def)

lemma empty_buffer_live: "live n p \<Longrightarrow> held p = [] \<Longrightarrow> empty_buffer p"
  using live_empty by (cases p) (auto simp: empty_buffer_def)

lemma al_step_inv:
  assumes "al_step blank x r" "al_inv (length blank) x" "length blank < 2 ^ 32"
  shows "\<exists>y. r = Inr y \<and> al_inv (length blank) y"
  using assms
proof (induction rule: al_step.induct)
  case (line msg s ms)
  have F: "al_front (length blank) s" "al_own (length blank) s" "al_text (s, ms)" using line.prems(1) by (simp_all add: al_inv_def)
  from AsyncLog_Append_ok [OF F(1) refl line.prems(2) line.hyps] obtain s' where s': "AsyncLog_Append blank msg s = Inr s'"
    "al_front (length blank) s'" "pending s' = pending s @ msg" "al_dup s' = al_dup s" "al_buffer1 s' = al_buffer1 s"
    "al_buffer2 s' = al_buffer2 s" "al_pc s' = al_pc s" "al_out s' = al_out s" "al_discarded s' = al_discarded s" by blast
  then show ?case using F by (simp add: al_inv_def al_own_def al_text_def)
next
  case (stop s ms)
  then show ?case by (simp add: AsyncLog_Stop_def al_inv_def al_front_def al_own_def al_text_def pending_def)
next
  case (again s ms)
  have O: "al_own (length blank) s" using again.prems(1) by (simp add: al_inv_def)
  have "empty_buffer (al_buffer1 s) \<and> empty_buffer (al_buffer2 s) \<and> al_dup s = []"
    using O again.hyps(1) empty_buffer_live by (auto simp: al_own_def)
  then show ?case using again al_own_pc [OF O, of BWait] by (simp add: al_inv_def al_text_def)
next
  case (finish s ms)
  then show ?case using al_own_pc [of "length blank" s BDone] by (simp add: al_inv_def al_text_def)
next
  case (swap s ms)
  have "al_discarded (back_swap s) = al_discarded s" "al_out (back_swap s) = al_out s" by (simp_all add: back_swap_def Let_def)
  then show ?case using back_swap_ok [of "length blank" s] swap by (simp add: al_inv_def al_text_def)
next
  case (flush s ms nt)
  have F: "al_front (length blank) s" "al_own (length blank) s" "al_text (s, ms)" using flush.prems(1) by (simp_all add: al_inv_def)
  from back_write_ok [OF F(1,2) flush.hyps, of nt] obtain s' where s': "back_write nt s = Inr s'" "al_front (length blank) s'"
    "al_own (length blank) (s'\<lparr>al_pc := BTop\<rparr>)"
    "\<not> al_discarded s' \<longrightarrow> \<not> al_discarded s \<and> al_out s' @ pending s' = al_out s @ pending s" by blast
  then show ?case using F(3) by (simp add: al_inv_def al_text_def)
qed

lemma al_reach_inv:
  assumes "al_reach blank r" "0 < length blank" "length blank < 2 ^ 32"
  shows "\<exists>y. r = Inr y \<and> al_inv (length blank) y"
  using assms
proof (induction rule: al_reach.induct)
  case start
  then show ?case using al_start by blast
next
  case (next_step s r)
  then show ?case using al_step_inv by blast
qed

text \<open>C21. The asynchronous log loses and reorders nothing while it runs. For every interleaving of the threads that log lines,
  shorter than a buffer, with the background thread, no assertion of that thread fails and it never uses a buffer it gave away;
  and unless more than 16 buffers were full at once, what was written to the file followed by what the buffers hold is exactly
  the sequence of the lines.\<close>

theorem AsyncLog_keeps_lines:
  assumes "al_reach blank r" "0 < length blank" "length blank < 2 ^ 32"
  shows "\<exists>s ms. r = Inr (s, ms) \<and> (\<not> al_discarded s \<longrightarrow> concat ms = al_out s @ pending s)"
  using al_reach_inv [OF assms] by (auto simp: al_inv_def al_text_def)

section \<open>Stopping loses lines\<close>

text \<open>The background thread after its first swap.\<close>

lemma al_reach_writing:
  assumes "0 < length blank" "length blank < 2 ^ 32"
  shows "\<exists>s. al_reach blank (Inr (s, [])) \<and> al_out s = [] \<and> al_running s \<and> al_pc s = BWrite \<and> concat (map held (al_dup s)) = [] \<and>
    \<not> al_discarded s \<and> length (al_dup s) = 1 \<and> pending s = []"
proof -
  let ?s0 = "AsyncLog_StartRun blank"
  have "al_step blank (?s0, []) (rbind (assertR (empty_buffer (al_buffer1 ?s0) \<and> empty_buffer (al_buffer2 ?s0) \<and> al_dup ?s0 = []))
      (\<lambda>_. Inr (?s0\<lparr>al_pc := BWait\<rparr>, [])))" by (rule al_step.again) (simp_all add: AsyncLog_StartRun_def Let_def)
  moreover have "empty_buffer (al_buffer1 ?s0) \<and> empty_buffer (al_buffer2 ?s0) \<and> al_dup ?s0 = []"
    by (simp add: AsyncLog_StartRun_def Let_def empty_buffer_def fb_zero_def FixedBuffer_def)
  ultimately have "al_step blank (?s0, []) (Inr (?s0\<lparr>al_pc := BWait\<rparr>, []))" by simp
  from al_reach.next_step [OF al_reach.start this] have r1: "al_reach blank (Inr (?s0\<lparr>al_pc := BWait\<rparr>, []))" .
  define s2 where "s2 = (back_swap (?s0\<lparr>al_pc := BWait\<rparr>))\<lparr>al_pc := BWrite\<rparr>"
  have r2: "al_reach blank (Inr (s2, []))" unfolding s2_def by (rule al_reach.next_step [OF r1 al_step.swap]) simp
  have s2: "al_out s2 = []" "al_running s2" "al_pc s2 = BWrite" "concat (map held (al_dup s2)) = []" "\<not> al_discarded s2"
    "length (al_dup s2) = 1" "pending s2 = []"
    using live_blank(4) [OF assms] by (simp_all add: s2_def back_swap_def AsyncLog_StartRun_def Let_def pending_def)
  from r2 s2 show ?thesis by blast
qed

text \<open>C37. Lines logged before \<open>Stop\<close> can be lost. If a line is logged while the background thread writes, and \<open>Stop\<close> is called
  before that thread reads \<open>running_\<close> again, the thread ends without writing the line, and \<open>Stop\<close> returns.\<close>

theorem AsyncLog_Stop_loses_lines:
  assumes "msg \<noteq> []" "length msg < length blank" "length blank < 2 ^ 32"
  shows "\<exists>s. al_reach blank (Inr (s, [msg])) \<and> al_pc s = BDone \<and> al_out s = [] \<and> pending s = msg"
proof -
  let ?n = "length blank"
  have pos: "0 < ?n" using assms(2) by auto
  from al_reach_writing [OF pos assms(3)] obtain s2 where r2: "al_reach blank (Inr (s2, []))" and s2: "al_out s2 = []" "al_running s2"
    "al_pc s2 = BWrite" "concat (map held (al_dup s2)) = []" "\<not> al_discarded s2" "length (al_dup s2) = 1" "pending s2 = []" by blast
  have I2: "al_inv ?n (s2, [])" using al_reach_inv [OF r2 pos assms(3)] by simp
  from AsyncLog_Append_ok [OF _ refl assms(3,2), of s2] I2 obtain s3 where s3: "AsyncLog_Append blank msg s2 = Inr s3"
    "pending s3 = msg" "al_dup s3 = al_dup s2" "al_pc s3 = BWrite" "al_out s3 = []" "\<not> al_discarded s3" "al_running s3"
    using s2 by (auto simp: al_inv_def)
  have "al_step blank (s2, []) (Inr (s3, [msg]))" using al_step.line [OF assms(2), of s2 "[]"] s3(1) by simp
  from al_reach.next_step [OF r2 this] have r3: "al_reach blank (Inr (s3, [msg]))" .
  define s4 where "s4 = s3\<lparr>al_running := False\<rparr>"
  have "al_step blank (s3, [msg]) (Inr (s4, [msg]))" using al_step.stop [OF s3(7), of blank "[msg]"] s3(7) by (simp add: AsyncLog_Stop_def s4_def)
  from al_reach.next_step [OF r3 this] have r4: "al_reach blank (Inr (s4, [msg]))" .
  have I4: "al_front ?n s4" "al_own ?n s4" using al_reach_inv [OF r4 pos assms(3)] by (simp_all add: al_inv_def)
  have s4: "al_pc s4 = BWrite" "\<not> al_running s4" "al_dup s4 = al_dup s2" "al_out s4 = []" "pending s4 = msg" "\<not> al_discarded s4"
    using s3 by (simp_all add: s4_def pending_def)
  from back_write_ok [OF I4 s4(1), of "[]"] s4 s2(4,6) obtain s5 where s5: "back_write [] s4 = Inr s5" "al_out s5 = []"
    "pending s5 = msg" "\<not> al_running s5" by auto
  have "al_step blank (s4, [msg]) (Inr (s5\<lparr>al_pc := BTop\<rparr>, [msg]))" using al_step.flush [OF s4(1), of blank "[msg]" "[]"] s5(1) by simp
  from al_reach.next_step [OF r4 this] have r5: "al_reach blank (Inr (s5\<lparr>al_pc := BTop\<rparr>, [msg]))" .
  have "al_reach blank (Inr (s5\<lparr>al_pc := BTop\<rparr>\<lparr>al_pc := BDone\<rparr>, [msg]))"
    by (rule al_reach.next_step [OF r5 al_step.finish]) (simp_all add: s5)
  then show ?thesis using s5 by (intro exI [of _ "s5\<lparr>al_pc := BDone\<rparr>"]) simp
qed

theorem AsyncLog_Stop_loses_lines_witness:
  "\<exists>s. al_reach (replicate 8 0) (Inr (s, [[65]])) \<and> al_pc s = BDone \<and> al_out s = []"
  using AsyncLog_Stop_loses_lines [of "[65]" "replicate 8 0"] by auto

theorem AsyncLog_keeps_lines_witness:
  "\<exists>s. al_reach (replicate 8 0) (Inr (s, [[65]])) \<and> concat [[65]] = al_out s @ pending s"
proof -
  let ?b = "replicate 8 0 :: bytes" and ?s0 = "AsyncLog_StartRun (replicate 8 0)"
  have I: "al_inv (length ?b) (?s0, [])" by (rule al_start) simp_all
  then obtain s where s: "AsyncLog_Append ?b [65] ?s0 = Inr s" "al_discarded s = al_discarded ?s0"
    using AsyncLog_Append_ok [of "length ?b" ?s0 ?b "[65]"] by (auto simp: al_inv_def)
  have "al_step ?b (?s0, []) (rbind (AsyncLog_Append ?b [65] ?s0) (\<lambda>s. Inr (s, [] @ [[65]])))" by (rule al_step.line) simp
  then have "al_step ?b (?s0, []) (Inr (s, [[65]]))" using s(1) by simp
  from al_reach.next_step [OF al_reach.start this] have r: "al_reach ?b (Inr (s, [[65]]))" .
  have "\<not> al_discarded s" using s(2) by (simp add: AsyncLog_StartRun_def Let_def)
  with AsyncLog_keeps_lines [OF r] r show ?thesis by auto
qed

section \<open>AppendFile and LogFile\<close>

text \<open>The number of bytes that \<open>fwrite\<close> took is an argument. A write that is
  complete ends the loop of \<open>_Append\<close>, and so does one that is not, whose bytes are then not counted.\<close>

record append_file =
  af_name :: bytes
  af_data :: bytes
  af_written :: usize

definition AppendFile :: "bytes \<Rightarrow> append_file" where
  "AppendFile filename = \<lparr>af_name = filename, af_data = [], af_written = 0\<rparr>"

definition AppendFile_Append :: "nat \<Rightarrow> bytes \<Rightarrow> append_file \<Rightarrow> append_file" where
  "AppendFile_Append n data f =
     (let written = (if n \<noteq> length data then 0 else of_nat n) in
      f\<lparr>af_data := af_data f @ take n data, af_written := af_written f + written\<rparr>)"

text \<open>What a file is named by: the members of \<open>LogFile\<close>, the id of the process and the name of the host, and the text that \<open>localtime\<close> and
  \<open>strftime\<close> make of a second, which is a parameter. The strings are appended up to their first null character.\<close>

record file_naming =
  fn_prefix :: bytes
  fn_basename :: bytes
  fn_stamp :: "int \<Rightarrow> bytes"
  fn_pid :: bytes
  fn_host :: bytes

definition c_str :: "bytes \<Rightarrow> bytes" where
  "c_str = takeWhile (\<lambda>c. c \<noteq> 0)"

definition GetLogFilename :: "file_naming \<Rightarrow> int \<Rightarrow> bytes" where
  "GetLogFilename N now =
     c_str (fn_prefix N) @ (if fn_prefix N \<noteq> [] \<and> last (fn_prefix N) \<noteq> 47 then [47] else []) @ c_str (fn_basename N) @
     fn_stamp N now @ c_str (fn_pid N) @ [46] @ c_str (fn_host N) @ [46, 108, 111, 103]"

text \<open>The files that were closed are kept, and the names of those the removing thread has removed. \<open>lf_pass\<close> are the names that it has
  still to remove in its pass through \<open>log_files_dup_\<close>, if it is in one; \<open>lf_raced\<close> says that \<open>log_files_dup_\<close> was ever changed during
  a pass.\<close>

record log_file =
  lf_naming :: file_naming
  lf_roll_size :: usize
  lf_start_of_period :: int
  lf_roll_interval :: int
  lf_last_roll :: int
  lf_last_flush :: int
  lf_flush_interval :: int
  lf_file :: append_file
  lf_log_file_num :: nat
  lf_log_files :: "bytes list"
  lf_log_files_dup :: "bytes list"
  lf_closed :: "append_file list"
  lf_removed :: "bytes list"
  lf_pass :: "bytes list option"
  lf_raced :: bool

text \<open>\<open>time_t\<close> divided by the interval; a division by 0 ends the program.\<close>

definition period :: "int \<Rightarrow> log_file \<Rightarrow> int res" where
  "period now lf = (if lf_roll_interval lf = 0 then Inl Terminate else Inr (now sdiv lf_roll_interval lf))"

definition RollFile :: "int \<Rightarrow> log_file \<Rightarrow> log_file res" where
  "RollFile now lf = rbind (period now lf) (\<lambda>new_start_period.
     Inr (if lf_last_roll lf < now
          then let filename = GetLogFilename (lf_naming lf) now in
               lf\<lparr>lf_last_roll := now, lf_last_flush := now, lf_start_of_period := new_start_period,
                  lf_closed := lf_closed lf @ [lf_file lf], lf_file := AppendFile filename, lf_log_files := lf_log_files lf @ [filename]\<rparr>
          else lf))"


text \<open>The end of \<open>Append\<close>: when there are enough files, all but the open one are handed to the removing thread. The mutex of that
  thread is not held.\<close>

definition hand_over :: "log_file \<Rightarrow> log_file" where
  "hand_over lf =
     (if lf_log_file_num lf \<le> length (lf_log_files lf)
      then lf\<lparr>lf_log_files_dup := butlast (lf_log_files lf), lf_log_files := lf_log_files_dup lf @ [last (lf_log_files lf)],
              lf_raced := lf_raced lf \<or> lf_pass lf \<noteq> None\<rparr>
      else lf)"


text \<open>A step of the removing thread behind its wait: it begins its pass, removes a file, or clears the list.\<close>

definition remove_files :: "log_file \<Rightarrow> log_file" where
  "remove_files lf =
     (case lf_pass lf of
        None \<Rightarrow> lf\<lparr>lf_pass := Some (lf_log_files_dup lf)\<rparr>
      | Some (log_file # rest) \<Rightarrow> lf\<lparr>lf_removed := lf_removed lf @ [log_file], lf_pass := Some rest\<rparr>
      | Some [] \<Rightarrow> lf\<lparr>lf_log_files_dup := [], lf_pass := None\<rparr>)"

















text \<open>Files that are handed over while the removing thread is in a pass are forgotten: the end of the pass clears the list they are in.
  The names of the pass are back in \<open>log_files_\<close>, to be removed again.\<close>

lemma hand_over_during_pass:
  assumes "lf_pass lf = Some []" "lf_log_file_num lf \<le> length (lf_log_files lf)"
  shows "lf_log_files_dup (remove_files (hand_over lf)) = []"
    and "lf_log_files (remove_files (hand_over lf)) = lf_log_files_dup lf @ [last (lf_log_files lf)]"
    and "lf_removed (remove_files (hand_over lf)) = lf_removed lf"
  using assms by (simp_all add: hand_over_def remove_files_def)

text \<open>A line that \<open>fwrite\<close> takes only partly is cut, and its bytes do not count towards the size that rolls the file.\<close>

lemma AppendFile_short_write:
  "n < length data \<Longrightarrow> af_written (AppendFile_Append n data f) = af_written f \<and> af_data (AppendFile_Append n data f) = af_data f @ take n data"
  by (simp add: AppendFile_Append_def)

text \<open>After a roll in the same second the file is not rolled again, however large it is.\<close>

lemma RollFile_same_second: "lf_roll_interval lf \<noteq> 0 \<Longrightarrow> now \<le> lf_last_roll lf \<Longrightarrow> RollFile now lf = Inr lf"
  by (simp add: RollFile_def period_def)

end
