(* ===== verification/Length_Codec.thy ===== *)
theory Length_Codec
  imports Pb_Codec
begin

text \<open>
  Model of \<^verbatim>\<open>example/length_codec/codec.cc\<close>, the codec of the chat and the file transfer programs, over the models of
  \<open>Buffer\<close> and \<open>ChunkList\<close>, and of the message callback of \<^verbatim>\<open>example/chat/server/chat_server.h\<close>. The connection is an argument: what
  its \<open>Send\<close> and \<open>ShutdownWrite\<close> do to it. So is the message callback, which gets the input buffer and reads from it.
\<close>

definition LengthHeaderCodec_Send ::
  "allocator \<Rightarrow> endian \<Rightarrow> (buffer \<Rightarrow> 'c \<Rightarrow> 'c res) \<Rightarrow> bytes \<Rightarrow> 'c \<Rightarrow> 'c res" where
  "LengthHeaderCodec_Send A e send msg conn =
     rbind (Buffer A BUFFER_INIT_SIZE) (\<lambda>output_buffer.
       let len = of_nat (length msg) :: 32 word in
       rbind (Append A output_buffer msg) (\<lambda>output_buffer.
       rbind (Prepend32 e output_buffer len) (\<lambda>output_buffer.
       send output_buffer conn)))"

text \<open>The overload for the output buffer of a connection, with assertions enabled: the asserted expression reads the header.\<close>

definition LengthHeaderCodec_SendChunks ::
  "chunk_alloc \<Rightarrow> endian \<Rightarrow> (chunk_list \<Rightarrow> 'c \<Rightarrow> 'c res) \<Rightarrow> chunk_list \<Rightarrow> 'c \<Rightarrow> 'c res" where
  "LengthHeaderCodec_SendChunks A e send buffer conn =
     (let len = of_nat (ChunkList_GetReadableSize buffer) :: 32 word in
      rbind (ChunkList_Prepend32 A e buffer len) (\<lambda>buffer.
      rbind (ChunkList_Read32 e buffer) (\<lambda>(i, buffer).
      rbind (assertR (i = len)) (\<lambda>_.
      send buffer conn))))"

text \<open>\<open>kHeaderLength + message_len\<close> is computed in 32 bits.\<close>

partial_function (option) LengthHeaderCodec_OnMessage ::
  "endian \<Rightarrow> 64 word \<Rightarrow> ('c \<Rightarrow> buffer \<Rightarrow> ('c \<times> buffer) res) \<Rightarrow> ('c \<Rightarrow> 'c) \<Rightarrow> 'c \<Rightarrow> buffer \<Rightarrow> ('c \<times> buffer) res option" where
  "LengthHeaderCodec_OnMessage e max_accept_len message_callback ShutdownWrite conn buf =
     (if GetReadableSize buf < 4 then Some (Inr (conn, buf))
      else (case GetReadBegin32 e buf of
          Inl err \<Rightarrow> Some (Inl err)
        | Inr message_len \<Rightarrow>
            if max_accept_len < ucast message_len then Some (Inr (ShutdownWrite conn, buf))
            else if ucast (4 + message_len) \<le> GetReadableSize buf then
              (case rbind (AdvanceRead buf 4) (message_callback conn) of
                 Inl err \<Rightarrow> Some (Inl err)
               | Inr (conn, buf) \<Rightarrow>
                   LengthHeaderCodec_OnMessage e max_accept_len message_callback ShutdownWrite conn buf)
            else Some (Inr (conn, buf))))"

text \<open>The callback of the chat server; the state is the list of the strings passed to \<open>OnStringMessage\<close>.\<close>

definition chat_callback :: "bytes list \<Rightarrow> buffer \<Rightarrow> (bytes list \<times> buffer) res" where
  "chat_callback received msg = rbind (RetrieveAllAsString msg) (\<lambda>(str, msg). Inr (received @ [str], msg))"

section \<open>Framing\<close>

definition length_frame :: "bytes \<Rightarrow> bytes" where
  "length_frame msg = be_bytes 4 (of_nat (length msg) :: 32 word) @ msg"

lemma LengthHeaderCodec_Send_frame:
  assumes "LengthHeaderCodec_Send A e send msg conn = Inr conn'" "length msg < 2 ^ 32"
  shows "\<exists>b. buf_ok b \<and> buf_content b = length_frame msg \<and> send b conn = Inr conn'"
proof -
  from assms(1) obtain b0 b1 b2 where b: "Buffer A BUFFER_INIT_SIZE = Inr b0" "Append A b0 msg = Inr b1"
    "Prepend b1 (be_bytes 4 (of_nat (length msg) :: 32 word)) = Inr b2" "send b2 conn = Inr conn'"
    by (auto simp: LengthHeaderCodec_Send_def Let_def append_int_simps)
  have "buf_std b0" "buf_content b0 = []" by (rule Buffer_ok [OF b(1)]; simp)+
  with Append_Inr [OF _ b(2)] assms(2) have b1: "buf_std b1" "buf_content b1 = msg" by auto
  then have "of_nat (length (be_bytes 4 (of_nat (length msg) :: 32 word))) \<le> b_read_index b1"
    by (auto simp: buf_std_def word_le_nat_alt)
  with Prepend_ok [OF b1(1) this] b(3) b1(2) have "buf_ok b2" "buf_content b2 = length_frame msg"
    by (auto simp: length_frame_def)
  with b(4) show ?thesis by blast
qed

text \<open>What reaches the other side is the list of the frames, one per message.\<close>

lemma LengthHeaderCodec_Send_all:
  assumes "foldl (\<lambda>w m. rbind w (LengthHeaderCodec_Send A e (\<lambda>b w. Inr (w @ buf_content b)) m)) (Inr w0) msgs = Inr wire"
    and "\<forall>m\<in>set msgs. length m < 2 ^ 32"
  shows "wire = w0 @ concat (map length_frame msgs)"
  using assms
proof (induction msgs arbitrary: w0)
  case (Cons m ms)
  let ?S = "LengthHeaderCodec_Send A e (\<lambda>b w. Inr (w @ buf_content b))"
  have stuck: "foldl (\<lambda>w m. rbind w (?S m)) (Inl err) ms = Inl err" for err by (induction ms) simp_all
  with Cons.prems obtain w1 where w1: "?S m w0 = Inr w1" by (cases "?S m w0") auto
  with LengthHeaderCodec_Send_frame [OF w1] Cons.prems(2) have "w1 = w0 @ length_frame m" by auto
  with Cons.IH [of w1] Cons.prems w1 show ?case by simp
qed simp

section \<open>The receiving loop\<close>

lemma codec_loop_step:
  fixes mx :: "64 word"
  assumes "buf_std b" "4 \<le> length (buf_content b)" "unat mx < 2 ^ 32 - 4"
  defines "h \<equiv> be_word (take 4 (buf_content b)) :: 32 word"
  shows "unat mx < unat h \<Longrightarrow> LengthHeaderCodec_OnMessage e mx cb sd c b = Some (Inr (sd c, b))"
    and "unat h \<le> unat mx \<Longrightarrow> length (buf_content b) < 4 + unat h \<Longrightarrow>
      LengthHeaderCodec_OnMessage e mx cb sd c b = Some (Inr (c, b))"
    and "unat h \<le> unat mx \<Longrightarrow> 4 + unat h \<le> length (buf_content b) \<Longrightarrow>
      \<exists>b'. buf_std b' \<and> buf_content b' = drop 4 (buf_content b) \<and>
        LengthHeaderCodec_OnMessage e mx cb sd c b =
          (case cb c b' of Inl err \<Rightarrow> Some (Inl err) | Inr (c, b) \<Rightarrow> LengthHeaderCodec_OnMessage e mx cb sd c b)"
proof -
  have ok: "buf_ok b" using assms(1) by (simp add: buf_std_def)
  have rs: "unat (GetReadableSize b) = length (buf_content b)" by (simp add: length_buf_content [OF ok])
  have r4: "\<not> GetReadableSize b < 4" using assms(2) by (simp add: word_less_nat_alt rs)
  have gh: "GetReadBegin32 e b = Inr h" unfolding h_def by (rule GetReadBegin32_ok [OF ok assms(2)])
  have mx: "mx < ucast h \<longleftrightarrow> unat mx < unat h" by (simp add: word_less_nat_alt unat_ucast_32)
  note unf = LengthHeaderCodec_OnMessage.simps [of e mx cb sd c b]
  show "unat mx < unat h \<Longrightarrow> LengthHeaderCodec_OnMessage e mx cb sd c b = Some (Inr (sd c, b))"
    using r4 gh mx by (simp add: unf)
  assume h: "unat h \<le> unat mx"
  have "unat (4 + h) = 4 + unat h" using h assms(3) by (simp add: unat_word_ariths)
  then have le: "ucast (4 + h) \<le> GetReadableSize b \<longleftrightarrow> 4 + unat h \<le> length (buf_content b)"
    by (simp add: word_le_nat_alt rs unat_ucast_32)
  show "length (buf_content b) < 4 + unat h \<Longrightarrow> LengthHeaderCodec_OnMessage e mx cb sd c b = Some (Inr (c, b))"
    using r4 gh mx h le by (simp add: unf)
  assume c: "4 + unat h \<le> length (buf_content b)"
  from AdvanceRead_ok [OF ok, of 4] assms(1,2) obtain b' where b': "AdvanceRead b 4 = Inr b'" "buf_std b'"
    "buf_content b' = drop 4 (buf_content b)" by auto
  then show "\<exists>b'. buf_std b' \<and> buf_content b' = drop 4 (buf_content b) \<and>
        LengthHeaderCodec_OnMessage e mx cb sd c b =
          (case cb c b' of Inl err \<Rightarrow> Some (Inl err) | Inr (c, b) \<Rightarrow> LengthHeaderCodec_OnMessage e mx cb sd c b)"
    using r4 gh mx h le c by (intro exI [of _ b']) (simp add: unf)
qed

lemma codec_loop_short:
  assumes "buf_std b" "length (buf_content b) < 4"
  shows "LengthHeaderCodec_OnMessage e mx cb sd c b = Some (Inr (c, b))"
proof -
  have "GetReadableSize b < 4" using assms by (simp add: word_less_nat_alt buf_std_def length_buf_content [symmetric])
  then show ?thesis by (simp add: LengthHeaderCodec_OnMessage.simps [of e mx cb sd c b])
qed

text \<open>The loop ends for every callback that leaves no more in the buffer than it found there.\<close>

lemma LengthHeaderCodec_OnMessage_returns:
  assumes cb: "\<And>c b c' b'. buf_std b \<Longrightarrow> cb c b = Inr (c', b') \<Longrightarrow> buf_std b' \<and> length (buf_content b') \<le> length (buf_content b)"
    and mx: "unat mx < 2 ^ 32 - 4"
  shows "buf_std b \<Longrightarrow> \<exists>r. LengthHeaderCodec_OnMessage e mx cb sd c b = Some r"
proof (induction "length (buf_content b)" arbitrary: b c rule: less_induct)
  case less
  show ?case
  proof (cases "length (buf_content b) < 4")
    case True
    show ?thesis by (rule exI, rule codec_loop_short [OF less.prems True])
  next
    case False
    then have l4: "4 \<le> length (buf_content b)" by simp
    let ?h = "be_word (take 4 (buf_content b)) :: 32 word"
    note step = codec_loop_step [OF less.prems l4 mx, of e cb sd c]
    consider "unat mx < unat ?h" | "unat ?h \<le> unat mx" "length (buf_content b) < 4 + unat ?h"
      | "unat ?h \<le> unat mx" "4 + unat ?h \<le> length (buf_content b)" by linarith
    then show ?thesis
    proof cases
      case 3
      from step(3) [OF 3] obtain b1 where b1: "buf_std b1" "buf_content b1 = drop 4 (buf_content b)"
        "LengthHeaderCodec_OnMessage e mx cb sd c b =
          (case cb c b1 of Inl err \<Rightarrow> Some (Inl err) | Inr (c, b) \<Rightarrow> LengthHeaderCodec_OnMessage e mx cb sd c b)" by blast
      show ?thesis
      proof (cases "cb c b1")
        case (Inr p)
        obtain c2 b2 where p: "p = (c2, b2)" by fastforce
        from cb [OF b1(1) Inr [unfolded p]] b1(2) l4 have "length (buf_content b2) < length (buf_content b)" "buf_std b2" by auto
        from less.hyps [OF this] show ?thesis using b1(3) Inr p by simp
      qed (simp add: b1(3))
    qed (use step(1,2) in blast)+
  qed
qed

text \<open>What the loop leaves in the buffer: nothing, a part of a header, or a header and a part of its message.\<close>

definition incomplete :: "64 word \<Rightarrow> bytes \<Rightarrow> bool" where
  "incomplete mx rest \<longleftrightarrow> length rest < 4 \<or>
     (let h = be_word (take 4 rest) :: 32 word in unat h \<le> unat mx \<and> length rest < 4 + unat h)"

lemma codec_loop_frames:
  assumes mx: "unat mx < 2 ^ 32 - 4" and rest: "incomplete mx rest"
  shows "buf_std b \<Longrightarrow> buf_content b = concat (map length_frame msgs) @ rest \<Longrightarrow> \<forall>m\<in>set msgs. length m \<le> unat mx \<Longrightarrow>
    \<forall>m\<in>set msgs. \<forall>c b r. buf_std b \<and> buf_content b = m @ r \<longrightarrow>
      (\<exists>b'. cb c b = Inr (deliver c m, b') \<and> buf_std b' \<and> buf_content b' = r) \<Longrightarrow>
    \<exists>b'. LengthHeaderCodec_OnMessage e mx cb sd c b = Some (Inr (foldl deliver c msgs, b')) \<and> buf_std b' \<and> buf_content b' = rest"
proof (induction msgs arbitrary: b c)
  case Nil
  show ?case
  proof (cases "length rest < 4")
    case True
    then show ?thesis using codec_loop_short [OF Nil.prems(1), of e mx cb sd c] Nil.prems by simp
  next
    case False
    then show ?thesis using codec_loop_step(2) [OF Nil.prems(1) _ mx, of e cb sd c] rest Nil.prems by (simp add: incomplete_def Let_def)
  qed
next
  case (Cons m ms)
  let ?tl = "concat (map length_frame ms) @ rest"
  have bc: "buf_content b = be_bytes 4 (of_nat (length m) :: 32 word) @ m @ ?tl" using Cons.prems(2) by (simp add: length_frame_def [of m])
  have l: "length m < 2 ^ 32" "length m \<le> unat mx" using Cons.prems(3) mx by auto
  then have h: "unat (be_word (take 4 (buf_content b)) :: 32 word) = length m"
    by (simp add: bc be_word_be_bytes unat_of_nat)
  have "\<exists>b1. buf_std b1 \<and> buf_content b1 = m @ ?tl \<and> LengthHeaderCodec_OnMessage e mx cb sd c b =
    (case cb c b1 of Inl err \<Rightarrow> Some (Inl err) | Inr (c, b) \<Rightarrow> LengthHeaderCodec_OnMessage e mx cb sd c b)"
    using codec_loop_step(3) [OF Cons.prems(1) _ mx, of e cb sd c] l(2) bc unfolding h by simp
  then obtain b1 where b1: "buf_std b1" "buf_content b1 = m @ ?tl" "LengthHeaderCodec_OnMessage e mx cb sd c b =
    (case cb c b1 of Inl err \<Rightarrow> Some (Inl err) | Inr (c, b) \<Rightarrow> LengthHeaderCodec_OnMessage e mx cb sd c b)" by blast
  have "\<exists>b2. cb c b1 = Inr (deliver c m, b2) \<and> buf_std b2 \<and> buf_content b2 = ?tl"
    using Cons.prems(4) [THEN bspec, of m, THEN spec, of c, THEN spec, of b1, THEN spec, of ?tl] b1(1,2) by simp
  then obtain b2 where b2: "cb c b1 = Inr (deliver c m, b2)" "buf_std b2" "buf_content b2 = ?tl" by blast
  from Cons.IH [OF b2(2,3), of "deliver c m"] Cons.prems(3,4) show ?case using b1(3) b2(1) by simp
qed

text \<open>With a callback that reads exactly its message, messages sent through the length codec arrive whole and in order. Take what any number of calls of \<open>Send\<close> put on the wire,
  followed by an incomplete frame. \<open>OnMessage\<close> returns; if the callback reads exactly the message from a buffer that starts with
  one of them, it has been called once for every message, in the order of sending, and the incomplete frame is still in the buffer. The
  length limit must leave room for the header in 32 bits.\<close>

lemma LengthHeaderCodec_roundtrip:
  assumes "foldl (\<lambda>w m. rbind w (LengthHeaderCodec_Send A e (\<lambda>b w. Inr (w @ buf_content b)) m)) (Inr []) msgs = Inr wire"
    and "\<forall>m\<in>set msgs. length m \<le> unat max_accept_len" "unat max_accept_len < 2 ^ 32 - 4"
    and "\<forall>m\<in>set msgs. \<forall>c b r. buf_std b \<and> buf_content b = m @ r \<longrightarrow>
      (\<exists>b'. message_callback c b = Inr (deliver c m, b') \<and> buf_std b' \<and> buf_content b' = r)"
    and "incomplete max_accept_len rest" "buf_std b" "buf_content b = wire @ rest"
  shows "\<exists>b'. LengthHeaderCodec_OnMessage e' max_accept_len message_callback ShutdownWrite c b =
      Some (Inr (foldl deliver c msgs, b')) \<and> buf_std b' \<and> buf_content b' = rest"
proof -
  have "\<forall>m\<in>set msgs. length m < 2 ^ 32" using assms(2,3) by force
  then have "wire = concat (map length_frame msgs)" using LengthHeaderCodec_Send_all [OF assms(1)] by simp
  then show ?thesis using codec_loop_frames [OF assms(3,5,6) _ assms(2,4), of e' ShutdownWrite c] assms(7) by simp
qed

text \<open>A buffer that holds two messages and a part of a header, and a callback that reads three bytes.\<close>

definition demo_wire :: buffer where
  "demo_wire = \<lparr>b_read_index = 8, b_write_index = 24, b_data = \<lparr>ra_data = Some (replicate 8 0 @ [0, 0, 0, 3, 1, 2, 3, 0, 0, 0, 3, 4, 5, 6, 0, 0])\<rparr>\<rparr>"

definition demo_callback :: "bytes list \<Rightarrow> buffer \<Rightarrow> (bytes list \<times> buffer) res" where
  "demo_callback received b = rbind (RetrieveAsString b 3) (\<lambda>(str, b). Inr (received @ [str], b))"

lemma LengthHeaderCodec_Send_small:
  assumes "Buffer A BUFFER_INIT_SIZE = Inr b0" "length msg \<le> unat BUFFER_INIT_SIZE"
  shows "\<exists>b. LengthHeaderCodec_Send A e send msg conn = send b conn \<and> buf_content b = length_frame msg"
proof -
  note b0 = Buffer_ok [OF assms(1)]
  have len: "length msg < 2 ^ 63" using assms(2) by simp
  have "of_nat (length msg) \<le> GetWritableSize b0" using assms(2) b0(3) by (simp add: word_le_nat_alt unat_of_nat_usize)
  then have "ReserveWriteSpace A b0 (of_nat (length msg)) = Inr b0" by (simp add: ReserveWriteSpace_def)
  then have "Append A b0 msg \<noteq> Inl Terminate" by (auto simp: Append_def ra_write_def rbind_def split: sum.splits option.splits if_splits)
  then obtain b1 where b1: "Append A b0 msg = Inr b1"
    using Append_cases [OF _ len buf_std_can_reserve, of b0 A] b0(1) by (auto simp: buf_std_def)
  with Append_Inr [OF _ this len] b0(1,2) have s1: "buf_std b1" "buf_content b1 = msg" by auto
  have "of_nat (length (be_bytes 4 (of_nat (length msg) :: 32 word))) \<le> b_read_index b1"
    using s1(1) by (auto simp: buf_std_def word_le_nat_alt)
  from Prepend_ok [OF s1(1) this] obtain b2 where
    "Prepend b1 (be_bytes 4 (of_nat (length msg) :: 32 word)) = Inr b2" "buf_content b2 = length_frame msg"
    by (auto simp: length_frame_def s1(2))
  then show ?thesis using assms(1) b1 by (auto simp: LengthHeaderCodec_Send_def Let_def append_int_simps)
qed

lemma demo_alloc_Buffer: "\<exists>b. Buffer demo_alloc BUFFER_INIT_SIZE = Inr b"
  by (simp add: Buffer_def ra_Grow_def ra_Reallocate_def libc_realloc_def libc_malloc_def mem_granted_def demo_alloc_def ReservedArray_def ra_size_def ra_bytes_def GetReadableSize_def)

lemma RetrieveAsString_ok:
  assumes "buf_std b" "unat n \<le> length (buf_content b)"
  shows "\<exists>b'. RetrieveAsString b n = Inr (take (unat n) (buf_content b), b') \<and> buf_std b' \<and> buf_content b' = drop (unat n) (buf_content b)"
proof -
  have ok: "buf_ok b" using assms by (simp add: buf_std_def)
  have "n \<le> GetReadableSize b" using assms(2) by (simp add: length_buf_content [OF ok] word_le_nat_alt)
  then show ?thesis using AdvanceRead_ok [OF ok assms(2)] peek_ok [OF ok assms(2)] assms(1) by (auto simp: RetrieveAsString_def)
qed

lemma LengthHeaderCodec_roundtrip_demo:
  "\<exists>wire b'. foldl (\<lambda>w m. rbind w (LengthHeaderCodec_Send demo_alloc LittleEndian (\<lambda>b w. Inr (w @ buf_content b)) m)) (Inr []) [[1, 2, 3], [4, 5, 6]] = Inr wire \<and>
     buf_content demo_wire = wire @ [0, 0] \<and>
     LengthHeaderCodec_OnMessage BigEndian 65536 demo_callback id [] demo_wire = Some (Inr ([[1, 2, 3], [4, 5, 6]], b')) \<and> buf_content b' = [0, 0]"
proof -
  let ?msgs = "[[1, 2, 3], [4, 5, 6]] :: bytes list"
  let ?wire = "[0, 0, 0, 3, 1, 2, 3, 0, 0, 0, 3, 4, 5, 6] :: bytes"
  have w: "foldl (\<lambda>w m. rbind w (LengthHeaderCodec_Send demo_alloc LittleEndian (\<lambda>b w. Inr (w @ buf_content b)) m)) (Inr []) ?msgs = Inr ?wire"
  proof -
    obtain b0 where b0: "Buffer demo_alloc BUFFER_INIT_SIZE = Inr b0" using demo_alloc_Buffer by blast
    have f: "LengthHeaderCodec_Send demo_alloc LittleEndian (\<lambda>b w. Inr (w @ buf_content b)) m w = Inr (w @ length_frame m)"
      if "length m \<le> 16" for m w
      using LengthHeaderCodec_Send_small [OF b0, of m LittleEndian "\<lambda>b w. Inr (w @ buf_content b)" w] that by auto
    have four: "(4 :: nat) = Suc (Suc (Suc (Suc 0)))" by simp
    have "length_frame [1, 2, 3] = [0, 0, 0, 3, 1, 2, 3]" "length_frame [4, 5, 6] = [0, 0, 0, 3, 4, 5, 6]"
      unfolding length_frame_def be_bytes_def four by simp_all
    then show ?thesis by (simp add: f)
  qed
  have b: "buf_std demo_wire" "buf_content demo_wire = ?wire @ [0, 0]"
    by (simp_all add: demo_wire_def buf_std_def buf_ok_def ra_wf_def ra_bytes_def buf_content_def seg_def)
  have "\<exists>b'. demo_callback c b = Inr (c @ [m], b') \<and> buf_std b' \<and> buf_content b' = r"
    if "m \<in> set ?msgs" "buf_std b" "buf_content b = m @ r" for c b m r
    using RetrieveAsString_ok [OF that(2), of 3] that(1,3) by (auto simp: demo_callback_def)
  then have cb: "\<forall>m\<in>set ?msgs. \<forall>c b r. buf_std b \<and> buf_content b = m @ r \<longrightarrow>
      (\<exists>b'. demo_callback c b = Inr (c @ [m], b') \<and> buf_std b' \<and> buf_content b' = r)" by blast
  have l: "\<forall>m\<in>set ?msgs. length m \<le> unat (65536 :: 64 word)" "unat (65536 :: 64 word) < 2 ^ 32 - 4" "incomplete 65536 [0, 0]"
    by (simp_all add: incomplete_def)
  from LengthHeaderCodec_roundtrip [OF w l(1,2) cb l(3) b, of BigEndian id "[]"] show ?thesis using w b(2) by auto
qed

section \<open>The programs that use the codec\<close>

lemma RetrieveAllAsString_ok:
  assumes "buf_std b"
  shows "\<exists>b'. RetrieveAllAsString b = Inr (buf_content b, b') \<and> buf_std b' \<and> buf_content b' = []"
proof -
  have "unat (GetReadableSize b) = length (buf_content b)" using assms by (simp add: buf_std_def length_buf_content)
  then show ?thesis using RetrieveAsString_ok [OF assms, of "GetReadableSize b"] by (auto simp: RetrieveAllAsString_def)
qed

text \<open>The callback of the chat server does not: it takes everything that is in the buffer.\<close>

lemma chat_merges_messages:
  assumes "buf_std b" "buf_content b = length_frame m @ rest" "length m \<le> 65536"
  shows "\<exists>b'. LengthHeaderCodec_OnMessage e 65536 chat_callback sd received b = Some (Inr (received @ [m @ rest], b')) \<and> buf_content b' = []"
proof -
  have h: "unat (be_word (take 4 (buf_content b)) :: 32 word) = length m"
    using assms(3) by (simp add: assms(2) length_frame_def be_word_be_bytes unat_of_nat)
  have "\<exists>b1. buf_std b1 \<and> buf_content b1 = m @ rest \<and> LengthHeaderCodec_OnMessage e 65536 chat_callback sd received b =
    (case chat_callback received b1 of Inl err \<Rightarrow> Some (Inl err) | Inr (c, b) \<Rightarrow> LengthHeaderCodec_OnMessage e 65536 chat_callback sd c b)"
    using codec_loop_step(3) [OF assms(1), of 65536 e chat_callback sd received] assms(2,3) unfolding h
    by (simp add: length_frame_def)
  then obtain b1 where b1: "buf_std b1" "buf_content b1 = m @ rest" "LengthHeaderCodec_OnMessage e 65536 chat_callback sd received b =
    (case chat_callback received b1 of Inl err \<Rightarrow> Some (Inl err) | Inr (c, b) \<Rightarrow> LengthHeaderCodec_OnMessage e 65536 chat_callback sd c b)"
    by blast
  from RetrieveAllAsString_ok [OF b1(1)] obtain b2 where b2: "RetrieveAllAsString b1 = Inr (m @ rest, b2)" "buf_std b2" "buf_content b2 = []"
    using b1(2) by auto
  then show ?thesis using codec_loop_short [OF b2(2), of e 65536 chat_callback sd "received @ [m @ rest]"] b1(3) by (simp add: chat_callback_def)
qed

text \<open>C10. What the chat server gets from its codec. Take what calls of \<open>Send\<close> for the messages \<open>m\<close>, \<open>ms\<close> put on the wire, none of them
  longer than the limit of 65536 bytes, and let any first part of it be in the input buffer when \<open>OnMessage\<close> is called.
  \<open>OnMessage\<close> returns without an error. While the first message is incomplete nothing is delivered and the buffer stays as it is.
  Otherwise one string is delivered and the buffer is empty: the string is \<open>m\<close> when just this message has arrived; what
  arrived behind it, with the headers in it, is part of the string.\<close>

theorem LengthHeaderCodec_chat:
  assumes "foldl (\<lambda>w m. rbind w (LengthHeaderCodec_Send A e (\<lambda>b w. Inr (w @ buf_content b)) m)) (Inr []) (m # ms) = Inr wire"
    and "\<forall>m'\<in>set (m # ms). length m' \<le> 65536"
    and "buf_std b" "buf_content b = take k wire" "k \<le> length wire"
  shows "if k < 4 + length m
    then LengthHeaderCodec_OnMessage e' 65536 chat_callback ShutdownWrite received b = Some (Inr (received, b))
    else \<exists>b'. LengthHeaderCodec_OnMessage e' 65536 chat_callback ShutdownWrite received b =
        Some (Inr (received @ [m @ take (k - (4 + length m)) (drop (4 + length m) wire)], b')) \<and> buf_content b' = []"
proof -
  have "\<forall>m'\<in>set (m # ms). length m' < 2 ^ 32" using assms(2) by force
  from LengthHeaderCodec_Send_all [OF assms(1) this]
  have w: "wire = length_frame m @ concat (map length_frame ms)" by simp
  have lf: "length (length_frame m) = 4 + length m" and lm: "length m \<le> 65536" using assms(2) by (simp_all add: length_frame_def)
  show ?thesis
  proof (cases "k < 4 + length m")
    case True
    have lb: "length (buf_content b) = k" using assms(4,5) by simp
    have "LengthHeaderCodec_OnMessage e' 65536 chat_callback ShutdownWrite received b = Some (Inr (received, b))"
    proof (cases "k < 4")
      case True
      then show ?thesis using codec_loop_short [OF assms(3)] lb by simp
    next
      case False
      have "unat (be_word (take 4 (buf_content b)) :: 32 word) = length m"
        using lm False by (simp add: assms(4) w length_frame_def be_word_be_bytes unat_of_nat)
      then show ?thesis using codec_loop_step(2) [OF assms(3), of 65536 e' chat_callback ShutdownWrite received] lb False True lm by simp
    qed
    with True show ?thesis by simp
  next
    case False
    then have "buf_content b = length_frame m @ take (k - (4 + length m)) (drop (4 + length m) wire)"
      by (simp add: assms(4) w lf)
    from chat_merges_messages [OF assms(3) this lm, of e' ShutdownWrite received] False show ?thesis by simp
  qed
qed

lemma demo_frames: "foldl (\<lambda>w m. rbind w (LengthHeaderCodec_Send demo_alloc LittleEndian (\<lambda>b w. Inr (w @ buf_content b)) m)) (Inr [])
    [[1, 2, 3], [4, 5, 6]] = Inr [0, 0, 0, 3, 1, 2, 3, 0, 0, 0, 3, 4, 5, 6]"
  using LengthHeaderCodec_roundtrip_demo by (auto simp: demo_wire_def buf_content_def seg_def ra_bytes_def)

text \<open>A message and a part of the next one.\<close>

definition demo_wire_part :: buffer where
  "demo_wire_part = demo_wire\<lparr>b_write_index := 17\<rparr>"

theorem LengthHeaderCodec_chat_witness:
  "\<exists>b'. LengthHeaderCodec_OnMessage BigEndian 65536 chat_callback id [] demo_wire_part = Some (Inr ([[1, 2, 3, 0, 0]], b')) \<and>
    buf_content b' = []"
proof -
  have b: "buf_std demo_wire_part" "buf_content demo_wire_part = take 9 [0, 0, 0, 3, 1, 2, 3, 0, 0, 0, 3, 4, 5, 6]"
    by (simp_all add: demo_wire_part_def demo_wire_def buf_std_def buf_ok_def ra_wf_def ra_bytes_def buf_content_def seg_def)
  show ?thesis using LengthHeaderCodec_chat [OF demo_frames _ b, of BigEndian id "[]"] by simp
qed

text \<open>The overload for output buffers sends no header: the assertion has read it. The file transfer client sends with it.\<close>

lemma SendChunks_no_header:
  assumes "cl_ok cl" "cl_buffers cl \<noteq> []" "front_index cl = HEADER_SIZE"
  shows "\<exists>cl'. LengthHeaderCodec_SendChunks A e send cl conn = send cl' conn \<and> cl_content cl' = cl_content cl"
proof -
  let ?i = "of_nat (ChunkList_GetReadableSize cl) :: 32 word"
  from ChunkList_Prepend_ok [OF assms(1), of "be_bytes 4 ?i" A] assms(2,3) obtain cl2 where
    cl2: "ChunkList_Prepend A cl (be_bytes 4 ?i) = Inr cl2" "cl_ok cl2" "cl_buffers cl2 \<noteq> []"
      "length (be_bytes 4 ?i) \<le> Chunk_GetReadableSize (hd (cl_buffers cl2))" "cl_content cl2 = be_bytes 4 ?i @ cl_content cl"
    by auto
  show ?thesis
    using cl2(1) cl_read_prefix [OF cl2(2-5)]
    by (auto simp: LengthHeaderCodec_SendChunks_def Let_def ChunkList_Prepend32_def ChunkList_Read32_def ChunkList_GetReadBegin32_def wire_simps)
qed

end
