(* ===== verification/Time_Stamp.thy ===== *)
theory Time_Stamp
  imports Kanon_Prelude "HOL-Library.Signed_Division"
begin

text \<open>
  Model of the arithmetic of \<^verbatim>\<open>kanon/util/time_stamp.h\<close>: a time is a signed 64-bit number of microseconds, the counts of the
  time units are \<open>int\<close>. Signed overflow, which the language leaves undefined, wraps around here as it does on the supported
  compilers. Division is that of C.
\<close>

type_synonym time_stamp = "64 word"

definition GetSeconds :: "time_stamp \<Rightarrow> int" where
  "GetSeconds t = sint t sdiv 1000000"

definition FromUnixTime :: "64 word \<Rightarrow> 64 word \<Rightarrow> time_stamp" where
  "FromUnixTime seconds microseconds = seconds * 1000000 + microseconds"

text \<open>Adding \<open>Microsecond\<close>, \<open>MilliSecond\<close> and \<open>Second\<close>; the count of microseconds is again an \<open>int\<close>.\<close>

definition plus_us :: "time_stamp \<Rightarrow> 32 word \<Rightarrow> time_stamp" where
  "plus_us t us = t + scast us"

definition plus_ms :: "time_stamp \<Rightarrow> 32 word \<Rightarrow> time_stamp" where
  "plus_ms t ms = plus_us t (ms * 1000)"

definition plus_sec :: "time_stamp \<Rightarrow> 32 word \<Rightarrow> time_stamp" where
  "plus_sec t sec = plus_us t (sec * 1000000)"

definition minus_us :: "time_stamp \<Rightarrow> 32 word \<Rightarrow> time_stamp" where
  "minus_us t us = plus_us t (- us)"

section \<open>Exact arithmetic\<close>

lemma sint_range32: "- (2 ^ 31) \<le> sint (x :: 32 word) \<and> sint x < 2 ^ 31"
  using sint_ge [of x] sint_lt [of x] by simp

lemma signed_take_fits: "signed_take_bit n k = (k :: int) \<longleftrightarrow> - (2 ^ n) \<le> k \<and> k < 2 ^ n"
  by (auto simp: signed_take_bit_int_eq_self_iff)

lemma sint_of_int32: "sint (of_int k :: 32 word) = signed_take_bit 31 k"
  by transfer simp

lemma sint_of_int64: "sint (of_int k :: 64 word) = signed_take_bit 63 k"
  by transfer simp

lemma sint_mult32: "sint (x * of_int k :: 32 word) = signed_take_bit 31 (sint x * k)"
proof -
  have "x * of_int k = (of_int (sint x * k) :: 32 word)" by simp
  then show ?thesis by (simp only: sint_of_int32)
qed

lemma of_int64_inj:
  assumes "- (2 ^ 63) \<le> a" "a < 2 ^ 63" "- (2 ^ 63) \<le> b" "b < 2 ^ 63"
  shows "(of_int a :: 64 word) = of_int b \<longleftrightarrow> a = b"
proof
  assume "(of_int a :: 64 word) = of_int b"
  then have "sint (of_int a :: 64 word) = sint (of_int b :: 64 word)" by simp
  then have "signed_take_bit 63 a = signed_take_bit 63 b" unfolding sint_of_int64 .
  moreover have "signed_take_bit 63 a = a" "signed_take_bit 63 b = b" using assms by (simp_all only: signed_take_fits)
  ultimately show "a = b" by simp
qed simp

text \<open>Adding \<open>x\<close> units of \<open>k\<close> microseconds.\<close>

lemma plus_unit_exact:
  assumes "0 < k" "k \<le> 1000000"
  shows "plus_us t (x * of_int k) = t + of_int (sint x * k) \<longleftrightarrow> - (2 ^ 31) \<le> sint x * k \<and> sint x * k < 2 ^ 31"
proof -
  let ?a = "signed_take_bit 31 (sint x * k)"
  have a: "- (2 ^ 31) \<le> ?a" "?a < 2 ^ 31" using sint_range32 [of "x * of_int k"] unfolding sint_mult32 by auto
  have "\<bar>sint x\<bar> \<le> 2 ^ 31" using sint_range32 [of x] by auto
  then have "\<bar>sint x * k\<bar> \<le> 2 ^ 31 * 1000000" using assms unfolding abs_mult by (intro mult_mono) auto
  then have b: "- (2 ^ 63) \<le> sint x * k" "sint x * k < 2 ^ 63" by auto
  have "plus_us t (x * of_int k) = t + of_int ?a" by (simp only: plus_us_def scast_eq sint_mult32)
  then have "plus_us t (x * of_int k) = t + of_int (sint x * k) \<longleftrightarrow> (of_int ?a :: 64 word) = of_int (sint x * k)"
    by (simp only: add_left_cancel)
  also have "\<dots> \<longleftrightarrow> ?a = sint x * k" by (rule of_int64_inj) (use a b in auto)
  finally show ?thesis by (simp only: signed_take_fits)
qed

text \<open>Adding seconds and milliseconds to a time is exact only for less than 36 minutes. The count of microseconds is an \<open>int\<close>:
  adding \<open>Second\<close> gives the right time exactly for -2147 to 2147 seconds, adding \<open>MilliSecond\<close> exactly for -2147483 to
  2147483 milliseconds; a \<open>Microsecond\<close> is always exact.\<close>

theorem TimeStamp_plus_units:
  "plus_us t us = t + of_int (sint us) \<and>
   (plus_ms t ms = t + of_int (sint ms * 1000) \<longleftrightarrow> - 2147483 \<le> sint ms \<and> sint ms \<le> 2147483) \<and>
   (plus_sec t sec = t + of_int (sint sec * 1000000) \<longleftrightarrow> - 2147 \<le> sint sec \<and> sint sec \<le> 2147)"
proof (intro conjI)
  show "plus_us t us = t + of_int (sint us)" by (simp only: plus_us_def scast_eq)
  have "plus_ms t ms = t + of_int (sint ms * 1000) \<longleftrightarrow> - (2 ^ 31) \<le> sint ms * 1000 \<and> sint ms * 1000 < 2 ^ 31"
    using plus_unit_exact [of 1000 t ms] by (simp add: plus_ms_def)
  also have "\<dots> \<longleftrightarrow> - 2147483 \<le> sint ms \<and> sint ms \<le> 2147483" by auto
  finally show "plus_ms t ms = t + of_int (sint ms * 1000) \<longleftrightarrow> - 2147483 \<le> sint ms \<and> sint ms \<le> 2147483" .
  have "plus_sec t sec = t + of_int (sint sec * 1000000) \<longleftrightarrow> - (2 ^ 31) \<le> sint sec * 1000000 \<and> sint sec * 1000000 < 2 ^ 31"
    using plus_unit_exact [of 1000000 t sec] by (simp add: plus_sec_def)
  also have "\<dots> \<longleftrightarrow> - 2147 \<le> sint sec \<and> sint sec \<le> 2147" by auto
  finally show "plus_sec t sec = t + of_int (sint sec * 1000000) \<longleftrightarrow> - 2147 \<le> sint sec \<and> sint sec \<le> 2147" .
qed

text \<open>Subtracting undoes adding, also where the time itself wraps around; the least \<open>int\<close> has no negative.\<close>

lemma minus_plus_us: "us \<noteq> - (2 ^ 31) \<Longrightarrow> minus_us (plus_us t us) us = t"
proof -
  assume u: "us \<noteq> - (2 ^ 31)"
  have "sint (- us) = - sint us"
  proof -
    have "sint us \<noteq> - (2 ^ 31)"
    proof
      assume "sint us = - (2 ^ 31)"
      moreover have "of_int (sint us) = us" by simp
      ultimately have "us = of_int (- (2 ^ 31))" by (metis)
      then show False using u by simp
    qed
    then have "- (2 ^ 31) \<le> - sint us \<and> - sint us < 2 ^ 31" using sint_range32 [of us] by auto
    then have f: "signed_take_bit 31 (- sint us) = - sint us" by (rule signed_take_fits [THEN iffD2])
    have "of_int (- sint us) = - us" by simp
    then have "sint (- us) = signed_take_bit 31 (- sint us)" using sint_of_int32 [of "- sint us"] by argo
    then show ?thesis using f by (rule trans)
  qed
  then have "scast (- us) = - (scast us :: 64 word)" unfolding scast_eq by (metis of_int_minus)
  then show ?thesis unfolding minus_us_def plus_us_def by (simp only: add.assoc right_minus add_0_right)
qed

text \<open>The seconds of a Unix time read back, for times after the epoch whose microseconds fit into 63 bits.\<close>

lemma GetSeconds_FromUnixTime:
  assumes "0 \<le> s" "0 \<le> u" "u < 1000000" "s * 1000000 + u < 2 ^ 63"
  shows "GetSeconds (FromUnixTime (of_int s) (of_int u)) = s"
proof -
  have "FromUnixTime (of_int s) (of_int u) = of_int (s * 1000000 + u)" by (simp add: FromUnixTime_def)
  moreover have "signed_take_bit 63 (s * 1000000 + u) = s * 1000000 + u" using assms by (simp only: signed_take_fits) auto
  ultimately have "sint (FromUnixTime (of_int s) (of_int u)) = s * 1000000 + u" by (simp only: sint_of_int64)
  then show ?thesis using assms by (cases "s * 1000000 + u = 0") (auto simp: GetSeconds_def signed_divide_int_def)
qed

end
