(* ===== verification/Spec2Isabelle.thy ===== *)
theory Spec2Isabelle
  imports Forward_List_Ops Timer_Queue Event_Loop Connection Pb_Codec Memory_Pool Tcp_Server Tcp_Client Rpc_Channel
    Any_Value Sync Async_Log Length_Codec Time_Stamp
begin

text \<open>
  Verification of kanon, a C++ library for network programs: event loops that run in threads of their own, non-blocking
  TCP connections with buffers, timers, a client and a server class, a codec for protobuf messages, remote calls,
  and asynchronous logging. The model is that of the Linux platform with assertions enabled. Paths below are relative to
  \<^verbatim>\<open>src/\<close>.

  \<^bold>\<open>The program.\<close> An \<open>EventLoop\<close> polls a demultiplexer (\<open>Poller\<close> or \<open>Epoller\<close>), which tells the \<open>Channel\<close> of every ready
  descriptor to call its handlers; then it runs the functors other threads have queued. Timers are one more descriptor. A
  \<open>TcpServer\<close> has an \<open>Acceptor\<close> on its loop and a pool of further loops, and gives every accepted socket to one of them as a
  \<open>TcpConnection\<close>; a \<open>TcpClient\<close> gets its socket from a \<open>Connector\<close>. A connection reads into a \<open>Buffer\<close>, calls the message callback
  with it and keeps what it cannot write at once in a \<open>ChunkList\<close>, whose chunks are the elements of two intrusive \<open>ForwardList\<close>s. A
  codec splits the input into messages, the RPC channel matches responses with calls.

  \<^bold>\<open>Conventions.\<close> \<open>Kanon_Prelude\<close> has the machine types, the type \<open>'a res\<close> of results and the list segments that stand for pointer
  ranges. Every way in which code ends without a result is a value of \<open>cerror\<close>: a failed assertion, an exception, \<open>std::terminate\<close>, an
  access outside of an array or to a deleted object, a null pointer, a fatal log line, a loop that does not end. Objects are records
  with the members of the class; an operation takes the object and returns it changed. Objects that are shared are addresses in
  an explicit heap (list nodes, timers, pool blocks, holders of \<open>Any\<close>). System calls, \<open>malloc\<close>, the clock, protobuf and the callbacks of
  the user are arguments. Integers have their width where the code can overflow.

  \<^bold>\<open>The theories.\<close>

  \<^item> \<open>String_View\<close>: \<^verbatim>\<open>kanon/string/string_view.{h,cc}\<close>. Searching, comparing, splitting. Splitting is undone by joining; the comparison
    is a total order; \<open>find\<close> finds the first occurrence; \<open>find_last_of\<close> does not end.
  \<^item> \<open>Byte_Order\<close>: \<^verbatim>\<open>kanon/linux/core/util/endian_api.h\<close>, for both byte orders of the host, with the bytes on the wire.
  \<^item> \<open>Byte_Queue\<close>: the contract of a byte buffer (locales \<open>byte_queue\<close>, \<open>checked_byte_queue\<close>) and the lemma that a sequence of operations on
    an implementation gives what it gives on a byte list.
  \<^item> \<open>Reserved_Array\<close>, \<open>Buffer\<close>: \<^verbatim>\<open>kanon/algo/reserved_array.h\<close>, \<^verbatim>\<open>kanon/buffer/buffer.{h,cc}\<close>, \<^verbatim>\<open>kanon/linux/net/buffer.cc\<close>. \<open>Buffer\<close> implements the
    contract (\<open>buf_queue\<close>); integers, lines and \<open>readv\<close>; the outcome of reserving space, which goes wrong after a \<open>Prepend\<close>, and that \<open>Shrink\<close> breaks
    the invariant.
  \<^item> \<open>Forward_List\<close>, \<open>Forward_List_Ops\<close>: \<^verbatim>\<open>kanon/algo/forward_list/*\<close>, \<^verbatim>\<open>kanon/algo/forward_list.h\<close>. The pointer operations on a heap of
    nodes refine operations on lists; \<open>merge\<close> on the heap merges; \<open>sort\<close> gives a sorted permutation.
  \<^item> \<open>Chunk_List\<close>: \<^verbatim>\<open>kanon/buffer/chunk_list.{h,cc}\<close>, \<^verbatim>\<open>kanon/linux/net/chunk_list.cc\<close>. It implements the contract of a byte queue
    (\<open>cl_queue\<close>); a header can be put in front of what was appended.
  \<^item> \<open>Channel\<close>, \<open>Demux\<close>: \<^verbatim>\<open>kanon/linux/net/{channel,poller,epoller}.cc\<close>. Which callbacks run for which events, and the contract of
    \<open>PollerBase\<close> (locale \<open>demultiplexer\<close>), which the table of \<open>poll\<close> (\<open>poll_demux\<close>) and, over any kernel that keeps the law of \<open>epoll_ctl\<close>
    (locale \<open>epoll_kernel\<close>), the \<open>epoll\<close> version satisfy: it watches exactly the channels that asked for events.
  \<^item> \<open>Timer_Queue\<close>: \<^verbatim>\<open>kanon/linux/net/timer/timer_queue.{h,cc}\<close>. The set of timers stays consistent with the heap under any operations,
    also those of the callbacks; the expired timers run once, in order, periodic ones are added again, and when a cancellation is lost.
  \<^item> \<open>Event_Loop\<close>: \<^verbatim>\<open>kanon/net/event_loop.{h,cc}\<close>. A step relation of the loop and other threads, whose calls of \<open>QueueToLoop\<close> and \<open>Quit\<close>
    are two steps each: no functor is stuck in the queue while the loop sleeps, unless the owner queued it before \<open>StartLoop\<close>, and every other
    queued functor is run.
  \<^item> \<open>Connection\<close>: \<^verbatim>\<open>kanon/net/connection/connection_base.{h,cc}\<close>, \<^verbatim>\<open>kanon/linux/net/connection/connection_base.inl\<close>. The life of a
    connection whose callbacks use its interface, and that the bytes the kernel takes are those sent, in order and without gaps or
    repetition, with the conditions for that. A close by another thread can race with the loop thread (\<open>remote_close_race\<close>) and is not
    among the steps of a connection.
  \<^item> \<open>Connector\<close>, \<open>Tcp_Client\<close>, \<open>Tcp_Server\<close>: \<^verbatim>\<open>kanon/net/{connector,tcp_client,acceptor,event_loop_pool,tcp_server}.cc\<close>,
    \<^verbatim>\<open>kanon/linux/net/connector.cc\<close>. Every socket has one owner; retry delays; a server together with its connections, of the theory
    \<open>Connection\<close>, takes no failing step, and every connection is established, closed and destroyed once, in this order; what the destruction
    of a server with running loops does.
  \<^item> \<open>XX_Hash\<close>: XXH32 of \<^verbatim>\<open>third-party/xxHash/xxhash.h\<close>. Hashing in pieces equals hashing at once.
  \<^item> \<open>Pb_Codec\<close>: \<^verbatim>\<open>kanon/protobuf/{generic_pb_codec,chunk_stream}.{h,cc}\<close>. What one side sends the other side gets, however it
    is cut; no input makes decoding leave its buffer or look behind what was received.
  \<^item> \<open>Length_Codec\<close>: \<^verbatim>\<open>example/length_codec/codec.cc\<close>, the codec of the examples: the same for every callback that reads exactly its message, and
    what the chat server gets, whose callback reads everything.
  \<^item> \<open>Rpc_Channel\<close>: \<^verbatim>\<open>kanon/rpc/{rpc_channel,rpc_controller}.{h,cc}\<close>. Calls by one thread are answered, closures run at most once, and two
    threads can get the same id.
  \<^item> \<open>Memory_Pool\<close>: \<^verbatim>\<open>kanon/mem/*\<close>. Both pools satisfy the locale \<open>object_pool\<close> (\<open>fixed_pool\<close>, \<open>linear_pool\<close>): chunks in use are distinct.
  \<^item> \<open>Any_Value\<close>: \<^verbatim>\<open>kanon/util/any.h\<close>. Programs over \<open>Any\<close> have the meaning of programs over values; casts respect the type.
  \<^item> \<open>Sync\<close>: \<^verbatim>\<open>kanon/thread/{mutex_lock,count_down_latch,rw_lock,thread_pool}\<close>. Writers exclude everyone, a waiting thread
    can get the lock when those inside leave; a thread of the pool runs one task.
  \<^item> \<open>Text_Stream\<close>: \<^verbatim>\<open>kanon/string/{fixed_buffer,lexical_stream,fmt_stream,lexical_cast}.h\<close>. Values are written whole or not at all; the
    format parser does what the format means.
  \<^item> \<open>Async_Log\<close>: \<^verbatim>\<open>kanon/log/{async_log,log_file,append_file}.cc\<close>. In every interleaving file and buffers hold the lines logged; rolling
    keeps every byte, and the open file is not removed unless a name repeats or the removing thread is overtaken.
  \<^item> \<open>Time_Stamp\<close>: \<^verbatim>\<open>kanon/util/time_stamp.h\<close>. When adding units of time is exact.

  \<^bold>\<open>Loops.\<close> A loop whose end is evident is a function with a termination proof. The others are partial functions into an option type, so that
  not ending is \<^term>\<open>None\<close> (and \<open>Diverge\<close> behind \<open>ended\<close>); two loops of \<open>Forward_List\<close> have fuel instead, \<open>fl_merge\<close> and \<open>fl_splice_range\<close>,
  since the heap they run on may hold a cycle: fuel for every node of the two lists, or of the range, is shown to be enough on
  well-formed lists. For the others the theorems state the result as \<^term>\<open>Some\<close>, so they include that the loop ends: for instance of decoding, of formatting, of appending to a chunk list. Where the code
  does loop forever (\<open>find_last_of\<close>, \<open>HandleEtWrite\<close>) that is the theorem.

  \<^bold>\<open>Bounds.\<close> Sizes of arrays are below \<open>2\<^sup>6\<^sup>3\<close>, the largest request \<open>malloc\<close> grants. The length limits of the codecs are those of the
  code; the one of the length codec can be set and must then be less than \<open>2\<^sup>3\<^sup>2 - 4\<close>, since the code adds the header in 32 bits.

  \<^bold>\<open>Not modelled.\<close> Wrappers of system calls and of the C library, for which the components that use them have arguments: sockets and
  addresses (\<^verbatim>\<open>kanon/net/{socket,sock_api,inet_addr}\<close>), threads and conditions, files, the text of times and of log lines
  (\<^verbatim>\<open>kanon/log/logger.cc\<close>), floating-point numbers. The Windows platform (\<^verbatim>\<open>kanon/win\<close>). Holders of objects in raw storage
  (\<open>optional\<close>, \<open>RawAny\<close>, \<open>UniqueAny\<close>, \<open>FixedVector\<close>, \<^verbatim>\<open>kanon/zstl\<close>), since the model has no object lifetimes inside untyped memory.
  \<^verbatim>\<open>kanon/protobuf/protobuf_codec2.cc\<close> rests on a submodule without source. \<^verbatim>\<open>kanon/buffer/ring_buffer.h\<close> is used by no component and cannot
  be instantiated completely. \<^verbatim>\<open>example/memcache\<close> is written against headers that no longer exist; the other examples are callbacks that
  forward to the library. Of xxHash the library calls XXH32 only. Weak memory is not modelled: threads interleave at the granularity
  of locks, atomic operations and system calls. There is one clock: that a timer descriptor counts on another clock than the deadlines is
  left out.
\<close>

end
